(* ===== verification/Glw_Prelude.thy ===== *)
theory Glw_Prelude
  imports Main "HOL-Library.AList" "HOL-Library.Sublist"
begin

text \<open>
  The shared vocabulary of the development: what the Go language and its standard library
  give to every package of the watcher.

  \<^item> \<^emph>\<open>Strings\<close> are byte strings, as Go's are: a \<open>char\<close> is a byte and \<open>length\<close> is
    \<open>len\<close>. The functions of package \<open>strings\<close> that the program calls are defined here.
  \<^item> \<^emph>\<open>Times\<close> are nanoseconds since the zero value of \<open>time.Time\<close>, durations are 64-bit
    nanosecond counts kept as \<open>int\<close>; negation wraps and subtraction of two times
    saturates, as in package \<open>time\<close>.
  \<^item> \<^emph>\<open>Maps\<close> are association lists. The order of the list stands for the unspecified
    iteration order of a Go map, so a result that must not depend on that order is stated
    as such.
  \<^item> \<open>sort.Search\<close> is the binary search of package \<open>sort\<close>, with its specification.
\<close>

named_theorems go_simps \<open>equations that evaluate the library functions\<close>
named_theorems gm_simps \<open>laws of Go maps\<close>


section \<open>Time\<close>

type_synonym gotime = int
type_synonym duration = int

abbreviation (input) zero_time :: gotime where
  "zero_time \<equiv> 0"

text \<open>\<open>-d\<close> on a 64-bit duration: the least value is its own negation.\<close>

definition dur_neg :: "duration \<Rightarrow> duration" where
  "dur_neg d = (if d = - (2 ^ 63) then d else - d)"

text \<open>\<open>t.Sub(u)\<close> saturates at the ends of the duration type.\<close>

definition time_sub :: "gotime \<Rightarrow> gotime \<Rightarrow> duration" where
  "time_sub t u = max (- (2 ^ 63)) (min (2 ^ 63 - 1) (t - u))"

abbreviation (input) nanosecond :: duration where "nanosecond \<equiv> 1"
abbreviation (input) millisecond :: duration where "millisecond \<equiv> 1000000"
abbreviation (input) second :: duration where "second \<equiv> 1000000000"
abbreviation (input) minute :: duration where "minute \<equiv> 60000000000"
abbreviation (input) hour :: duration where "hour \<equiv> 3600000000000"


section \<open>Strings\<close>

definition has_prefix :: "string \<Rightarrow> string \<Rightarrow> bool" where
  "has_prefix p s \<longleftrightarrow> take (length p) s = p"

definition trim_prefix :: "string \<Rightarrow> string \<Rightarrow> string" where
  "trim_prefix p s = (if has_prefix p s then drop (length p) s else s)"

definition trim_suffix :: "string \<Rightarrow> string \<Rightarrow> string" where
  "trim_suffix p s =
     (if has_prefix (rev p) (rev s) then take (length s - length p) s else s)"

text \<open>\<open>strings.Cut\<close>: the text before and after the first separator, if there is one.\<close>

fun cut :: "string \<Rightarrow> string \<Rightarrow> (string \<times> string) option" where
  "cut sep [] = (if sep = [] then Some ([], []) else None)"
| "cut sep (c # s) =
     (if has_prefix sep (c # s) then Some ([], drop (length sep) (c # s))
      else map_option (\<lambda>(a, b). (c # a, b)) (cut sep s))"

definition contains_str :: "string \<Rightarrow> string \<Rightarrow> bool" where
  "contains_str s sub \<longleftrightarrow> cut sub s \<noteq> None"

text \<open>\<open>strings.Split\<close> with a one-byte separator, \<open>strings.Join\<close>, \<open>strings.IndexByte\<close>.\<close>

fun split_on :: "char \<Rightarrow> string \<Rightarrow> string list" where
  "split_on c [] = [[]]"
| "split_on c (x # xs) =
     (if x = c then [] # split_on c xs
      else case split_on c xs of [] \<Rightarrow> [[x]] | y # ys \<Rightarrow> (x # y) # ys)"

fun join :: "string \<Rightarrow> string list \<Rightarrow> string" where
  "join sep [] = []"
| "join sep [x] = x"
| "join sep (x # y # ys) = x @ sep @ join sep (y # ys)"

fun index_byte :: "char \<Rightarrow> string \<Rightarrow> nat option" where
  "index_byte c [] = None"
| "index_byte c (x # xs) = (if x = c then Some 0 else map_option Suc (index_byte c xs))"

text \<open>
  The byte sequences that \<open>unicode.IsSpace\<close> accepts: the six ASCII spaces and the UTF-8
  encodings of U+0085, U+00A0, U+1680, U+2000 to U+200A, U+2028, U+2029, U+202F, U+205F
  and U+3000. \<open>strings.TrimSpace\<close> removes them from both ends.
\<close>

definition ws_seqs :: "string list" where
  "ws_seqs =
     [[CHR 0x20], [CHR 0x09], [CHR 0x0A], [CHR 0x0B], [CHR 0x0C], [CHR 0x0D],
      [CHR 0xC2, CHR 0x85], [CHR 0xC2, CHR 0xA0], [CHR 0xE1, CHR 0x9A, CHR 0x80],
      [CHR 0xE2, CHR 0x80, CHR 0x80], [CHR 0xE2, CHR 0x80, CHR 0x81],
      [CHR 0xE2, CHR 0x80, CHR 0x82], [CHR 0xE2, CHR 0x80, CHR 0x83],
      [CHR 0xE2, CHR 0x80, CHR 0x84], [CHR 0xE2, CHR 0x80, CHR 0x85],
      [CHR 0xE2, CHR 0x80, CHR 0x86], [CHR 0xE2, CHR 0x80, CHR 0x87],
      [CHR 0xE2, CHR 0x80, CHR 0x88], [CHR 0xE2, CHR 0x80, CHR 0x89],
      [CHR 0xE2, CHR 0x80, CHR 0x8A], [CHR 0xE2, CHR 0x80, CHR 0xA8],
      [CHR 0xE2, CHR 0x80, CHR 0xA9], [CHR 0xE2, CHR 0x80, CHR 0xAF],
      [CHR 0xE2, CHR 0x81, CHR 0x9F], [CHR 0xE3, CHR 0x80, CHR 0x80]]"

function strip_pre :: "string list \<Rightarrow> string \<Rightarrow> string" where
  "strip_pre ws s =
     (case find (\<lambda>w. w \<noteq> [] \<and> has_prefix w s) ws of
        None \<Rightarrow> s
      | Some w \<Rightarrow> strip_pre ws (drop (length w) s))"
  by pat_completeness auto
termination
proof (relation "measure (\<lambda>(ws, s). length s)")
  fix ws s w
  assume "find (\<lambda>w. w \<noteq> [] \<and> has_prefix w s) ws = Some w"
  then have "w \<noteq> [] \<and> has_prefix w s" by (auto simp: find_Some_iff)
  then show "((ws, drop (length w) s), (ws, s)) \<in> measure (\<lambda>(ws, s). length s)"
    by (cases s) (auto simp: has_prefix_def)
qed simp

declare strip_pre.simps [simp del]

definition trim_left :: "string \<Rightarrow> string" where
  "trim_left s = strip_pre ws_seqs s"

definition trim_right :: "string \<Rightarrow> string" where
  "trim_right s = rev (strip_pre (map rev ws_seqs) (rev s))"

definition trim_space :: "string \<Rightarrow> string" where
  "trim_space s = trim_right (trim_left s)"

text \<open>
  \<open>strings.ToUpper\<close> and \<open>strings.ToLower\<close>. ASCII letters change case, and so do the four
  code points outside ASCII whose image is an ASCII letter: U+0131 and U+017F under
  \<open>ToUpper\<close>, U+0130 and U+212A under \<open>ToLower\<close>. Other bytes are kept, so a result equals
  an ASCII constant exactly when Go's does, which is all that the program asks of them.
\<close>

definition upper_byte :: "char \<Rightarrow> char" where
  "upper_byte c =
     (let n = of_char c :: nat in if 97 \<le> n \<and> n \<le> 122 then char_of (n - 32) else c)"

definition lower_byte :: "char \<Rightarrow> char" where
  "lower_byte c =
     (let n = of_char c :: nat in if 65 \<le> n \<and> n \<le> 90 then char_of (n + 32) else c)"

fun to_upper :: "string \<Rightarrow> string" where
  "to_upper [] = []"
| "to_upper (c # s) =
     (if c = CHR 0xC4 \<and> s \<noteq> [] \<and> hd s = CHR 0xB1 then CHR ''I'' # to_upper (tl s)
      else if c = CHR 0xC5 \<and> s \<noteq> [] \<and> hd s = CHR 0xBF then CHR ''S'' # to_upper (tl s)
      else upper_byte c # to_upper s)"

fun to_lower :: "string \<Rightarrow> string" where
  "to_lower [] = []"
| "to_lower (c # s) =
     (if c = CHR 0xC4 \<and> s \<noteq> [] \<and> hd s = CHR 0xB0 then CHR ''i'' # to_lower (tl s)
      else if c = CHR 0xE2 \<and> has_prefix [CHR 0x84, CHR 0xAA] s
        then CHR ''k'' # to_lower (drop 2 s)
      else lower_byte c # to_lower s)"

text \<open>The printable ASCII bytes other than the blank: no spelling of a space meets them.\<close>

definition graphic :: "char \<Rightarrow> bool" where
  "graphic c \<longleftrightarrow> 33 \<le> (of_char c :: nat) \<and> (of_char c :: nat) \<le> 126"


section \<open>Maps\<close>

type_synonym ('k, 'v) gomap = "('k \<times> 'v) list"

abbreviation gm_get :: "('k, 'v) gomap \<Rightarrow> 'k \<Rightarrow> 'v option" where
  "gm_get m k \<equiv> map_of m k"

abbreviation gm_set :: "'k \<Rightarrow> 'v \<Rightarrow> ('k, 'v) gomap \<Rightarrow> ('k, 'v) gomap" where
  "gm_set k v m \<equiv> AList.update k v m"

abbreviation gm_del :: "'k \<Rightarrow> ('k, 'v) gomap \<Rightarrow> ('k, 'v) gomap" where
  "gm_del k m \<equiv> AList.delete k m"

abbreviation gm_wf :: "('k, 'v) gomap \<Rightarrow> bool" where
  "gm_wf m \<equiv> distinct (map fst m)"

text \<open>Reading a missing key of a \<open>map[string]string\<close> gives the empty string.\<close>

definition gm_str :: "(string, string) gomap \<Rightarrow> string \<Rightarrow> string" where
  "gm_str m k = (case gm_get m k of None \<Rightarrow> [] | Some v \<Rightarrow> v)"

text \<open>A \<open>map[K]struct{}\<close> used as a set, built from a slice.\<close>

definition gm_set_of :: "'k list \<Rightarrow> ('k, unit) gomap" where
  "gm_set_of ks = fold (\<lambda>k. gm_set k ()) ks []"


section \<open>Binary search\<close>

text \<open>\<open>sort.Search(n, f)\<close>, its loop over \<open>i\<close> and \<open>j\<close> as recursion.\<close>

function search_loop :: "(nat \<Rightarrow> bool) \<Rightarrow> nat \<Rightarrow> nat \<Rightarrow> nat" where
  "search_loop f i j =
     (if i < j then
        (let h = (i + j) div 2 in if \<not> f h then search_loop f (h + 1) j else search_loop f i h)
      else i)"
  by pat_completeness auto
termination
  by (relation "measure (\<lambda>(f, i, j). j - i)") auto

declare search_loop.simps [simp del]

definition sort_search :: "nat \<Rightarrow> (nat \<Rightarrow> bool) \<Rightarrow> nat" where
  "sort_search n f = search_loop f 0 n"


section \<open>The end of a list\<close>

definition lastn :: "nat \<Rightarrow> 'a list \<Rightarrow> 'a list" where
  "lastn n xs = drop (length xs - n) xs"

lemma length_lastn [simp]: "length (lastn n xs) = min n (length xs)"
  by (simp add: lastn_def)

lemma lastn_id [simp]: "length xs \<le> n \<Longrightarrow> lastn n xs = xs"
  by (simp add: lastn_def)

lemma lastn_lastn [simp]: "lastn m (lastn n xs) = lastn (min m n) xs"
  by (auto simp: lastn_def min_def intro!: arg_cong [where f = "\<lambda>k. drop k xs"])

lemma lastn_append_lastn: "n \<le> m + length ys \<Longrightarrow> lastn n (lastn m xs @ ys) = lastn n (xs @ ys)"
  by (auto simp: lastn_def min_def intro!: arg_cong [where f = "\<lambda>k. drop k xs"])

lemma suffix_lastn: "suffix (lastn n xs) xs"
  by (simp add: lastn_def suffix_drop)


lemma length_filter_mono:
  "(\<And>x. x \<in> set xs \<Longrightarrow> P x \<Longrightarrow> Q x) \<Longrightarrow> length (filter P xs) \<le> length (filter Q xs)"
  by (induction xs) auto


section \<open>Lemmas on times and strings\<close>

lemma dur_neg_nonneg [simp]: "0 \<le> d \<Longrightarrow> dur_neg d = - d"
  by (simp add: dur_neg_def)

lemma has_prefix_iff: "has_prefix p s \<longleftrightarrow> prefix p s"
  by (auto simp: has_prefix_def prefix_def) (metis append_take_drop_id)

lemma has_prefix_append [simp]: "has_prefix p (p @ s)"
  by (simp add: has_prefix_def)

lemma has_prefix_Cons:
  "has_prefix (a # p) (b # s) \<longleftrightarrow> a = b \<and> has_prefix p s"
  by (auto simp: has_prefix_def)

lemma has_prefix_Nil [simp]: "has_prefix [] s" "has_prefix (a # p) [] = False"
  by (simp_all add: has_prefix_def)

lemmas has_prefix_simps [go_simps] = has_prefix_Nil has_prefix_Cons

lemma cut_Some: "cut sep s = Some (a, b) \<Longrightarrow> s = a @ sep @ b"
proof (induction s arbitrary: a)
  case Nil
  then show ?case by (auto split: if_splits)
next
  case (Cons c s)
  show ?case
  proof (cases "has_prefix sep (c # s)")
    case True
    then have "sep @ drop (length sep) (c # s) = c # s"
      by (metis append_take_drop_id has_prefix_def)
    with True Cons.prems show ?thesis by auto
  next
    case False
    with Cons.prems Cons.IH show ?thesis by auto
  qed
qed

lemma cut_None_iff: "cut sep s = None \<longleftrightarrow> \<not> sublist sep s"
proof
  assume "\<not> sublist sep s"
  then show "cut sep s = None"
    by (cases "cut sep s") (auto simp: sublist_def dest: cut_Some)
next
  assume "cut sep s = None"
  then show "\<not> sublist sep s"
  proof (induction s)
    case Nil
    then show ?case by (auto split: if_splits)
  next
    case (Cons c s)
    from Cons.prems have np: "\<not> has_prefix sep (c # s)" and "cut sep s = None"
      by (auto split: if_splits)
    with Cons.IH have "\<not> sublist sep s" by simp
    with np show ?case by (auto simp: has_prefix_iff sublist_Cons_right)
  qed
qed

lemma contains_str_iff: "contains_str s sub \<longleftrightarrow> sublist sub s"
  by (simp add: contains_str_def cut_None_iff)

lemma cut_sublist: "cut sep s = Some (a, b) \<Longrightarrow> sublist a s \<and> sublist b s"
  by (drule cut_Some) (metis append_assoc sublist_appendI sublist_append_leftI sublist_append_rightI)

lemma split_on_nonempty [simp]: "split_on c s \<noteq> []"
  by (induction s) (auto split: list.splits)

lemma join_split_on: "join [c] (split_on c s) = s"
proof (induction s)
  case Nil
  then show ?case by simp
next
  case (Cons x xs)
  obtain y ys where s: "split_on c xs = y # ys"
    by (cases "split_on c xs") auto
  with Cons show ?case by (cases ys) auto
qed

lemma split_on_no_sep: "c \<notin> set s \<Longrightarrow> split_on c s = [s]"
  by (induction s) auto

lemma split_on_append: "split_on c (s @ c # t) = split_on c s @ split_on c t"
proof (induction s)
  case Nil
  then show ?case by simp
next
  case (Cons x s)
  obtain y ys where "split_on c s = y # ys" by (cases "split_on c s") auto
  with Cons show ?case by simp
qed

lemma split_on_prepend:
  "c \<notin> set s \<Longrightarrow> split_on c (s @ t) = (case split_on c t of [] \<Rightarrow> [] | y # ys \<Rightarrow> (s @ y) # ys)"
proof (induction s)
  case Nil
  obtain y ys where "split_on c t = y # ys" by (cases "split_on c t") auto
  then show ?case by simp
next
  case (Cons x s)
  then show ?case by (auto split: list.splits)
qed

lemma join_Cons: "ys \<noteq> [] \<Longrightarrow> join sep (x # ys) = x @ sep @ join sep ys"
  by (cases ys) auto

lemma join_prefix: "join sep ((c # x) # xs) = c # join sep (x # xs)"
  by (cases xs) auto

lemma index_byte_None: "index_byte c s = None \<longleftrightarrow> c \<notin> set s"
  by (induction s) auto

lemma index_byte_Some:
  "index_byte c s = Some i \<Longrightarrow> i < length s \<and> s ! i = c \<and> c \<notin> set (take i s)"
  by (induction s arbitrary: i) (auto split: if_splits)

lemma index_byte_append: "c \<notin> set s \<Longrightarrow> index_byte c (s @ c # t) = Some (length s)"
  by (induction s) auto

subsection \<open>Trimming\<close>

lemma strip_pre_unchanged:
  "(\<And>w. w \<in> set ws \<Longrightarrow> w \<noteq> [] \<Longrightarrow> \<not> has_prefix w s) \<Longrightarrow> strip_pre ws s = s"
  by (subst strip_pre.simps) (auto split: option.splits simp: find_Some_iff)

lemma strip_pre_step:
  "find (\<lambda>w. w \<noteq> [] \<and> has_prefix w s) ws = Some w \<Longrightarrow>
   strip_pre ws s = strip_pre ws (drop (length w) s)"
  by (subst strip_pre.simps) simp

lemma strip_pre_suffix: "suffix (strip_pre ws s) s"
proof (induction ws s rule: strip_pre.induct)
  case (1 ws s)
  show ?case
  proof (cases "find (\<lambda>w. w \<noteq> [] \<and> has_prefix w s) ws")
    case None
    then show ?thesis by (subst strip_pre.simps) simp
  next
    case (Some w)
    with 1 have "suffix (strip_pre ws (drop (length w) s)) (drop (length w) s)" by simp
    moreover have "suffix (drop (length w) s) s" by (rule suffix_drop)
    ultimately show ?thesis
      using Some by (simp add: strip_pre_step)
  qed
qed

lemma trim_left_graphic: "graphic c \<Longrightarrow> trim_left (c # s) = c # s"
  unfolding trim_left_def
  by (rule strip_pre_unchanged) (auto simp: ws_seqs_def has_prefix_Cons graphic_def)

lemma trim_right_graphic: "graphic c \<Longrightarrow> trim_right (s @ [c]) = s @ [c]"
  unfolding trim_right_def
  by (subst strip_pre_unchanged) (auto simp: ws_seqs_def has_prefix_Cons graphic_def)

lemma trim_left_Nil [simp]: "trim_left [] = []"
  unfolding trim_left_def
  by (rule strip_pre_unchanged) (auto simp: ws_seqs_def)

lemma trim_right_Nil [simp]: "trim_right [] = []"
  unfolding trim_right_def
  by (subst strip_pre_unchanged) (auto simp: ws_seqs_def)

lemma trim_space_Nil [simp]: "trim_space [] = []"
  by (simp add: trim_space_def)

lemma trim_left_blank: "trim_left (CHR '' '' # s) = trim_left s"
proof -
  have "find (\<lambda>w. w \<noteq> [] \<and> has_prefix w (CHR '' '' # s)) ws_seqs = Some [CHR '' '']"
    by (simp add: ws_seqs_def has_prefix_Cons)
  then show ?thesis unfolding trim_left_def by (simp add: strip_pre_step)
qed

lemma trim_space_blank: "trim_space (CHR '' '' # s) = trim_space s"
  by (simp add: trim_space_def trim_left_blank)

text \<open>Text that starts and ends with a printable byte is not changed by trimming.\<close>

lemma trim_space_graphic:
  assumes "s \<noteq> []" and "graphic (hd s)" and "graphic (last s)"
  shows "trim_space s = s"
proof -
  obtain c t where s: "s = c # t" using assms(1) by (cases s) auto
  with assms(2) have "trim_left s = s" by (simp add: trim_left_graphic)
  moreover have "trim_right s = s"
    using assms(1,3) trim_right_graphic [of "last s" "butlast s"] by simp
  ultimately show ?thesis by (simp add: trim_space_def)
qed

lemma trim_space_sublist: "sublist (trim_space s) s"
proof -
  have "suffix (trim_left s) s"
    by (simp add: trim_left_def strip_pre_suffix)
  moreover have "prefix (trim_right t) t" for t
    using strip_pre_suffix [of "map rev ws_seqs" "rev t"]
    by (simp add: trim_right_def suffix_to_prefix)
  ultimately show ?thesis
    unfolding trim_space_def
    by (metis prefix_imp_sublist suffix_imp_sublist sublist_order.order.trans)
qed


section \<open>Lemmas on maps\<close>

lemma gm_get_set [gm_simps]: "gm_get (gm_set k v m) k' = (if k' = k then Some v else gm_get m k')"
  by (simp add: update_conv')

lemma gm_get_del [gm_simps]: "gm_get (gm_del k m) k' = (if k' = k then None else gm_get m k')"
  by (simp add: delete_conv')

lemma keys_gm_set: "k \<in> fst ` set m \<Longrightarrow> map fst (gm_set k v m) = map fst m"
  by (induction m) auto

lemma gm_keys_set: "fst ` set (gm_set k v m) = insert k (fst ` set m)"
  by (induction m) auto

lemma gm_wf_set [simp, intro]: "gm_wf m \<Longrightarrow> gm_wf (gm_set k v m)"
  by (rule distinct_update)

lemma gm_wf_del [simp, intro]: "gm_wf m \<Longrightarrow> gm_wf (gm_del k m)"
  by (rule distinct_delete)

lemma gm_wf_filter [simp, intro]: "gm_wf m \<Longrightarrow> gm_wf (filter P m)"
  by (simp add: distinct_map_filter)

lemma length_gm_set:
  "length (gm_set k v m) = (if k \<in> fst ` set m then length m else Suc (length m))"
  by (induction m) auto

lemma length_gm_del:
  "gm_wf m \<Longrightarrow> length (gm_del k m) = (if k \<in> fst ` set m then length m - 1 else length m)"
proof (induction m)
  case Nil
  then show ?case by simp
next
  case (Cons p m)
  show ?case
  proof (cases "fst p = k")
    case True
    with Cons.prems have "k \<notin> fst ` set m" by auto
    with True show ?thesis by (simp add: delete_id)
  next
    case False
    with Cons have "length (gm_del k m) = (if k \<in> fst ` set m then length m - 1 else length m)"
      by simp
    with False show ?thesis by (cases m) auto
  qed
qed

lemma gm_get_None: "gm_get m k = None \<longleftrightarrow> k \<notin> fst ` set m"
  by (simp add: map_of_eq_None_iff)

lemma gm_get_filter:
  "gm_wf m \<Longrightarrow> gm_get (filter P m) k = (case gm_get m k of None \<Rightarrow> None | Some v \<Rightarrow> if P (k, v) then Some v else None)"
  by (induction m) (auto split: option.splits simp: map_of_eq_None_iff image_iff dest: map_of_SomeD)

lemma gm_get_set_of: "gm_get (gm_set_of ks) k = (if k \<in> set ks then Some () else None)"
proof -
  have "gm_get (fold (\<lambda>k. gm_set k ()) ks m) k
      = (if k \<in> set ks then Some () else gm_get m k)" for m
  proof (induction ks arbitrary: m)
    case Nil
    show ?case by simp
  next
    case (Cons a ks)
    show ?case using Cons.IH [of "gm_set a () m"] by (simp add: update_conv')
  qed
  then show ?thesis by (simp add: gm_set_of_def)
qed

lemma fold_gm_set_nonempty: "m \<noteq> [] \<Longrightarrow> fold (\<lambda>k. gm_set k ()) ks m \<noteq> []"
  by (induction ks arbitrary: m) (simp_all add: update_nonempty)

lemma gm_set_of_Nil: "gm_set_of ks = [] \<longleftrightarrow> ks = []"
  by (cases ks) (simp_all add: gm_set_of_def fold_gm_set_nonempty)


section \<open>The specification of binary search\<close>

lemma in_set_drop_nth: "x \<in> set (drop k xs) \<Longrightarrow> \<exists>i \<ge> k. i < length xs \<and> x = xs ! i"
  unfolding in_set_conv_nth by (metis add.commute le_add2 length_drop less_diff_conv nat_le_linear nth_drop drop_all list.size(3) not_less_zero)

lemma search_loop_spec:
  assumes "mono_on {..<n} f" and "i \<le> j" and "\<And>k. k < i \<Longrightarrow> \<not> f k"
    and "\<And>k. j \<le> k \<Longrightarrow> k < n \<Longrightarrow> f k" and "j \<le> n"
  shows "search_loop f i j \<le> n \<and> (\<forall>k < search_loop f i j. \<not> f k)
    \<and> (\<forall>k. search_loop f i j \<le> k \<longrightarrow> k < n \<longrightarrow> f k)"
  using assms
proof (induction f i j rule: search_loop.induct)
  case (1 f i j)
  show ?case
  proof (cases "i < j")
    case False
    then have "search_loop f i j = i" by (simp add: search_loop.simps [of f i j])
    with "1.prems" False show ?thesis by simp
  next
    case True
    define h where "h = (i + j) div 2"
    have h: "i \<le> h" "h < j" using True by (auto simp: h_def)
    show ?thesis
    proof (cases "f h")
      case True
      have eq: "search_loop f i j = search_loop f i h"
        using \<open>i < j\<close> True by (simp add: search_loop.simps [of f i j] h_def Let_def)
      have "f k" if "h \<le> k" "k < n" for k
        using mono_onD [OF "1.prems"(1), of h k] that h "1.prems"(5) True by simp
      then show ?thesis unfolding eq
        by (intro "1.IH"(2) [OF \<open>i < j\<close> h_def]) (use True "1.prems" h in auto)
    next
      case False
      have eq: "search_loop f i j = search_loop f (h + 1) j"
        using \<open>i < j\<close> False by (simp add: search_loop.simps [of f i j] h_def Let_def)
      have "\<not> f k" if "k < h + 1" for k
        using mono_onD [OF "1.prems"(1), of k h] that h "1.prems"(5) False by auto
      then show ?thesis unfolding eq
        by (intro "1.IH"(1) [OF \<open>i < j\<close> h_def]) (use False "1.prems" h in auto)
    qed
  qed
qed

lemma sort_search_spec:
  assumes "mono_on {..<n} f"
  shows "sort_search n f \<le> n" and "k < sort_search n f \<Longrightarrow> \<not> f k"
    and "sort_search n f \<le> k \<Longrightarrow> k < n \<Longrightarrow> f k"
  using search_loop_spec [of n f 0 n] assms by (auto simp: sort_search_def)


section \<open>Decimal numbers\<close>

text \<open>A natural number in decimal, as the formatting functions of the library write it.\<close>

fun digits :: "nat \<Rightarrow> string" where
  "digits n = (if n < 10 then [char_of (48 + n)] else digits (n div 10) @ [char_of (48 + n mod 10)])"

declare digits.simps [simp del]


section \<open>Invariants of step relations\<close>

text \<open>
  A labelled transition system is a function from labels to step relations; a run is a
  sequence of labels. The contract of a state machine: every step keeps a predicate. A
  component interprets it on its own steps and gets the predicate for every reachable state.
\<close>

inductive run :: "('l \<Rightarrow> 's \<Rightarrow> 's \<Rightarrow> bool) \<Rightarrow> 's \<Rightarrow> 'l list \<Rightarrow> 's \<Rightarrow> bool" for step s where
  run_start: "run step s [] s"
| run_step: "run step s ls s' \<Longrightarrow> step l s' s'' \<Longrightarrow> run step s (ls @ [l]) s''"

lemma run_trans: "run step s' ls' s'' \<Longrightarrow> run step s ls s' \<Longrightarrow> run step s (ls @ ls') s''"
  by (induction rule: run.induct) (auto simp flip: append_assoc intro: run.run_step)

lemma run_Cons: "step l s s' \<Longrightarrow> run step s' ls s'' \<Longrightarrow> run step s (l # ls) s''"
  using run_trans [OF _ run_step [OF run_start], of step s' ls s'' l s] by simp

locale step_invariant =
  fixes step :: "'l \<Rightarrow> 's \<Rightarrow> 's \<Rightarrow> bool" and inv :: "'s \<Rightarrow> bool"
  assumes step_keeps: "inv s \<Longrightarrow> step l s s' \<Longrightarrow> inv s'"
begin

lemma run_keeps: "run step s ls s' \<Longrightarrow> inv s \<Longrightarrow> inv s'"
  by (induction rule: run.induct) (auto intro: step_keeps)

end

end
