(* ===== verification/Log_Entry.thy ===== *)
theory Log_Entry
  imports Glw_Prelude
begin

text \<open>
  Package \<open>logentry\<close>: the two record types that travel through the pipeline
  (\<open>entry.go\<close>) and the log levels with their text forms (\<open>level.go\<close>). A \<open>LogLevel\<close> is
  an integer in the source, so values outside the seven constants exist and are rejected by
  \<open>MarshalText\<close>; the model keeps them.
\<close>

section \<open>Records\<close>

record RawLog =
  rl_ContainerID :: string
  rl_ContainerName :: string
  rl_Timestamp :: gotime
  rl_Stream :: string
  rl_Raw :: string

type_synonym LogLevel = int

text \<open>\<open>Fields\<close> is a map that may be nil: \<open>None\<close> is the nil map.\<close>

record LogEntry =
  le_ContainerID :: string
  le_ContainerName :: string
  le_Timestamp :: gotime
  le_Stream :: string
  le_Level :: LogLevel
  le_Message :: string
  le_Fields :: "(string, string) gomap option"
  le_Raw :: string

text \<open>\<open>entry.Fields[key]\<close>: the empty string for a missing key and for the nil map.\<close>

definition field_of :: "LogEntry \<Rightarrow> string \<Rightarrow> string" where
  "field_of e k = (case le_Fields e of None \<Rightarrow> [] | Some m \<Rightarrow> gm_str m k)"


section \<open>Levels\<close>

definition LevelUnknown :: LogLevel where "LevelUnknown = 0"
definition LevelTrace :: LogLevel where "LevelTrace = 1"
definition LevelDebug :: LogLevel where "LevelDebug = 2"
definition LevelInfo :: LogLevel where "LevelInfo = 3"
definition LevelWarn :: LogLevel where "LevelWarn = 4"
definition LevelError :: LogLevel where "LevelError = 5"
definition LevelCritical :: LogLevel where "LevelCritical = 6"

lemmas level_defs = LevelUnknown_def LevelTrace_def LevelDebug_def LevelInfo_def
  LevelWarn_def LevelError_def LevelCritical_def

datatype level_error = UnknownLevel string | InvalidLevel LogLevel | NilReceiver

definition levelNames :: "(LogLevel, string) gomap" where
  "levelNames =
     [(LevelUnknown, ''UNKNOWN''), (LevelTrace, ''TRACE''), (LevelDebug, ''DEBUG''),
      (LevelInfo, ''INFO''), (LevelWarn, ''WARN''), (LevelError, ''ERROR''),
      (LevelCritical, ''CRITICAL'')]"

definition level_String :: "LogLevel \<Rightarrow> string" where
  "level_String l = (case gm_get levelNames l of Some name \<Rightarrow> name | None \<Rightarrow> ''UNKNOWN'')"

definition ParseLogLevel :: "string \<Rightarrow> level_error + LogLevel" where
  "ParseLogLevel value =
     (let v = to_upper (trim_space value) in
      if v = ''UNKNOWN'' then Inr LevelUnknown
      else if v = ''TRCE'' \<or> v = ''TRACE'' then Inr LevelTrace
      else if v = ''DEBG'' \<or> v = ''DEBUG'' then Inr LevelDebug
      else if v = ''INFO'' then Inr LevelInfo
      else if v = ''WARN'' then Inr LevelWarn
      else if v = ''ERRO'' \<or> v = ''ERROR'' then Inr LevelError
      else if v = ''CRIT'' \<or> v = ''CRITICAL'' then Inr LevelCritical
      else Inl (UnknownLevel value))"

definition MarshalText :: "LogLevel \<Rightarrow> level_error + string" where
  "MarshalText l =
     (if gm_get levelNames l = None then Inl (InvalidLevel l) else Inr (level_String l))"

text \<open>The receiver is a pointer: \<open>None\<close> is nil; the result is the value stored through it.\<close>

definition UnmarshalText :: "LogLevel option \<Rightarrow> string \<Rightarrow> level_error + LogLevel" where
  "UnmarshalText receiver text =
     (case receiver of None \<Rightarrow> Inl NilReceiver | Some _ \<Rightarrow> ParseLogLevel text)"

definition valid_level :: "LogLevel \<Rightarrow> bool" where
  "valid_level l \<longleftrightarrow> LevelUnknown \<le> l \<and> l \<le> LevelCritical"


section \<open>Lemmas\<close>

lemma valid_level_cases:
  assumes "valid_level l"
  obtains "l = LevelUnknown" | "l = LevelTrace" | "l = LevelDebug" | "l = LevelInfo"
    | "l = LevelWarn" | "l = LevelError" | "l = LevelCritical"
proof -
  have "l = 0 \<or> l = 1 \<or> l = 2 \<or> l = 3 \<or> l = 4 \<or> l = 5 \<or> l = 6"
    using assms by (auto simp: valid_level_def level_defs)
  then show ?thesis using that by (auto simp: level_defs)
qed

lemma valid_level_iff: "valid_level l \<longleftrightarrow> gm_get levelNames l \<noteq> None"
  by (auto simp: valid_level_def levelNames_def level_defs split: if_splits)

lemma to_upper_eval [go_simps]:
  "to_upper [] = []"
  "c \<noteq> CHR 0xC4 \<Longrightarrow> c \<noteq> CHR 0xC5 \<Longrightarrow> to_upper (c # s) = upper_byte c # to_upper s"
  by simp_all

lemma graphic_char [go_simps]: "graphic c = (33 \<le> (of_char c :: nat) \<and> (of_char c :: nat) \<le> 126)"
  by (simp add: graphic_def)

lemma ParseLogLevel_String:
  assumes "valid_level l"
  shows "ParseLogLevel (level_String l) = Inr l"
  using assms
  by (rule valid_level_cases)
    (simp_all add: ParseLogLevel_def level_String_def levelNames_def level_defs
      trim_space_graphic go_simps upper_byte_def)

lemma ParseLogLevel_valid: "ParseLogLevel s = Inr l \<Longrightarrow> valid_level l"
  by (auto simp: ParseLogLevel_def valid_level_def level_defs Let_def split: if_splits)

lemma ParseLogLevel_error: "ParseLogLevel s = Inl e \<Longrightarrow> e = UnknownLevel s"
  by (auto simp: ParseLogLevel_def Let_def split: if_splits)


section \<open>Properties\<close>

text \<open>
  The text form of a level is a round trip: every level that \<open>MarshalText\<close> accepts is
  restored by \<open>UnmarshalText\<close>, and what \<open>MarshalText\<close> refuses is exactly a value outside
  the seven constants.
\<close>

theorem level_text_roundtrip:
  "(\<exists>text. MarshalText l = Inr text \<and> UnmarshalText (Some old) text = Inr l)
     = valid_level l
   \<and> (MarshalText l = Inl (InvalidLevel l)) = (\<not> valid_level l)"
proof (cases "valid_level l")
  case True
  then have "MarshalText l = Inr (level_String l)"
    by (simp add: MarshalText_def valid_level_iff)
  with True show ?thesis by (simp add: UnmarshalText_def ParseLogLevel_String)
next
  case False
  then show ?thesis by (simp add: MarshalText_def valid_level_iff)
qed

end
