(* ===== verification/Fixed_Regex.thy ===== *)
theory Fixed_Regex
  imports Glw_Prelude
begin

text \<open>
  Package \<open>regexp\<close> as the program uses it, in two forms.

  The three patterns that are literals of the source (the graph-node line, a
  \<open>key: value\<close> field, an environment placeholder) are syntax trees, matched by a small
  engine with the leftmost-first semantics of the package: \<open>rx_match r s\<close> lists every way
  that \<open>r\<close> matches a prefix of \<open>s\<close> in the order in which a backtracking search meets
  them, greedy repetitions trying the longer match first, and the search returns the head
  of the list. All three patterns only mention ASCII classes and \<open>.*\<close> before the end of
  the text, so matching bytes and matching runes agree.

  The patterns that come from the configuration are compiled by the library at run time.
  The library is a parameter of the model there, a record of the three calls that the
  program makes.
\<close>

section \<open>Patterns of the configuration\<close>

record 're regex_lib =
  re_compile :: "string \<Rightarrow> string + 're"
  re_match :: "'re \<Rightarrow> string \<Rightarrow> bool"
  re_replace_all :: "'re \<Rightarrow> string \<Rightarrow> string \<Rightarrow> string"


section \<open>Patterns of the source\<close>

datatype rx =
    Eps
  | Cls "char \<Rightarrow> bool"
  | Seq rx rx
  | Opt rx
  | Star rx
  | Cap nat rx
  | Eot

text \<open>A match: the text it consumed, the text that is left, the captured groups.\<close>

type_synonym rx_result = "string \<times> string \<times> (nat \<times> string) list"

text \<open>Matches followed by matches of what they leave, in the order of the search.\<close>

definition rx_then :: "rx_result list \<Rightarrow> (string \<Rightarrow> rx_result list) \<Rightarrow> rx_result list" where
  "rx_then xs g =
     concat (map (\<lambda>(u, t, m). map (\<lambda>(v, t', m'). (u @ v, t', m @ m')) (g t)) xs)"

text \<open>
  A greedy repetition. Every round consumes at least one byte, so as many rounds as there
  are bytes suffice (\<open>star_match_fuel\<close>).
\<close>

primrec star_match :: "(string \<Rightarrow> rx_result list) \<Rightarrow> nat \<Rightarrow> string \<Rightarrow> rx_result list" where
  "star_match f 0 s = [([], s, [])]"
| "star_match f (Suc n) s =
     rx_then (filter (\<lambda>(u, t, m). u \<noteq> []) (f s)) (star_match f n) @ [([], s, [])]"

primrec rx_match :: "rx \<Rightarrow> string \<Rightarrow> rx_result list" where
  "rx_match Eps s = [([], s, [])]"
| "rx_match (Cls p) s = (case s of [] \<Rightarrow> [] | c # t \<Rightarrow> if p c then [([c], t, [])] else [])"
| "rx_match (Seq r1 r2) s = rx_then (rx_match r1 s) (rx_match r2)"
| "rx_match (Opt r) s = rx_match r s @ [([], s, [])]"
| "rx_match (Star r) s = star_match (rx_match r) (length s) s"
| "rx_match (Cap n r) s = map (\<lambda>(u, t, m). (u, t, (n, u) # m)) (rx_match r s)"
| "rx_match Eot s = (if s = [] then [([], [], [])] else [])"

definition first_match :: "rx \<Rightarrow> string \<Rightarrow> rx_result option" where
  "first_match r s = (case rx_match r s of [] \<Rightarrow> None | x # _ \<Rightarrow> Some x)"

definition Plus :: "rx \<Rightarrow> rx" where
  "Plus r = Seq r (Star r)"

text \<open>A group of a match; a group that took no part reads as the empty string.\<close>

definition rx_group :: "(nat \<times> string) list \<Rightarrow> nat \<Rightarrow> string" where
  "rx_group m n = (case gm_get m n of None \<Rightarrow> [] | Some v \<Rightarrow> v)"

text \<open>\<open>FindStringSubmatch\<close> of a pattern anchored at the start: the groups of the first match.\<close>

definition find_submatch :: "rx \<Rightarrow> string \<Rightarrow> (nat \<times> string) list option" where
  "find_submatch r s = map_option (\<lambda>(u, t, m). m) (first_match r s)"

text \<open>
  The leftmost match of a pattern that is not anchored, with the text before it, and
  \<open>FindAllStringSubmatchIndex\<close>: the successive matches, each with the text since the
  previous one, and the text after the last.
\<close>

fun find_next :: "rx \<Rightarrow> string \<Rightarrow> (string \<times> rx_result) option" where
  "find_next r [] = map_option (\<lambda>x. ([], x)) (first_match r [])"
| "find_next r (c # s) =
     (case first_match r (c # s) of
        Some x \<Rightarrow> Some ([], x)
      | None \<Rightarrow> map_option (\<lambda>(b, x). (c # b, x)) (find_next r s))"

lemma in_rx_then:
  "(u, t, m) \<in> set (rx_then xs g) \<longleftrightarrow>
   (\<exists>u1 t1 m1 u2 m2. (u1, t1, m1) \<in> set xs \<and> (u2, t, m2) \<in> set (g t1) \<and> u = u1 @ u2 \<and> m = m1 @ m2)"
  unfolding rx_then_def by force

lemma rx_then_cong:
  "(\<And>u t m. (u, t, m) \<in> set xs \<Longrightarrow> g t = h t) \<Longrightarrow> rx_then xs g = rx_then xs h"
  unfolding rx_then_def by (intro arg_cong [where f = concat] map_cong) auto

lemma rx_then_simps [simp]:
  "rx_then [] g = []"
  "rx_then ((u, t, m) # xs) g = map (\<lambda>(v, t', m'). (u @ v, t', m @ m')) (g t) @ rx_then xs g"
  by (simp_all add: rx_then_def)

lemma star_match_split:
  assumes "\<And>s u t m. (u, t, m) \<in> set (f s) \<Longrightarrow> s = u @ t"
  shows "(u, t, m) \<in> set (star_match f n s) \<Longrightarrow> s = u @ t"
proof (induction n arbitrary: s u t m)
  case 0
  then show ?case by simp
next
  case (Suc n)
  consider "(u, t, m) = ([], s, [])"
    | u1 t1 m1 u2 m2 where "(u1, t1, m1) \<in> set (f s)" "(u2, t, m2) \<in> set (star_match f n t1)"
        "u = u1 @ u2"
    using Suc.prems by (auto simp: in_rx_then)
  then show ?case
  proof cases
    case 2
    with assms [of u1 t1 m1 s] Suc.IH [of u2 t m2 t1] show ?thesis by simp
  qed simp
qed

lemma rx_match_split: "(u, t, m) \<in> set (rx_match r s) \<Longrightarrow> s = u @ t"
proof (induction r arbitrary: s u t m)
  case (Star r)
  show ?case
    by (rule star_match_split [of "rx_match r"]) (use Star in auto)
next
  case (Seq r1 r2)
  then show ?case by (auto simp: in_rx_then)
qed (auto split: list.splits if_splits)

lemma first_match_split: "first_match r s = Some (u, t, m) \<Longrightarrow> s = u @ t"
  by (rule rx_match_split [of u t m r])
    (auto simp: first_match_def split: list.splits)

lemma find_next_split: "find_next r s = Some (b, u, t, m) \<Longrightarrow> s = b @ u @ t"
proof (induction r s arbitrary: b rule: find_next.induct)
  case (1 r)
  then show ?case by (auto dest: first_match_split)
next
  case (2 r c s)
  then show ?case by (auto split: option.splits dest: first_match_split)
qed

function find_all :: "rx \<Rightarrow> string \<Rightarrow> (string \<times> string \<times> (nat \<times> string) list) list \<times> string" where
  "find_all r s =
     (case find_next r s of
        None \<Rightarrow> ([], s)
      | Some (b, u, t, m) \<Rightarrow>
          if u = [] then ([], s)
          else (let (ms, rest) = find_all r t in ((b, u, m) # ms, rest)))"
  by pat_completeness auto
termination
  by (relation "measure (\<lambda>(r, s). length s)") (auto dest: find_next_split)

declare find_all.simps [simp del]


section \<open>The fuel of a repetition\<close>

text \<open>More rounds than there are bytes do not change the result of a repetition.\<close>

lemma star_match_fuel:
  assumes "\<And>s u t m. (u, t, m) \<in> set (f s) \<Longrightarrow> s = u @ t"
  shows "length s \<le> n \<Longrightarrow> star_match f (Suc n) s = star_match f n s"
proof (induction n arbitrary: s)
  case 0
  then have "\<forall>(u, t, m) \<in> set (f s). u = []" using assms [of _ _ _ s] by fastforce
  then have "filter (\<lambda>(u, t, m). u \<noteq> []) (f s) = []" by (auto simp: filter_empty_conv)
  then show ?case by simp
next
  case (Suc n)
  have "star_match f (Suc n) t = star_match f n t"
    if "(u, t, m) \<in> set (f s)" "u \<noteq> []" for u t m
    using assms [OF that(1)] that(2) Suc.prems by (intro Suc.IH) (cases u; simp)
  then have "rx_then (filter (\<lambda>(u, t, m). u \<noteq> []) (f s)) (star_match f (Suc n))
      = rx_then (filter (\<lambda>(u, t, m). u \<noteq> []) (f s)) (star_match f n)"
    by (intro rx_then_cong) auto
  then show ?case by (simp only: star_match.simps(2) [of f "Suc n" s] star_match.simps(2) [of f n s])
qed


section \<open>The first match\<close>

text \<open>Rules that compute the first match of a compound pattern from those of its parts.\<close>

lemma first_match_Seq:
  assumes "first_match r1 s = Some (u, t, m)" and "first_match r2 t = Some (v, t', m')"
  shows "first_match (Seq r1 r2) s = Some (u @ v, t', m @ m')"
  using assms by (auto simp: first_match_def split: list.splits)

lemma first_match_Seq_None:
  "first_match r1 s = None \<Longrightarrow> first_match (Seq r1 r2) s = None"
  by (auto simp: first_match_def split: list.splits)

lemma first_match_Opt:
  "first_match (Opt r) s = (case first_match r s of None \<Rightarrow> Some ([], s, []) | Some x \<Rightarrow> Some x)"
  by (auto simp: first_match_def split: list.splits)

lemma first_match_Cap:
  "first_match (Cap n r) s = map_option (\<lambda>(u, t, m). (u, t, (n, u) # m)) (first_match r s)"
  by (auto simp: first_match_def split: list.splits)

lemma first_match_Cls:
  "first_match (Cls p) s = (case s of [] \<Rightarrow> None | c # t \<Rightarrow> if p c then Some ([c], t, []) else None)"
  by (auto simp: first_match_def split: list.splits)

lemma first_match_Seq_Cls:
  "first_match (Seq (Cls p) r) s =
     (case s of [] \<Rightarrow> None
      | c # t \<Rightarrow> if p c then map_option (\<lambda>(v, t', m). (c # v, t', m)) (first_match r t) else None)"
  by (auto simp: first_match_def split: list.splits)

lemma first_match_Eot: "first_match Eot s = (if s = [] then Some ([], [], []) else None)"
  by (auto simp: first_match_def)

text \<open>A repeated class takes the longest run of the class first.\<close>

lemma star_match_Cls:
  "length s \<le> n \<Longrightarrow> \<exists>xs. star_match (rx_match (Cls p)) n s = (takeWhile p s, dropWhile p s, []) # xs"
proof (induction n arbitrary: s)
  case 0
  then show ?case by simp
next
  case (Suc n)
  show ?case
  proof (cases s)
    case Nil
    then show ?thesis by simp
  next
    case (Cons c t)
    with Suc.prems obtain xs where
      "star_match (rx_match (Cls p)) n t = (takeWhile p t, dropWhile p t, []) # xs"
      using Suc.IH [of t] Suc.prems by (auto simp del: rx_match.simps)
    with Cons show ?thesis by (simp del: rx_match.simps add: rx_match.simps(2) [of p "c # t"])
  qed
qed

lemma first_match_Star_Cls:
  "first_match (Star (Cls p)) s = Some (takeWhile p s, dropWhile p s, [])"
  using star_match_Cls [of s "length s" p] by (auto simp: first_match_def)

lemma first_match_Plus_Cls:
  "first_match (Plus (Cls p)) s =
     (if s \<noteq> [] \<and> p (hd s) then Some (takeWhile p s, dropWhile p s, []) else None)"
proof (cases "s \<noteq> [] \<and> p (hd s)")
  case True
  then obtain c t where s: "s = c # t" and "p c" by (cases s) auto
  have "first_match (Cls p) s = Some ([c], t, [])"
    using s \<open>p c\<close> by (simp add: first_match_Cls)
  from first_match_Seq [OF this first_match_Star_Cls] show ?thesis
    using s \<open>p c\<close> True by (simp add: Plus_def)
next
  case False
  then have "first_match (Cls p) s = None" by (auto simp: first_match_Cls split: list.splits)
  then have "first_match (Plus (Cls p)) s = None"
    unfolding Plus_def by (rule first_match_Seq_None)
  with False show ?thesis by auto
qed

lemmas first_match_simps = first_match_Opt first_match_Cap first_match_Cls first_match_Seq_Cls first_match_Eot
  first_match_Star_Cls first_match_Plus_Cls


section \<open>A concrete instance of the library\<close>

text \<open>
  The fragment of \<open>regexp\<close> in which a pattern is a literal of letters, digits, blanks,
  hyphens and underscores, possibly anchored by a caret. Within that fragment these are the
  results of the package. Theorems that take the library as a parameter are witnessed on it.
\<close>

definition literal_char :: "char \<Rightarrow> bool" where
  "literal_char c \<longleftrightarrow>
     (let n = of_char c :: nat in
      (48 \<le> n \<and> n \<le> 57) \<or> (65 \<le> n \<and> n \<le> 90) \<or> (97 \<le> n \<and> n \<le> 122) \<or> n = 32 \<or> n = 45 \<or> n = 95)"

definition literal_compile :: "string \<Rightarrow> string + bool \<times> string" where
  "literal_compile p =
     (let anchored = has_prefix ''^'' p; l = trim_prefix ''^'' p in
      if l \<noteq> [] \<and> list_all literal_char l then Inr (anchored, l) else Inl ''unsupported'')"

function literal_replace :: "string \<Rightarrow> string \<Rightarrow> string \<Rightarrow> string" where
  "literal_replace l r s =
     (case s of
        [] \<Rightarrow> []
      | c # t \<Rightarrow>
          if l \<noteq> [] \<and> has_prefix l s then r @ literal_replace l r (drop (length l) s)
          else c # literal_replace l r t)"
  by pat_completeness auto
termination
  by (relation "measure (\<lambda>(l, r, s). length s)") (auto simp: neq_Nil_conv)

declare literal_replace.simps [simp del]

definition literal_lib :: "(bool \<times> string) regex_lib" where
  "literal_lib = \<lparr>
     re_compile = literal_compile,
     re_match = (\<lambda>(anchored, l) s. if anchored then has_prefix l s else contains_str s l),
     re_replace_all = (\<lambda>(anchored, l) s r.
       if anchored then (if has_prefix l s then r @ drop (length l) s else s)
       else literal_replace l r s)\<rparr>"

end
