(* ===== verification/Config.thy ===== *)
theory Config
  imports Log_Entry Fixed_Regex
begin

text \<open>
  Package \<open>config\<close>: the configuration records and defaults of \<open>config.go\<close> and the checks of
  \<open>validate.go\<close>. An error message of \<open>Validate\<close> is a value: the path of the setting and what
  is wrong with it, in the order in which the source adds them; \<open>errors.Join\<close> of an empty list
  is nil, so a configuration is valid when the list is empty. The configured patterns are
  compiled by the library \<open>R\<close>.
\<close>

section \<open>The configuration\<close>

record DockerConfig =
  dk_Socket :: string

record ParserConfig =
  pa_Type :: string

record LevelsConfig =
  lv_Context :: "string list"
  lv_AlertCandidates :: "string list"

record CheckpointConfig =
  ck_Path :: string
  ck_ReplayOverlap :: duration
  ck_InitialReplayWindow :: duration
  ck_FlushInterval :: duration
  ck_FlushEvents :: int

record AggregationConfig =
  ag_MaxGroups :: int
  ag_GroupTTL :: duration
  ag_MaxSamples :: int

record ContextConfig =
  cx_BufferLines :: int

record RedactionRuleConfig =
  rdc_Pattern :: string
  rdc_Replace :: string

record RedactionConfig =
  rdc_Rules :: "RedactionRuleConfig list"

record MatchConfig =
  mt_Levels :: "string list"
  mt_Pattern :: string
  mt_Excludes :: "string list"
  mt_Components :: "string list"
  mt_FieldEquals :: "(string, string) gomap option"

record NormalizationRuleConfig =
  nr_Pattern :: string
  nr_Replace :: string

record DedupConfig =
  dc_Mode :: string
  dc_Fields :: "string list"
  dc_Normalize :: "NormalizationRuleConfig list"

record RuleContextConfig =
  rx_Before :: int
  rx_After :: int
  rx_AfterWait :: duration
  rx_MaxBytes :: int

text \<open>\<open>Enabled\<close> is a pointer: \<open>None\<close> is nil.\<close>

record RuleConfig =
  rc_ID :: string
  rc_Enabled :: "bool option"
  rc_Severity :: string
  rc_Containers :: "string list"
  rc_Match :: MatchConfig
  rc_Threshold :: int
  rc_Window :: duration
  rc_Cooldown :: duration
  rc_Dedup :: DedupConfig
  rc_Context :: RuleContextConfig
  rc_StopOnMatch :: bool

record NotificationChannelConfig =
  nc_Platform :: string
  nc_Webhook :: string
  nc_Secret :: string
  nc_AtMobiles :: "string list"
  nc_IsAtAll :: bool

record AlertConfig =
  al_CustomTags :: "string list"
  al_Channels :: "(string, NotificationChannelConfig) gomap"

record NotifierConfig =
  nf_QueueSize :: int
  nf_MaxAlertsPerMinute :: int
  nf_StormCooldown :: duration

record MetricsConfig =
  me_Listen :: string

record HealthConfig =
  hc_DockerUnavailableAfter :: duration
  hc_AllContainersDetachedAfter :: duration

record RuntimeConfig =
  ru_LogChannelSize :: int

record ShutdownConfig =
  sh_Timeout :: duration

record Config =
  cf_LogLevel :: string
  cf_Docker :: DockerConfig
  cf_Containers :: "string list"
  cf_Parser :: ParserConfig
  cf_Levels :: LevelsConfig
  cf_Checkpoint :: CheckpointConfig
  cf_Aggregation :: AggregationConfig
  cf_Context :: ContextConfig
  cf_Redaction :: RedactionConfig
  cf_Rules :: "RuleConfig list"
  cf_Alert :: AlertConfig
  cf_Notifier :: NotifierConfig
  cf_Metrics :: MetricsConfig
  cf_Health :: HealthConfig
  cf_Runtime :: RuntimeConfig
  cf_Shutdown :: ShutdownConfig

definition IsEnabled :: "RuleConfig \<Rightarrow> bool" where
  "IsEnabled r \<longleftrightarrow> rc_Enabled r = None \<or> rc_Enabled r = Some True"

definition DefaultConfig :: Config where
  "DefaultConfig = \<lparr>
     cf_LogLevel = ''info'',
     cf_Docker = \<lparr>dk_Socket = ''unix:///var/run/docker.sock''\<rparr>,
     cf_Containers = [],
     cf_Parser = \<lparr>pa_Type = ''graph-node''\<rparr>,
     cf_Levels = \<lparr>lv_Context = [''INFO'', ''WARN'', ''ERROR'', ''CRITICAL''],
       lv_AlertCandidates = [''WARN'', ''ERROR'', ''CRITICAL'']\<rparr>,
     cf_Checkpoint = \<lparr>ck_Path = ''/var/lib/graph-log-watcher/state.db'',
       ck_ReplayOverlap = 2 * second, ck_InitialReplayWindow = 5 * minute,
       ck_FlushInterval = second, ck_FlushEvents = 100\<rparr>,
     cf_Aggregation = \<lparr>ag_MaxGroups = 10000, ag_GroupTTL = 24 * hour, ag_MaxSamples = 3\<rparr>,
     cf_Context = \<lparr>cx_BufferLines = 100\<rparr>,
     cf_Redaction = \<lparr>rdc_Rules = []\<rparr>,
     cf_Rules = [],
     cf_Alert = \<lparr>al_CustomTags = [], al_Channels = []\<rparr>,
     cf_Notifier = \<lparr>nf_QueueSize = 100, nf_MaxAlertsPerMinute = 20, nf_StormCooldown = minute\<rparr>,
     cf_Metrics = \<lparr>me_Listen = '':9108''\<rparr>,
     cf_Health = \<lparr>hc_DockerUnavailableAfter = minute, hc_AllContainersDetachedAfter = minute\<rparr>,
     cf_Runtime = \<lparr>ru_LogChannelSize = 10000\<rparr>,
     cf_Shutdown = \<lparr>sh_Timeout = 10 * second\<rparr>\<rparr>"

definition rule_defaults :: "RuleConfig \<Rightarrow> RuleConfig" where
  "rule_defaults rule =
     (let r1 = (if rc_Enabled rule = None then rule\<lparr>rc_Enabled := Some True\<rparr> else rule);
          r2 = (if dc_Mode (rc_Dedup r1) = []
                then r1\<lparr>rc_Dedup := (rc_Dedup r1)\<lparr>dc_Mode := ''normalized''\<rparr>\<rparr> else r1) in
      if rx_MaxBytes (rc_Context r2) = 0
      then r2\<lparr>rc_Context := (rc_Context r2)\<lparr>rx_MaxBytes := 16384\<rparr>\<rparr> else r2)"

definition applyRuleDefaults :: "Config \<Rightarrow> Config" where
  "applyRuleDefaults c = c\<lparr>cf_Rules := map rule_defaults (cf_Rules c)\<rparr>"


section \<open>Validation\<close>

datatype path_step = At string | Idx nat | Key string

datatype cfg_problem =
    Unsupported string
  | MustNotBeEmpty
  | MustContainValue
  | Duplicate string
  | BadLevel level_error
  | BadRegexp string
  | MustBePositive
  | MustNotBeNegative
  | MustBePositiveWithAfter

type_synonym cfg_error = "path_step list \<times> cfg_problem"

definition allowedSeverities :: "string list" where
  "allowedSeverities = [''low'', ''medium'', ''high'', ''critical'']"

definition allowedDedupModes :: "string list" where
  "allowedDedupModes = [''exact'', ''normalized'', ''fields'', ''rule'']"

definition allowedLogLevels :: "string list" where
  "allowedLogLevels = [''debug'', ''info'', ''warn'', ''error'']"

text \<open>A call of \<open>add\<close> under a condition.\<close>

definition add_if :: "bool \<Rightarrow> path_step list \<Rightarrow> cfg_problem \<Rightarrow> cfg_error list" where
  "add_if b path problem = (if b then [(path, problem)] else [])"

fun check_names :: "path_step list \<Rightarrow> nat \<Rightarrow> string list \<Rightarrow> string list \<Rightarrow> cfg_error list" where
  "check_names path index seen [] = []"
| "check_names path index seen (value # values) =
     (let trimmed = trim_space value in
      if trimmed = [] then (path @ [Idx index], MustNotBeEmpty) # check_names path (Suc index) seen values
      else if trimmed \<in> set seen
        then (path @ [Idx index], Duplicate trimmed) # check_names path (Suc index) seen values
      else check_names path (Suc index) (trimmed # seen) values)"

definition validateNames :: "path_step list \<Rightarrow> string list \<Rightarrow> bool \<Rightarrow> cfg_error list" where
  "validateNames path values required =
     (if required \<and> values = [] then [(path, MustContainValue)]
      else check_names path 0 [] values)"

fun check_levels :: "path_step list \<Rightarrow> nat \<Rightarrow> LogLevel list \<Rightarrow> string list \<Rightarrow> cfg_error list" where
  "check_levels path index seen [] = []"
| "check_levels path index seen (value # values) =
     (case ParseLogLevel value of
        Inl e \<Rightarrow> (path @ [Idx index], BadLevel e) # check_levels path (Suc index) seen values
      | Inr level \<Rightarrow>
          if level \<in> set seen
          then (path @ [Idx index], Duplicate (level_String level)) # check_levels path (Suc index) seen values
          else check_levels path (Suc index) (level # seen) values)"

definition validateLevels :: "path_step list \<Rightarrow> string list \<Rightarrow> bool \<Rightarrow> cfg_error list" where
  "validateLevels path values required =
     (if required \<and> values = [] then [(path, MustContainValue)]
      else check_levels path 0 [] values)"

text \<open>A pattern that must be present: not blank and compiled by the library.\<close>

definition required_pattern :: "'re regex_lib \<Rightarrow> path_step list \<Rightarrow> string \<Rightarrow> cfg_error list" where
  "required_pattern R path pattern =
     (if trim_space pattern = [] then [(path, MustNotBeEmpty)]
      else case re_compile R pattern of Inl e \<Rightarrow> [(path, BadRegexp e)] | Inr _ \<Rightarrow> [])"

definition validateRegexRules ::
  "'re regex_lib \<Rightarrow> path_step list \<Rightarrow> RedactionRuleConfig list \<Rightarrow> cfg_error list" where
  "validateRegexRules R path rules =
     concat (map (\<lambda>(index, rule). required_pattern R (path @ [Idx index, At ''pattern'']) (rdc_Pattern rule))
       (enumerate 0 rules))"

definition validatePatterns :: "'re regex_lib \<Rightarrow> path_step list \<Rightarrow> string \<Rightarrow> cfg_error list" where
  "validatePatterns R path pattern =
     (if pattern = [] then []
      else case re_compile R pattern of Inl e \<Rightarrow> [(path, BadRegexp e)] | Inr _ \<Rightarrow> [])"

definition validateDedup :: "'re regex_lib \<Rightarrow> path_step list \<Rightarrow> DedupConfig \<Rightarrow> cfg_error list" where
  "validateDedup R path dedup =
     (let mode = to_lower (trim_space (dc_Mode dedup)) in
      add_if (mode \<notin> set allowedDedupModes) (path @ [At ''mode'']) (Unsupported (dc_Mode dedup))
      @ (if mode = ''fields'' then validateNames (path @ [At ''fields'']) (dc_Fields dedup) True else [])
      @ concat (map (\<lambda>(index, n). required_pattern R (path @ [At ''normalize'', Idx index, At ''pattern'']) (nr_Pattern n))
          (enumerate 0 (dc_Normalize dedup))))"

text \<open>The checks of one rule except for its identifier, in the order of \<open>validateRules\<close>.\<close>

definition rule_checks :: "'re regex_lib \<Rightarrow> path_step list \<Rightarrow> RuleConfig \<Rightarrow> cfg_error list" where
  "rule_checks R path rule =
     (let m = rc_Match rule; x = rc_Context rule in
      add_if (to_lower (trim_space (rc_Severity rule)) \<notin> set allowedSeverities)
        (path @ [At ''severity'']) (Unsupported (rc_Severity rule))
      @ validateNames (path @ [At ''containers'']) (rc_Containers rule) False
      @ validateLevels (path @ [At ''match'', At ''levels'']) (mt_Levels m) True
      @ validatePatterns R (path @ [At ''match'', At ''pattern'']) (mt_Pattern m)
      @ concat (map (\<lambda>(i, p). validatePatterns R (path @ [At ''match'', At ''excludes'', Idx i]) p)
          (enumerate 0 (mt_Excludes m)))
      @ concat (map (\<lambda>(field, value).
          add_if (trim_space field = []) (path @ [At ''match'', At ''field_equals'']) MustNotBeEmpty
          @ add_if (trim_space value = []) (path @ [At ''match'', At ''field_equals'', Key field]) MustNotBeEmpty)
          (case mt_FieldEquals m of None \<Rightarrow> [] | Some fs \<Rightarrow> fs))
      @ add_if (rc_Threshold rule \<le> 0) (path @ [At ''threshold'']) MustBePositive
      @ add_if (rc_Window rule \<le> 0) (path @ [At ''window'']) MustBePositive
      @ add_if (rc_Cooldown rule < 0) (path @ [At ''cooldown'']) MustNotBeNegative
      @ validateDedup R (path @ [At ''dedup'']) (rc_Dedup rule)
      @ add_if (rx_Before x < 0) (path @ [At ''context'', At ''before'']) MustNotBeNegative
      @ add_if (rx_After x < 0) (path @ [At ''context'', At ''after'']) MustNotBeNegative
      @ add_if (rx_AfterWait x < 0) (path @ [At ''context'', At ''after_wait'']) MustNotBeNegative
      @ add_if (rx_After x > 0 \<and> rx_AfterWait x \<le> 0)
          (path @ [At ''context'', At ''after_wait'']) MustBePositiveWithAfter
      @ add_if (rx_MaxBytes x \<le> 0) (path @ [At ''context'', At ''max_bytes'']) MustBePositive)"

fun check_rules :: "'re regex_lib \<Rightarrow> nat \<Rightarrow> string list \<Rightarrow> RuleConfig list \<Rightarrow> cfg_error list" where
  "check_rules R index ids [] = []"
| "check_rules R index ids (rule # rules) =
     (let path = [At ''rules'', Idx index]; id = trim_space (rc_ID rule) in
      (if id = [] then [(path @ [At ''id''], MustNotBeEmpty)]
       else if id \<in> set ids then [(path @ [At ''id''], Duplicate id)] else [])
      @ rule_checks R path rule
      @ check_rules R (Suc index) (if id = [] \<or> id \<in> set ids then ids else id # ids) rules)"

definition validateRules :: "'re regex_lib \<Rightarrow> RuleConfig list \<Rightarrow> cfg_error list" where
  "validateRules R rules =
     (if rules = [] then [([At ''rules''], MustContainValue)] else check_rules R 0 [] rules)"

definition validateChannels ::
  "(string, NotificationChannelConfig) gomap \<Rightarrow> cfg_error list" where
  "validateChannels channels =
     (if channels = [] then [([At ''alert'', At ''channels''], MustContainValue)]
      else concat (map (\<lambda>(id, channel).
        let path = [At ''alert'', At ''channels'', Key id] in
        add_if (trim_space id = []) [At ''alert'', At ''channels''] MustNotBeEmpty
        @ add_if (to_lower (trim_space (nc_Platform channel)) \<noteq> ''dingtalk'')
            (path @ [At ''platform'']) (Unsupported (nc_Platform channel))
        @ add_if (trim_space (nc_Webhook channel) = []) (path @ [At ''webhook'']) MustNotBeEmpty) channels))"

text \<open>The checks of the settings outside rules, redaction and channels, in source order.\<close>

definition validate_settings :: "Config \<Rightarrow> cfg_error list" where
  "validate_settings c =
     (let ck = cf_Checkpoint c; ag = cf_Aggregation c; nf = cf_Notifier c; h = cf_Health c in
      add_if (to_lower (trim_space (cf_LogLevel c)) \<notin> set allowedLogLevels)
        [At ''log_level''] (Unsupported (cf_LogLevel c))
      @ add_if (trim_space (dk_Socket (cf_Docker c)) = []) [At ''docker'', At ''socket''] MustNotBeEmpty
      @ add_if (pa_Type (cf_Parser c) \<noteq> ''graph-node'')
          [At ''parser'', At ''type''] (Unsupported (pa_Type (cf_Parser c)))
      @ validateNames [At ''containers''] (cf_Containers c) True
      @ validateLevels [At ''levels'', At ''context''] (lv_Context (cf_Levels c)) True
      @ validateLevels [At ''levels'', At ''alert_candidates''] (lv_AlertCandidates (cf_Levels c)) True
      @ add_if (trim_space (ck_Path ck) = []) [At ''checkpoint'', At ''path''] MustNotBeEmpty
      @ add_if (ck_ReplayOverlap ck < 0) [At ''checkpoint'', At ''replay_overlap''] MustNotBeNegative
      @ add_if (ck_InitialReplayWindow ck < 0)
          [At ''checkpoint'', At ''initial_replay_window''] MustNotBeNegative
      @ add_if (ck_FlushInterval ck \<le> 0) [At ''checkpoint'', At ''flush_interval''] MustBePositive
      @ add_if (ck_FlushEvents ck \<le> 0) [At ''checkpoint'', At ''flush_events''] MustBePositive
      @ add_if (ag_MaxGroups ag \<le> 0) [At ''aggregation'', At ''max_groups''] MustBePositive
      @ add_if (ag_GroupTTL ag \<le> 0) [At ''aggregation'', At ''group_ttl''] MustBePositive
      @ add_if (ag_MaxSamples ag \<le> 0) [At ''aggregation'', At ''max_samples''] MustBePositive
      @ add_if (cx_BufferLines (cf_Context c) \<le> 0) [At ''context'', At ''buffer_lines''] MustBePositive
      @ add_if (nf_QueueSize nf \<le> 0) [At ''notifier'', At ''queue_size''] MustBePositive
      @ add_if (nf_MaxAlertsPerMinute nf \<le> 0)
          [At ''notifier'', At ''max_alerts_per_minute''] MustBePositive
      @ add_if (nf_StormCooldown nf < 0) [At ''notifier'', At ''storm_cooldown''] MustNotBeNegative
      @ add_if (trim_space (me_Listen (cf_Metrics c)) = []) [At ''metrics'', At ''listen''] MustNotBeEmpty
      @ add_if (hc_DockerUnavailableAfter h \<le> 0)
          [At ''health'', At ''docker_unavailable_after''] MustBePositive
      @ add_if (hc_AllContainersDetachedAfter h \<le> 0)
          [At ''health'', At ''all_containers_detached_after''] MustBePositive
      @ add_if (ru_LogChannelSize (cf_Runtime c) \<le> 0) [At ''runtime'', At ''log_channel_size''] MustBePositive
      @ add_if (sh_Timeout (cf_Shutdown c) \<le> 0) [At ''shutdown'', At ''timeout''] MustBePositive)"

definition Validate :: "'re regex_lib \<Rightarrow> Config \<Rightarrow> cfg_error list" where
  "Validate R c =
     validate_settings c
     @ validateRegexRules R [At ''redaction'', At ''rules''] (rdc_Rules (cf_Redaction c))
     @ validateRules R (cf_Rules c)
     @ validateChannels (al_Channels (cf_Alert c))"


section \<open>Lemmas\<close>

lemma add_if_Nil [simp]: "add_if b p e = [] \<longleftrightarrow> \<not> b"
  by (simp add: add_if_def)

lemma check_names_ok:
  "check_names path i seen vs = [] \<longleftrightarrow>
   [] \<notin> set (map trim_space vs) \<and> distinct (map trim_space vs) \<and> set (map trim_space vs) \<inter> set seen = {}"
  by (induction vs arbitrary: i seen) (auto simp: Let_def)

lemma validateNames_ok:
  "validateNames path vs req = [] \<longleftrightarrow>
   (req \<longrightarrow> vs \<noteq> []) \<and> [] \<notin> set (map trim_space vs) \<and> distinct (map trim_space vs)"
  by (auto simp: validateNames_def check_names_ok)

lemma check_levels_parse:
  "check_levels path i seen vs = [] \<Longrightarrow> list_all (\<lambda>v. \<not> isl (ParseLogLevel v)) vs"
  by (induction vs arbitrary: i seen) (auto split: sum.splits if_splits)

lemma validateLevels_parse:
  "validateLevels path vs True = [] \<Longrightarrow> vs \<noteq> [] \<and> list_all (\<lambda>v. \<not> isl (ParseLogLevel v)) vs"
  by (auto simp: validateLevels_def dest: check_levels_parse split: if_splits)

lemma required_pattern_ok:
  "required_pattern R path p = [] \<longleftrightarrow> trim_space p \<noteq> [] \<and> \<not> isl (re_compile R p)"
  by (auto simp: required_pattern_def split: sum.splits)

lemma validatePatterns_ok:
  "validatePatterns R path p = [] \<longleftrightarrow> p = [] \<or> \<not> isl (re_compile R p)"
  by (auto simp: validatePatterns_def split: sum.splits)

lemma concat_enumerate_Nil:
  "concat (map (\<lambda>(i, x). f i x) (enumerate n xs)) = [] \<Longrightarrow> (\<And>i x. f i x = [] \<Longrightarrow> P x) \<Longrightarrow> list_all P xs"
  by (induction xs arbitrary: n) auto

lemma check_rules_ok:
  "check_rules R i ids rules = [] \<Longrightarrow>
   list_all (\<lambda>r. trim_space (rc_ID r) \<noteq> [] \<and> (\<exists>path. rule_checks R path r = [])) rules
   \<and> distinct (map (trim_space \<circ> rc_ID) rules)
   \<and> set (map (trim_space \<circ> rc_ID) rules) \<inter> set ids = {}"
proof (induction rules arbitrary: i ids)
  case Nil
  show ?case by simp
next
  case (Cons r rules)
  let ?id = "trim_space (rc_ID r)"
  have r: "?id \<noteq> []" "?id \<notin> set ids" "rule_checks R [At ''rules'', Idx i] r = []"
    and "check_rules R (Suc i) (?id # ids) rules = []"
    using Cons.prems by (auto simp: Let_def split: if_splits)
  from Cons.IH [OF this(4)] r show ?case by (auto simp: comp_def)
qed

end
