(* ===== verification/Graph_Node_Parser.thy ===== *)
theory Graph_Node_Parser
  imports Log_Entry Fixed_Regex
begin

text \<open>
  Package \<open>parser\<close>: \<open>GraphNodeParser.Parse\<close> and \<open>parseMessageAndFields\<close> of
  \<open>graphnode.go\<close>, over the two patterns of that file. The properties say what the
  \<open>Parser\<close> interface asks of a parser (\<open>parser.go\<close>), that a rendered line is read back,
  and where an entry of level UNKNOWN is not the unchanged line.
\<close>

section \<open>The patterns\<close>

definition in_range :: "nat \<Rightarrow> nat \<Rightarrow> char \<Rightarrow> bool" where
  "in_range a b c \<longleftrightarrow> a \<le> (of_char c :: nat) \<and> (of_char c :: nat) \<le> b"

definition is_upper :: "char \<Rightarrow> bool" where "is_upper c \<longleftrightarrow> in_range 65 90 c"
definition is_lower :: "char \<Rightarrow> bool" where "is_lower c \<longleftrightarrow> in_range 97 122 c"
definition is_digit :: "char \<Rightarrow> bool" where "is_digit c \<longleftrightarrow> in_range 48 57 c"
definition is_letter :: "char \<Rightarrow> bool" where "is_letter c \<longleftrightarrow> is_upper c \<or> is_lower c"

text \<open>The class \<open>\s\<close> of package \<open>regexp\<close>, and the dot.\<close>

definition is_rx_space :: "char \<Rightarrow> bool" where
  "is_rx_space c \<longleftrightarrow> c \<in> {CHR 0x09, CHR 0x0A, CHR 0x0C, CHR 0x0D, CHR 0x20}"

definition is_dot :: "char \<Rightarrow> bool" where
  "is_dot c \<longleftrightarrow> c \<noteq> CHR 0x0A"

definition is_key_start :: "char \<Rightarrow> bool" where
  "is_key_start c \<longleftrightarrow> is_letter c \<or> c = CHR ''_''"

definition is_key_char :: "char \<Rightarrow> bool" where
  "is_key_char c \<longleftrightarrow>
     is_letter c \<or> is_digit c \<or> c = CHR ''_'' \<or> c = CHR ''.'' \<or> c = CHR ''-''"

fun seqs :: "rx list \<Rightarrow> rx" where
  "seqs [] = Eps"
| "seqs [r] = r"
| "seqs (r # rs) = Seq r (seqs rs)"

abbreviation Chr :: "char \<Rightarrow> rx" where
  "Chr c \<equiv> Cls (\<lambda>x. x = c)"

definition timestampPrefix :: rx where
  "timestampPrefix =
     (let d = Cls is_digit; sp = Plus (Cls is_rx_space) in
      seqs [Cls is_upper, Cls is_lower, Cls is_lower, sp, d, Opt d, sp,
        d, d, Chr CHR '':'', d, d, Chr CHR '':'', d, d, Opt (Seq (Chr CHR ''.'') (Plus d)), sp])"

definition graphNodeLinePattern :: rx where
  "graphNodeLinePattern =
     Seq (Opt timestampPrefix)
       (Seq (Cap 1 (Plus (Cls is_letter)))
         (Seq (Opt (Seq (Plus (Cls is_rx_space)) (Cap 2 (Star (Cls is_dot))))) Eot))"

definition fieldPattern :: rx where
  "fieldPattern =
     Seq (Cap 1 (Seq (Cls is_key_start) (Star (Cls is_key_char))))
       (Seq (Chr CHR '':'')
         (Seq (Star (Cls is_rx_space)) (Seq (Cap 2 (Star (Cls is_dot))) Eot)))"


section \<open>The parser\<close>

text \<open>The variables of the loop of \<open>parseMessageAndFields\<close>.\<close>

record pm_state =
  pm_messageParts :: "string list"
  pm_fields :: "(string, string) gomap"
  pm_lastField :: string
  pm_fieldSectionStarted :: bool

definition pm_step :: "string \<Rightarrow> pm_state \<Rightarrow> pm_state" where
  "pm_step part st =
     (let trimmed = trim_space part in
      case find_submatch fieldPattern trimmed of
        Some matches \<Rightarrow>
          st\<lparr>pm_fieldSectionStarted := True, pm_lastField := rx_group matches 1,
             pm_fields := gm_set (rx_group matches 1) (rx_group matches 2) (pm_fields st)\<rparr>
      | None \<Rightarrow>
          if pm_fieldSectionStarted st \<and> pm_lastField st \<noteq> []
          then st\<lparr>pm_fields := gm_set (pm_lastField st)
                 (gm_str (pm_fields st) (pm_lastField st) @ '','' @ part) (pm_fields st)\<rparr>
          else st\<lparr>pm_messageParts := pm_messageParts st @ [trimmed]\<rparr>)"

definition pm_init :: pm_state where
  "pm_init = \<lparr>pm_messageParts = [], pm_fields = [], pm_lastField = [],
     pm_fieldSectionStarted = False\<rparr>"

definition parseMessageAndFields :: "string \<Rightarrow> string \<times> (string, string) gomap option" where
  "parseMessageAndFields value =
     (let st = fold pm_step (split_on CHR '','' value) pm_init in
      (join '', '' (pm_messageParts st),
       if length (pm_fields st) = 0 then None else Some (pm_fields st)))"

definition Parse :: "RawLog \<Rightarrow> LogEntry" where
  "Parse raw =
     (let entry = \<lparr>le_ContainerID = rl_ContainerID raw, le_ContainerName = rl_ContainerName raw,
            le_Timestamp = rl_Timestamp raw, le_Stream = rl_Stream raw,
            le_Level = LevelUnknown, le_Message = rl_Raw raw, le_Fields = None,
            le_Raw = rl_Raw raw\<rparr> in
      case find_submatch graphNodeLinePattern (rl_Raw raw) of
        None \<Rightarrow> entry
      | Some matches \<Rightarrow>
          (case ParseLogLevel (rx_group matches 1) of
             Inl _ \<Rightarrow> entry
           | Inr level \<Rightarrow>
               (let (message, fs) = parseMessageAndFields (rx_group matches 2) in
                entry\<lparr>le_Level := level, le_Message := message, le_Fields := fs\<rparr>)))"

text \<open>The level word of a line, if the line has the shape of a graph-node line.\<close>

definition level_word :: "string \<Rightarrow> string option" where
  "level_word line = map_option (\<lambda>m. rx_group m 1) (find_submatch graphNodeLinePattern line)"

text \<open>A line as graph-node writes it: level, message, then comma-separated fields.\<close>

definition render_field :: "string \<times> string \<Rightarrow> string" where
  "render_field kv = fst kv @ '': '' @ snd kv"

definition render_line :: "LogLevel \<Rightarrow> string \<Rightarrow> (string \<times> string) list \<Rightarrow> string" where
  "render_line l msg kvs = level_String l @ '' '' @ join '', '' (msg # map render_field kvs)"

definition plain_text :: "string \<Rightarrow> bool" where
  "plain_text s \<longleftrightarrow> s \<noteq> [] \<and> graphic (hd s) \<and> graphic (last s) \<and> CHR 0x0A \<notin> set s"

definition plain_message :: "string \<Rightarrow> bool" where
  "plain_message s \<longleftrightarrow> plain_text s \<and> CHR '','' \<notin> set s \<and> CHR '':'' \<notin> set s"

definition plain_key :: "string \<Rightarrow> bool" where
  "plain_key k \<longleftrightarrow> k \<noteq> [] \<and> is_key_start (hd k) \<and> list_all is_key_char (tl k)"

text \<open>A value may contain commas as long as no piece after a comma reads as a field.\<close>

definition plain_value :: "string \<Rightarrow> bool" where
  "plain_value v \<longleftrightarrow> CHR 0x0A \<notin> set v \<and>
     (case split_on CHR '','' v of
        [] \<Rightarrow> False
      | v0 # vs \<Rightarrow> plain_text v0 \<and>
          list_all (\<lambda>p. find_submatch fieldPattern (trim_space p) = None) vs)"


section \<open>Lemmas\<close>

lemmas class_defs = is_upper_def is_lower_def is_digit_def is_letter_def in_range_def
  is_rx_space_def is_dot_def is_key_start_def is_key_char_def

lemma graphic_not_space: "graphic c \<Longrightarrow> \<not> is_rx_space c"
  by (auto simp: is_rx_space_def graphic_def)

lemma key_char_not_colon [simp]: "\<not> is_key_char CHR '':''"
  by (simp add: class_defs)

lemma takeWhile_all_then:
  "list_all p s \<Longrightarrow> t = [] \<or> \<not> p (hd t) \<Longrightarrow> takeWhile p (s @ t) = s \<and> dropWhile p (s @ t) = t"
  by (induction s) (cases t; auto)+

lemma takeWhile_dot: "CHR 0x0A \<notin> set s \<Longrightarrow> takeWhile is_dot s = s \<and> dropWhile is_dot s = []"
  by (induction s) (auto simp: is_dot_def)

text \<open>What the field pattern captures, and that it needs a colon.\<close>

lemma fieldPattern_match:
  assumes "plain_key k" and "v \<noteq> []" and "graphic (hd v)" and "CHR 0x0A \<notin> set v"
  shows "find_submatch fieldPattern (k @ '': '' @ v) = Some [(1, k), (2, v)]"
proof -
  obtain c k' where k: "k = c # k'" using assms(1) by (cases k) (auto simp: plain_key_def)
  have "first_match (Seq (Cls is_key_start) (Star (Cls is_key_char))) (k @ '': '' @ v)
      = Some (k, '': '' @ v, [])"
    using assms(1) takeWhile_all_then [of is_key_char k' "'': '' @ v"]
    by (simp add: k first_match_simps plain_key_def)
  then have 1: "first_match (Cap 1 (Seq (Cls is_key_start) (Star (Cls is_key_char)))) (k @ '': '' @ v)
      = Some (k, '': '' @ v, [(1, k)])"
    by (simp add: first_match_Cap)
  have 2: "first_match (Seq (Cap 2 (Star (Cls is_dot))) Eot) v = Some (v, [], [(2, v)])"
    using first_match_Seq [of "Cap 2 (Star (Cls is_dot))" v v "[]" "[(2, v)]" Eot]
      takeWhile_dot [OF assms(4)] by (simp add: first_match_simps)
  have "first_match (Star (Cls is_rx_space)) ('' '' @ v) = Some ('' '', v, [])"
    using graphic_not_space [OF assms(3)] assms(2)
    by (cases v) (auto simp: first_match_simps is_rx_space_def)
  from first_match_Seq [OF this 2] have "first_match (Seq (Chr CHR '':'')
      (Seq (Star (Cls is_rx_space)) (Seq (Cap 2 (Star (Cls is_dot))) Eot))) ('': '' @ v)
      = Some ('': '' @ v, [], [(2, v)])"
    by (simp add: first_match_Seq_Cls)
  from first_match_Seq [OF 1 this] show ?thesis
    by (simp add: find_submatch_def fieldPattern_def)
qed

lemma fieldPattern_colon:
  assumes "CHR '':'' \<notin> set s"
  shows "find_submatch fieldPattern s = None"
proof -
  have "CHR '':'' \<in> set u" if "(u, t, m) \<in> set (rx_match fieldPattern s)" for u t m
    using that unfolding fieldPattern_def
    by (simp add: in_rx_then del: rx_match.simps add: rx_match.simps(3))
      (force simp: in_rx_then split: list.splits if_splits)
  with assms have "rx_match fieldPattern s = []"
    using rx_match_split [of _ _ _ fieldPattern s] by (cases "rx_match fieldPattern s") fastforce+
  then show ?thesis by (simp add: find_submatch_def first_match_def)
qed

lemma fieldPattern_key_nonempty:
  assumes "find_submatch fieldPattern s = Some m"
  shows "rx_group m 1 \<noteq> []"
proof -
  obtain u t where "(u, t, m) \<in> set (rx_match fieldPattern s)"
    using assms by (auto simp: find_submatch_def first_match_def split: list.splits)
  then obtain u1 t1 m1 m2 where "m = m1 @ m2"
    and "(u1, t1, m1) \<in> set (rx_match (Cap 1 (Seq (Cls is_key_start) (Star (Cls is_key_char)))) s)"
    unfolding fieldPattern_def rx_match.simps(3) [of "Cap 1 _"] in_rx_then by blast
  then show ?thesis
    by (auto simp: rx_group_def in_rx_then split: list.splits if_splits)
qed

text \<open>The pieces of a rendered line between its commas.\<close>

lemma split_on_join:
  "split_on CHR '','' (join '', '' (x # xs))
     = split_on CHR '','' x @ concat (map (\<lambda>y. split_on CHR '','' ('' '' @ y)) xs)"
proof (induction xs arbitrary: x)
  case Nil
  show ?case by simp
next
  case (Cons y ys)
  have "join '', '' (x # y # ys) = x @ CHR '','' # join '', '' (('' '' @ y) # ys)"
    by (cases ys) simp_all
  then have "split_on CHR '','' (join '', '' (x # y # ys))
      = split_on CHR '','' x @ split_on CHR '','' (join '', '' (('' '' @ y) # ys))"
    by (simp only: split_on_append)
  also have "\<dots> = split_on CHR '','' x @ concat (map (\<lambda>y. split_on CHR '','' ('' '' @ y)) (y # ys))"
    by (simp only: Cons.IH list.map concat.simps)
  finally show ?case .
qed

lemma gm_set_fresh: "k \<notin> fst ` set m \<Longrightarrow> gm_set k v m = m @ [(k, v)]"
  by (induction m) auto

lemma gm_set_last: "k \<notin> fst ` set m \<Longrightarrow> gm_set k v (m @ [(k, w)]) = m @ [(k, v)]"
  by (induction m) auto

lemma gm_str_last: "k \<notin> fst ` set m \<Longrightarrow> gm_str (m @ [(k, w)]) k = w"
  by (simp add: gm_str_def map_add_def gm_get_None [THEN iffD2])

text \<open>Pieces that are not fields extend the value of the last field, comma included.\<close>

lemma pm_continue:
  assumes "pm_fieldSectionStarted st" and "pm_lastField st = k" and "k \<noteq> []"
    and "pm_fields st = m @ [(k, w)]" and "k \<notin> fst ` set m"
    and "list_all (\<lambda>p. find_submatch fieldPattern (trim_space p) = None) vs"
  shows "fold pm_step vs st = st\<lparr>pm_fields := m @ [(k, w @ concat (map ((#) CHR '','') vs))]\<rparr>"
  using assms
proof (induction vs arbitrary: st w)
  case Nil
  then show ?case by simp
next
  case (Cons p vs)
  let ?st = "st\<lparr>pm_fields := m @ [(k, w @ '','' @ p)]\<rparr>"
  have "pm_step p st = ?st"
    using Cons.prems by (simp add: pm_step_def gm_set_last gm_str_last)
  moreover have "fold pm_step vs ?st
      = ?st\<lparr>pm_fields := m @ [(k, (w @ '','' @ p) @ concat (map ((#) CHR '','') vs))]\<rparr>"
    by (rule Cons.IH) (use Cons.prems in auto)
  ultimately show ?case by simp
qed

lemma key_char_bytes: "is_key_char c \<Longrightarrow> c \<noteq> CHR '','' \<and> c \<noteq> CHR 0x0A \<and> graphic c"
  by (auto simp: class_defs graphic_def)

lemma plain_key_chars:
  assumes "plain_key k"
  shows "k \<noteq> []" and "CHR '','' \<notin> set k" and "graphic (hd k)" and "CHR 0x0A \<notin> set k"
proof -
  obtain c k' where k: "k = c # k'" using assms by (cases k) (auto simp: plain_key_def)
  moreover have "is_key_char c" using assms k by (auto simp: plain_key_def class_defs)
  ultimately show "k \<noteq> []" "CHR '','' \<notin> set k" "graphic (hd k)" "CHR 0x0A \<notin> set k"
    using assms by (auto simp: plain_key_def list_all_iff dest!: key_char_bytes)
qed

text \<open>One rendered field adds one entry to the field map.\<close>

lemma pm_field:
  assumes "plain_key k" and "plain_value v" and "k \<notin> fst ` set (pm_fields st)"
  shows "fold pm_step (split_on CHR '','' ('' '' @ render_field (k, v))) st
    = st\<lparr>pm_fieldSectionStarted := True, pm_lastField := k,
        pm_fields := pm_fields st @ [(k, v)]\<rparr>"
proof -
  note k = plain_key_chars [OF assms(1)]
  obtain v0 vs where v: "split_on CHR '','' v = v0 # vs" by (cases "split_on CHR '','' v") auto
  with assms(2) have v0: "plain_text v0"
    and vs: "list_all (\<lambda>p. find_submatch fieldPattern (trim_space p) = None) vs"
    by (auto simp: plain_value_def)
  let ?p = "k @ '': '' @ v0"
  have pieces: "split_on CHR '','' ('' '' @ render_field (k, v)) = ('' '' @ ?p) # vs"
    using k(2) split_on_prepend [of "CHR '',''" "'' '' @ k @ '': ''" v]
    by (simp add: render_field_def v)
  have "trim_space ('' '' @ ?p) = trim_space ?p"
    using trim_space_blank [of ?p] by simp
  also have "\<dots> = ?p"
    using k v0 by (intro trim_space_graphic) (auto simp: plain_text_def)
  finally have trimmed: "trim_space ('' '' @ ?p) = ?p" .
  let ?st = "st\<lparr>pm_fieldSectionStarted := True, pm_lastField := k,
    pm_fields := pm_fields st @ [(k, v0)]\<rparr>"
  have "pm_step ('' '' @ ?p) st = ?st"
    using fieldPattern_match [OF assms(1), of v0] v0 assms(3)
    by (simp only: pm_step_def trimmed Let_def)
      (simp add: plain_text_def rx_group_def gm_set_fresh)
  moreover have "fold pm_step vs ?st
      = ?st\<lparr>pm_fields := pm_fields st @ [(k, v0 @ concat (map ((#) CHR '','') vs))]\<rparr>"
    by (rule pm_continue) (use k vs assms(3) in auto)
  moreover have "v0 @ concat (map ((#) CHR '','') vs) = v"
  proof -
    have "x @ concat (map ((#) CHR '','') ys) = join '','' (x # ys)" for x ys
      by (induction ys arbitrary: x) (auto simp: join_Cons join_prefix)
    then show ?thesis using join_split_on [of "CHR '',''" v] v by simp
  qed
  ultimately show ?thesis by (simp only: pieces fold_simps) simp
qed

lemma pm_fields_all:
  assumes "list_all (\<lambda>(k, v). plain_key k \<and> plain_value v) kvs"
    and "distinct (map fst (pm_fields st @ kvs))"
  shows "\<exists>last started. fold pm_step (concat (map (\<lambda>y. split_on CHR '','' ('' '' @ y)) (map render_field kvs))) st
    = st\<lparr>pm_fieldSectionStarted := started, pm_lastField := last, pm_fields := pm_fields st @ kvs\<rparr>"
  using assms
proof (induction kvs arbitrary: st)
  case Nil
  show ?case
    by (rule exI [of _ "pm_lastField st"], rule exI [of _ "pm_fieldSectionStarted st"]) simp
next
  case (Cons kv kvs)
  obtain k v where kv: "kv = (k, v)" by (cases kv)
  let ?st = "st\<lparr>pm_fieldSectionStarted := True, pm_lastField := k, pm_fields := pm_fields st @ [kv]\<rparr>"
  have "fold pm_step (split_on CHR '','' ('' '' @ render_field kv)) st = ?st"
    using Cons.prems unfolding kv by (intro pm_field) auto
  moreover have "\<exists>last started. fold pm_step (concat (map (\<lambda>y. split_on CHR '','' ('' '' @ y)) (map render_field kvs))) ?st
    = ?st\<lparr>pm_fieldSectionStarted := started, pm_lastField := last, pm_fields := pm_fields ?st @ kvs\<rparr>"
    by (rule Cons.IH) (use Cons.prems in auto)
  ultimately show ?case by (simp only: list.map concat.simps fold_append comp_apply) auto
qed

text \<open>Reading the text after the level word gives back message and fields.\<close>

lemma parseMessageAndFields_render:
  assumes "plain_message msg" and "list_all (\<lambda>(k, v). plain_key k \<and> plain_value v) kvs"
    and "distinct (map fst kvs)"
  shows "parseMessageAndFields (join '', '' (msg # map render_field kvs))
    = (msg, if kvs = [] then None else Some kvs)"
proof -
  have "trim_space msg = msg"
    using assms(1) by (intro trim_space_graphic) (auto simp: plain_message_def plain_text_def)
  moreover have "find_submatch fieldPattern msg = None"
    using assms(1) by (simp add: plain_message_def fieldPattern_colon)
  ultimately have "pm_step msg pm_init = pm_init\<lparr>pm_messageParts := [msg]\<rparr>"
    by (simp add: pm_step_def pm_init_def)
  moreover have "split_on CHR '','' msg = [msg]"
    using assms(1) by (simp add: plain_message_def split_on_no_sep)
  moreover obtain last started where
    "fold pm_step (concat (map (\<lambda>y. split_on CHR '','' ('' '' @ y)) (map render_field kvs)))
       (pm_init\<lparr>pm_messageParts := [msg]\<rparr>)
     = pm_init\<lparr>pm_messageParts := [msg], pm_fieldSectionStarted := started,
         pm_lastField := last, pm_fields := kvs\<rparr>"
    using pm_fields_all [of kvs "pm_init\<lparr>pm_messageParts := [msg]\<rparr>"] assms(2,3)
    by (auto simp: pm_init_def)
  ultimately have "fold pm_step (split_on CHR '','' (join '', '' (msg # map render_field kvs))) pm_init
     = pm_init\<lparr>pm_messageParts := [msg], pm_fieldSectionStarted := started,
         pm_lastField := last, pm_fields := kvs\<rparr>"
    by (simp only: split_on_join fold_append comp_apply) simp
  then show ?thesis by (simp add: parseMessageAndFields_def pm_init_def del: split_on.simps)
qed

text \<open>The line pattern on a level word followed by a blank and text.\<close>

lemma graphNodeLine_match:
  assumes "valid_level l" and "x \<noteq> []" and "graphic (hd x)" and "CHR 0x0A \<notin> set x"
  shows "find_submatch graphNodeLinePattern (level_String l @ '' '' @ x)
    = Some [(1, level_String l), (2, x)]"
proof -
  let ?L = "level_String l" and ?s = "level_String l @ '' '' @ x"
  have L: "\<exists>c d cs. ?L = c # d # cs \<and> \<not> is_lower d" "list_all is_letter ?L"
    using assms(1)
    by (rule valid_level_cases; simp add: level_String_def levelNames_def level_defs class_defs)+
  then have 0: "first_match (Opt timestampPrefix) ?s = Some ([], ?s, [])"
    by (auto simp: timestampPrefix_def Let_def first_match_Opt first_match_Seq_Cls)
  have 1: "first_match (Cap 1 (Plus (Cls is_letter))) ?s = Some (?L, '' '' @ x, [(1, ?L)])"
    using L takeWhile_all_then [of is_letter ?L "'' '' @ x"]
    by (auto simp: first_match_simps) (simp_all add: class_defs)
  have "first_match (Plus (Cls is_rx_space)) ('' '' @ x) = Some ('' '', x, [])"
    using graphic_not_space [OF assms(3)] assms(2)
    by (cases x) (auto simp: first_match_simps is_rx_space_def)
  moreover have "first_match (Cap 2 (Star (Cls is_dot))) x = Some (x, [], [(2, x)])"
    using takeWhile_dot [OF assms(4)] by (simp add: first_match_simps)
  ultimately have "first_match (Seq (Plus (Cls is_rx_space)) (Cap 2 (Star (Cls is_dot)))) ('' '' @ x)
      = Some ('' '' @ x, [], [(2, x)])"
    using first_match_Seq by fastforce
  then have 2: "first_match (Opt (Seq (Plus (Cls is_rx_space)) (Cap 2 (Star (Cls is_dot))))) ('' '' @ x)
      = Some ('' '' @ x, [], [(2, x)])"
    by (simp add: first_match_Opt)
  have 3: "first_match Eot [] = Some ([], [], [])" by (simp add: first_match_Eot)
  from first_match_Seq [OF 0 first_match_Seq [OF 1 first_match_Seq [OF 2 3]]]
  show ?thesis by (simp add: find_submatch_def graphNodeLinePattern_def)
qed

lemma render_line_text:
  assumes "plain_message msg" and "list_all (\<lambda>(k, v). plain_key k \<and> plain_value v) kvs"
  shows "join '', '' (msg # map render_field kvs) \<noteq> []"
    and "graphic (hd (join '', '' (msg # map render_field kvs)))"
    and "CHR 0x0A \<notin> set (join '', '' (msg # map render_field kvs))"
proof -
  let ?x = "join '', '' (msg # map render_field kvs)"
  have "\<exists>rest. ?x = msg @ rest" by (cases kvs) auto
  then show "?x \<noteq> []" "graphic (hd ?x)"
    using assms(1) by (auto simp: plain_message_def plain_text_def)
  have "CHR 0x0A \<notin> set (join '', '' xs)" if "list_all (\<lambda>x. CHR 0x0A \<notin> set x) xs" for xs
    using that by (induction xs rule: induct_list012) auto
  moreover have "list_all (\<lambda>x. CHR 0x0A \<notin> set x) (map render_field kvs)"
    using assms(2)
    by (induction kvs) (auto simp: render_field_def plain_value_def dest: plain_key_chars(4))
  ultimately show "CHR 0x0A \<notin> set ?x"
    using assms(1) by (simp add: plain_message_def plain_text_def del: join.simps)
qed

lemma Parse_render:
  assumes "valid_level l" and "plain_message msg"
    and "list_all (\<lambda>(k, v). plain_key k \<and> plain_value v) kvs" and "distinct (map fst kvs)"
    and "rl_Raw raw = render_line l msg kvs"
  shows "le_Level (Parse raw) = l \<and> le_Message (Parse raw) = msg
    \<and> le_Fields (Parse raw) = (if kvs = [] then None else Some kvs)"
  using graphNodeLine_match [OF assms(1) render_line_text [OF assms(2,3)]]
    parseMessageAndFields_render [OF assms(2-4)] ParseLogLevel_String [OF assms(1)] assms(5)
  by (simp add: Parse_def render_line_def rx_group_def)


section \<open>The parser interface\<close>

text \<open>
  What the pipeline relies on in a \<open>Parser\<close>: the identity of the record, its Docker
  timestamp and the raw line go through unchanged.
\<close>

locale log_parser =
  fixes parse :: "RawLog \<Rightarrow> LogEntry"
  assumes parse_ContainerID: "le_ContainerID (parse raw) = rl_ContainerID raw"
    and parse_ContainerName: "le_ContainerName (parse raw) = rl_ContainerName raw"
    and parse_Timestamp: "le_Timestamp (parse raw) = rl_Timestamp raw"
    and parse_Stream: "le_Stream (parse raw) = rl_Stream raw"
    and parse_Raw: "le_Raw (parse raw) = rl_Raw raw"
begin

lemmas parse_identity = parse_ContainerID parse_ContainerName parse_Timestamp parse_Stream parse_Raw

text \<open>A parsed stream keeps the order of its Docker timestamps.\<close>

lemma parse_sorted:
  "sorted (map rl_Timestamp raws) \<Longrightarrow> sorted (map le_Timestamp (map parse raws))"
  by (simp add: comp_def parse_Timestamp)

end

interpretation gnp: log_parser Parse
  by unfold_locales
    (auto simp: Parse_def Let_def split: option.splits sum.splits prod.splits)


section \<open>Properties\<close>

text \<open>
  \<open>Parse\<close> meets the contract of the \<open>Parser\<close> interface: container, Docker timestamp,
  stream and raw line are kept; a line that has no level word, or whose level word is not a
  level, becomes an entry of level UNKNOWN whose message is the whole line and whose field
  map is nil; any other line gets the level that its level word spells.
\<close>

theorem Parse_contract:
  "le_ContainerID (Parse raw) = rl_ContainerID raw
   \<and> le_ContainerName (Parse raw) = rl_ContainerName raw
   \<and> le_Timestamp (Parse raw) = rl_Timestamp raw
   \<and> le_Stream (Parse raw) = rl_Stream raw
   \<and> le_Raw (Parse raw) = rl_Raw raw
   \<and> (case Option.bind (level_word (rl_Raw raw)) (\<lambda>w. case ParseLogLevel w of Inl _ \<Rightarrow> None | Inr l \<Rightarrow> Some l) of
        None \<Rightarrow> le_Level (Parse raw) = LevelUnknown \<and> le_Message (Parse raw) = rl_Raw raw
          \<and> le_Fields (Parse raw) = None
      | Some l \<Rightarrow> le_Level (Parse raw) = l)"
  by (simp add: gnp.parse_identity)
    (auto simp: Parse_def level_word_def Let_def split: option.splits sum.splits prod.splits)

text \<open>
  C21. Round trip of the log format: a line written as a level other than UNKNOWN, a message and
  at least one comma-separated \<open>key: value\<close> field is read back exactly, under these conditions.
  The message starts and ends with a graphic character and contains no comma, colon or line
  break (\<open>plain_message\<close>). The keys are distinct, and each has the form that the field
  pattern of the parser admits (\<open>plain_key\<close>). A value has no line break and, up to its
  first comma, starts and ends with a graphic character; no piece of it after a comma
  reads as a field itself (\<open>plain_value\<close>).
\<close>

theorem Parse_render_roundtrip:
  assumes "valid_level l" and "l \<noteq> LevelUnknown" and "plain_message msg"
    and "list_all (\<lambda>(k, v). plain_key k \<and> plain_value v) kvs" and "distinct (map fst kvs)"
    and "kvs \<noteq> []" and "rl_Raw raw = render_line l msg kvs"
  shows "le_Level (Parse raw) = l \<and> le_Message (Parse raw) = msg
    \<and> le_Fields (Parse raw) = Some kvs"
  using Parse_render [OF assms(1,3,4,5,7)] assms(6) by simp

definition example_raw :: "string \<Rightarrow> RawLog" where
  "example_raw line = \<lparr>rl_ContainerID = ''c1'', rl_ContainerName = ''index-node-0'',
     rl_Timestamp = 1700000000, rl_Stream = ''stderr'', rl_Raw = line\<rparr>"

theorem Parse_render_roundtrip_witness:
  "le_Message (Parse (example_raw ''ERROR failed, error: timeout, retry, sgd: 15'')) = ''failed''
   \<and> le_Fields (Parse (example_raw ''ERROR failed, error: timeout, retry, sgd: 15''))
     = Some [(''error'', ''timeout, retry''), (''sgd'', ''15'')]"
  using Parse_render_roundtrip [of LevelError "''failed''"
      "[(''error'', ''timeout, retry''), (''sgd'', ''15'')]"
      "example_raw ''ERROR failed, error: timeout, retry, sgd: 15''"]
  by (simp add: example_raw_def render_line_def render_field_def valid_level_def level_defs
      level_String_def levelNames_def plain_message_def plain_text_def plain_key_def
      plain_value_def class_defs go_simps fieldPattern_colon trim_space_blank trim_space_graphic)

text \<open>
  An entry of level UNKNOWN need not carry the unchanged line: a line whose level word
  is UNKNOWN itself parses as a recognised line, so its message is the text after the word.
  This is the input class on which the fuzz test of the package, which demands the whole
  line as the message of every UNKNOWN entry, would fail.
\<close>

theorem Parse_unknown_word_strips_line:
  assumes "plain_message msg" and "rl_Raw raw = ''UNKNOWN '' @ msg"
  shows "le_Level (Parse raw) = LevelUnknown \<and> le_Message (Parse raw) = msg
    \<and> le_Message (Parse raw) \<noteq> rl_Raw raw"
proof -
  have "rl_Raw raw = render_line LevelUnknown msg []"
    using assms(2) by (simp add: render_line_def level_String_def levelNames_def level_defs)
  with Parse_render [of LevelUnknown msg "[]" raw] assms show ?thesis
    by (simp add: valid_level_def level_defs)
qed

theorem Parse_unknown_word_strips_line_witness:
  "le_Message (Parse (example_raw ''UNKNOWN hello'')) = ''hello''"
  using Parse_unknown_word_strips_line [of "''hello''" "example_raw ''UNKNOWN hello''"]
  by (simp add: example_raw_def plain_message_def plain_text_def go_simps)

end
