(* ===== verification/Config_Load.thy ===== *)
theory Config_Load
  imports Config Graph_Node_Parser
begin

text \<open>
  Loading the configuration (\<open>internal/config/load.go\<close>): the expansion of environment
  placeholders and the steps of \<open>Load\<close>. The pattern of a placeholder is a literal of the
  source and is matched by the engine of the fixed patterns. Reading the file, the process
  environment and the YAML decoder are arguments: the decoder gives the configuration decoded
  over the defaults and what it finds after the first document.
\<close>

section \<open>Environment placeholders\<close>

definition is_name_start :: "char \<Rightarrow> bool" where
  "is_name_start c \<longleftrightarrow> is_letter c \<or> c = CHR ''_''"

definition is_name_char :: "char \<Rightarrow> bool" where
  "is_name_char c \<longleftrightarrow> is_letter c \<or> is_digit c \<or> c = CHR ''_''"

definition environmentVariablePattern :: rx where
  "environmentVariablePattern =
     Seq (Chr CHR ''$'') (Seq (Chr CHR ''{'')
       (Seq (Cap 1 (Seq (Cls is_name_start) (Star (Cls is_name_char)))) (Chr CHR ''}'')))"

datatype load_error =
    ReadFailed string | EnvNotSet string | InvalidPlaceholder | DecodeFailed string
  | MultipleDocuments | InvalidConfig "cfg_error list"

text \<open>The loop over the matches: the text since the previous match, then the value.\<close>

fun expand_matches ::
  "(string \<Rightarrow> string option) \<Rightarrow> (string \<times> string \<times> (nat \<times> string) list) list \<Rightarrow> load_error + string" where
  "expand_matches lookup [] = Inr []"
| "expand_matches lookup ((before, matched, groups) # ms) =
     (let name = rx_group groups 1
      in case lookup name of
           None \<Rightarrow> Inl (EnvNotSet name)
         | Some value \<Rightarrow>
             (case expand_matches lookup ms of
                Inl e \<Rightarrow> Inl e
              | Inr output \<Rightarrow> Inr (before @ value @ output)))"

definition expandEnvironment :: "string \<Rightarrow> (string \<Rightarrow> string option) \<Rightarrow> load_error + string" where
  "expandEnvironment input lookup =
     (let (matches, rest) = find_all environmentVariablePattern input
      in case expand_matches lookup matches of
           Inl e \<Rightarrow> Inl e
         | Inr output \<Rightarrow>
             let expanded = output @ rest
             in if contains_str expanded ''${'' then Inl InvalidPlaceholder else Inr expanded)"


section \<open>Load\<close>

datatype yaml_rest = RestEOF | RestDocument | RestError string

definition config_Load ::
  "'re regex_lib \<Rightarrow> (string \<Rightarrow> Config \<Rightarrow> (string + Config) \<times> yaml_rest) \<Rightarrow> (string \<Rightarrow> string option)
     \<Rightarrow> string + string \<Rightarrow> load_error + Config" where
  "config_Load R yaml lookup file =
     (case file of
        Inl e \<Rightarrow> Inl (ReadFailed e)
      | Inr content \<Rightarrow>
          (case expandEnvironment content lookup of
             Inl e \<Rightarrow> Inl e
           | Inr expanded \<Rightarrow>
               (case yaml expanded DefaultConfig of
                  (Inl e, _) \<Rightarrow> Inl (DecodeFailed e)
                | (Inr cfg, extra) \<Rightarrow>
                    (case extra of
                       RestDocument \<Rightarrow> Inl MultipleDocuments
                     | RestError e \<Rightarrow> Inl (DecodeFailed e)
                     | RestEOF \<Rightarrow>
                         let cfg = applyRuleDefaults cfg
                         in case Validate R cfg of [] \<Rightarrow> Inr cfg | errs \<Rightarrow> Inl (InvalidConfig errs)))))"


section \<open>Expansion of a template\<close>

text \<open>
  A template: literal texts without an opening placeholder, each followed by a variable, and
  a last literal text.
\<close>

definition env_name :: "string \<Rightarrow> bool" where
  "env_name n \<longleftrightarrow> n \<noteq> [] \<and> is_name_start (hd n) \<and> list_all is_name_char (tl n)"

definition template :: "(string \<times> string) list \<Rightarrow> string \<Rightarrow> string" where
  "template segs tail = concat (map (\<lambda>(l, n). l @ ''${'' @ n @ ''}'') segs) @ tail"

lemma closing_not_name: "\<not> is_name_char (CHR ''}'')"
  by code_simp

lemma env_match:
  assumes "env_name n"
  shows "first_match environmentVariablePattern (''${'' @ n @ ''}'' @ s) = Some (''${'' @ n @ ''}'', s, [(1, n)])"
proof -
  obtain c cs where n: "n = c # cs" "is_name_start c" "list_all is_name_char cs"
    using assms by (cases n) (auto simp: env_name_def)
  have "takeWhile is_name_char (cs @ CHR ''}'' # s) = cs" "dropWhile is_name_char (cs @ CHR ''}'' # s) = CHR ''}'' # s"
    using n(3) closing_not_name by (auto simp: list_all_iff takeWhile_append2 dropWhile_append2)
  then have "first_match (Seq (Cls is_name_start) (Star (Cls is_name_char))) (n @ CHR ''}'' # s)
      = Some (n, CHR ''}'' # s, [])"
    using n by (simp add: first_match_simps)
  then have "first_match (Cap 1 (Seq (Cls is_name_start) (Star (Cls is_name_char)))) (n @ CHR ''}'' # s)
      = Some (n, CHR ''}'' # s, [(1, n)])"
    by (simp add: first_match_Cap)
  from first_match_Seq [OF this, of "Chr CHR ''}''" "''}''" s "[]"] show ?thesis
    by (simp add: environmentVariablePattern_def first_match_Seq_Cls first_match_Cls)
qed

lemma env_no_match:
  "\<not> has_prefix ''${'' s \<Longrightarrow> first_match environmentVariablePattern s = None"
  by (cases s; cases "tl s")
     (auto simp: environmentVariablePattern_def first_match_Seq_Cls has_prefix_def)

lemma not_contains_Cons:
  assumes "\<not> contains_str (c # l) ''${''" and "s = [] \<or> hd s \<noteq> CHR ''{''"
  shows "\<not> has_prefix ''${'' (c # l @ s)" and "\<not> contains_str l ''${''"
proof -
  show "\<not> contains_str l ''${''"
    using assms(1) by (auto simp: contains_str_iff sublist_Cons_right)
  have "\<not> has_prefix ''${'' (c # l)"
    using assms(1) by (auto simp: contains_str_def split: if_splits)
  then show "\<not> has_prefix ''${'' (c # l @ s)"
    using assms(2) by (cases l; cases s) (auto simp: has_prefix_simps)
qed

lemma find_next_literal:
  assumes "env_name n"
  shows "\<not> contains_str l ''${'' \<Longrightarrow> find_next environmentVariablePattern (l @ ''${'' @ n @ ''}'' @ s)
    = Some (l, ''${'' @ n @ ''}'', s, [(1, n)])"
proof (induction l)
  case Nil
  then show ?case using env_match [OF assms, of s] by simp
next
  case (Cons c l)
  note facts = not_contains_Cons [OF Cons.prems, of "''${'' @ n @ ''}'' @ s"]
  have "first_match environmentVariablePattern (c # l @ ''${'' @ n @ ''}'' @ s) = None"
    by (rule env_no_match) (use facts(1) in simp)
  then show ?case using Cons.IH facts(2) by simp
qed

lemma find_next_none: "\<not> contains_str s ''${'' \<Longrightarrow> find_next environmentVariablePattern s = None"
proof (induction s)
  case Nil
  then show ?case using env_no_match [of "[]"] by (simp add: has_prefix_def)
next
  case (Cons c s)
  note facts = not_contains_Cons [OF Cons.prems, of "[]"]
  then show ?case using Cons.IH env_no_match [of "c # s"] by simp
qed

lemma find_all_template:
  assumes "list_all (\<lambda>(l, n). \<not> contains_str l ''${'' \<and> env_name n) segs" and "\<not> contains_str tail ''${''"
  shows "find_all environmentVariablePattern (template segs tail)
    = (map (\<lambda>(l, n). (l, ''${'' @ n @ ''}'', [(1, n)])) segs, tail)"
  using assms(1)
proof (induction segs)
  case Nil
  then show ?case
    using find_next_none [OF assms(2)] by (subst find_all.simps) (simp add: template_def)
next
  case (Cons seg segs)
  obtain l n where seg: "seg = (l, n)" by (cases seg)
  have split: "template (seg # segs) tail = l @ ''${'' @ n @ ''}'' @ template segs tail"
    by (simp add: template_def seg)
  have next_match: "find_next environmentVariablePattern (template (seg # segs) tail)
      = Some (l, ''${'' @ n @ ''}'', template segs tail, [(1, n)])"
    unfolding split by (rule find_next_literal) (use Cons.prems in \<open>auto simp: seg\<close>)
  have "find_all environmentVariablePattern (template segs tail)
      = (map (\<lambda>(l, n). (l, ''${'' @ n @ ''}'', [(1, n)])) segs, tail)"
    by (rule Cons.IH) (use Cons.prems in simp)
  then show ?case
    by (subst find_all.simps, unfold next_match) (simp add: seg)
qed

lemma expand_matches_template:
  "expand_matches lookup (map (\<lambda>(l, n). (l, f n, [(1, n)])) segs) =
     (case find (\<lambda>(l, n). lookup n = None) segs of
        Some (l, n) \<Rightarrow> Inl (EnvNotSet n)
      | None \<Rightarrow> Inr (concat (map (\<lambda>(l, n). l @ the (lookup n)) segs)))"
  by (induction segs) (auto simp: rx_group_def split: option.splits)


section \<open>Properties\<close>

text \<open>
  C26. Expansion substitutes exactly the placeholders. A template with valid variable names
  and literal texts that open no placeholder expands to the literals with the values of the
  variables in place, in order; the first variable that is not set is reported; values are not
  expanded again: a result that still opens a placeholder is refused.\<close>

theorem expandEnvironment_template:
  assumes "list_all (\<lambda>(l, n). \<not> contains_str l ''${'' \<and> env_name n) segs"
    and "\<not> contains_str tail ''${''"
  shows "expandEnvironment (template segs tail) lookup =
    (case find (\<lambda>(l, n). lookup n = None) segs of
       Some (l, n) \<Rightarrow> Inl (EnvNotSet n)
     | None \<Rightarrow>
         let out = concat (map (\<lambda>(l, n). l @ the (lookup n)) segs) @ tail
         in if contains_str out ''${'' then Inl InvalidPlaceholder else Inr out)"
  unfolding expandEnvironment_def find_all_template [OF assms] Let_def prod.case
    expand_matches_template [where f = "\<lambda>n. ''${'' @ n @ ''}''"]
  by (simp split: option.splits prod.splits)

theorem expandEnvironment_template_witness:
  "expandEnvironment (template [(''a: '', ''HOOK''), ('', b: $1 '', ''KEY_2'')] '' end'')
     (\<lambda>n. if n = ''HOOK'' then Some ''h'' else if n = ''KEY_2'' then Some ''k'' else None)
    = Inr ''a: h, b: $1 k end''"
proof -
  have segs: "list_all (\<lambda>(l, n). \<not> contains_str l ''${'' \<and> env_name n) [(''a: '', ''HOOK''), ('', b: $1 '', ''KEY_2'')]"
    "\<not> contains_str '' end'' ''${''"
    by code_simp+
  have "\<not> contains_str ''a: h, b: $1 k end'' ''${''" by code_simp
  then show ?thesis
    by (simp add: expandEnvironment_template [OF segs])
qed

end
