(* ===== verification/Redact.thy ===== *)
theory Redact
  imports Log_Entry Fixed_Regex
begin

text \<open>
  Package \<open>redact\<close>: compiling the ordered replacement rules (\<open>New\<close>) and applying them to
  every text of an entry (\<open>Redact\<close>, \<open>RedactString\<close>, \<open>redactField\<close>). The pattern library is
  the parameter \<open>R\<close>. The pipeline relies on two laws, stated as the locale \<open>sanitizer\<close>:
  what identifies the record is kept, and no text of the result leaks what the replacement
  rules remove from every string.
\<close>

section \<open>Definitions\<close>

record redact_Rule =
  rr_Pattern :: string
  rr_Replace :: string

record 're compiledRule =
  cr_pattern :: 're
  cr_replace :: string

record 're Redactor =
  rd_rules :: "'re compiledRule list"

datatype redact_error = RedactEmptyPattern nat | RedactBadPattern nat string

fun redact_compile ::
  "'re regex_lib \<Rightarrow> nat \<Rightarrow> redact_Rule list \<Rightarrow> redact_error + 're compiledRule list" where
  "redact_compile R index [] = Inr []"
| "redact_compile R index (rule # rules) =
     (if rr_Pattern rule = [] then Inl (RedactEmptyPattern index)
      else case re_compile R (rr_Pattern rule) of
        Inl e \<Rightarrow> Inl (RedactBadPattern index e)
      | Inr pattern \<Rightarrow>
          (case redact_compile R (Suc index) rules of
             Inl e \<Rightarrow> Inl e
           | Inr compiled \<Rightarrow>
               Inr (\<lparr>cr_pattern = pattern, cr_replace = rr_Replace rule\<rparr> # compiled)))"

definition redact_New :: "'re regex_lib \<Rightarrow> redact_Rule list \<Rightarrow> redact_error + 're Redactor" where
  "redact_New R rules =
     (case redact_compile R 0 rules of
        Inl e \<Rightarrow> Inl e
      | Inr compiled \<Rightarrow> Inr \<lparr>rd_rules = compiled\<rparr>)"

text \<open>The receiver is a pointer that may be nil (\<open>None\<close>): then nothing is replaced.\<close>

definition RedactString :: "'re regex_lib \<Rightarrow> 're Redactor option \<Rightarrow> string \<Rightarrow> string" where
  "RedactString R r value =
     (case r of
        None \<Rightarrow> value
      | Some rd \<Rightarrow>
          fold (\<lambda>rule value. re_replace_all R (cr_pattern rule) value (cr_replace rule))
            (rd_rules rd) value)"

definition redactField :: "'re regex_lib \<Rightarrow> 're Redactor option \<Rightarrow> string \<Rightarrow> string \<Rightarrow> string" where
  "redactField R r key value =
     (let redacted = RedactString R r value;
          combined = key @ '': '' @ value;
          redactedCombined = RedactString R r combined in
      if redactedCombined = combined then redacted
      else case cut '': '' redactedCombined of
        Some (_, fieldValue) \<Rightarrow> fieldValue
      | None \<Rightarrow> redactedCombined)"

definition redact_Redact :: "'re regex_lib \<Rightarrow> 're Redactor option \<Rightarrow> LogEntry \<Rightarrow> LogEntry" where
  "redact_Redact R r entry =
     (let sanitized = entry\<lparr>le_Raw := RedactString R r (le_Raw entry),
            le_Message := RedactString R r (le_Message entry)\<rparr> in
      case le_Fields entry of
        None \<Rightarrow> sanitized
      | Some fs \<Rightarrow>
          sanitized\<lparr>le_Fields := Some (map (\<lambda>(key, value). (key, redactField R r key value)) fs)\<rparr>)"


section \<open>Lemmas\<close>

lemma redact_compile_length:
  "redact_compile R i rules = Inr cs \<Longrightarrow> length cs = length rules"
  by (induction rules arbitrary: i cs) (auto split: if_splits sum.splits)

text \<open>Compilation succeeds exactly when every pattern is non-empty and compiles.\<close>

lemma redact_compile_ok:
  "(\<exists>cs. redact_compile R i rules = Inr cs) \<longleftrightarrow>
   list_all (\<lambda>r. rr_Pattern r \<noteq> [] \<and> \<not> isl (re_compile R (rr_Pattern r))) rules"
proof (induction rules arbitrary: i)
  case Nil
  show ?case by simp
next
  case (Cons r rules)
  show ?case
    using Cons [of "Suc i"]
    by (cases "re_compile R (rr_Pattern r)"; cases "redact_compile R (Suc i) rules") auto
qed

lemma redact_New_ok:
  "(\<exists>rd. redact_New R rules = Inr rd) \<longleftrightarrow>
   list_all (\<lambda>r. rr_Pattern r \<noteq> [] \<and> \<not> isl (re_compile R (rr_Pattern r))) rules"
  using redact_compile_ok [of R 0 rules] by (auto simp: redact_New_def split: sum.splits)

lemma RedactString_append:
  "RedactString R (Some \<lparr>rd_rules = rs1 @ rs2\<rparr>) v
     = RedactString R (Some \<lparr>rd_rules = rs2\<rparr>) (RedactString R (Some \<lparr>rd_rules = rs1\<rparr>) v)"
  by (simp add: RedactString_def)

text \<open>A field value of the result is a redacted string or a part of one.\<close>

lemma redactField_part: "\<exists>s. sublist (redactField R r k v) (RedactString R r s)"
proof -
  let ?c = "RedactString R r (k @ '': '' @ v)"
  show ?thesis
  proof (cases "?c = k @ '': '' @ v")
    case True
    then have "redactField R r k v = RedactString R r v" by (simp add: redactField_def Let_def)
    then show ?thesis by auto
  next
    case False
    then have "sublist (redactField R r k v) ?c"
      by (auto simp: redactField_def Let_def split: option.splits dest: cut_sublist)
    then show ?thesis by blast
  qed
qed

lemma redact_identity:
  "le_ContainerID (redact_Redact R r e) = le_ContainerID e"
  "le_ContainerName (redact_Redact R r e) = le_ContainerName e"
  "le_Timestamp (redact_Redact R r e) = le_Timestamp e"
  "le_Stream (redact_Redact R r e) = le_Stream e"
  "le_Level (redact_Redact R r e) = le_Level e"
  by (simp_all add: redact_Redact_def Let_def split: option.splits)

lemma redact_texts:
  "le_Raw (redact_Redact R r e) = RedactString R r (le_Raw e)"
  "le_Message (redact_Redact R r e) = RedactString R r (le_Message e)"
  "le_Fields (redact_Redact R r e)
     = map_option (map (\<lambda>(k, v). (k, redactField R r k v))) (le_Fields e)"
  by (simp_all add: redact_Redact_def Let_def split: option.splits)


lemma redact_keys:
  "map_option (map fst) (le_Fields (redact_Redact R r e)) = map_option (map fst) (le_Fields e)"
  by (cases "le_Fields e") (auto simp: redact_texts)


section \<open>The sanitizer interface\<close>

text \<open>
  The texts of an entry that \<open>Redact\<close> rewrites: raw line, message and field values. The keys of the
  fields are not among them: \<open>Redact\<close> copies them.
\<close>

definition entry_texts :: "LogEntry \<Rightarrow> string set" where
  "entry_texts e =
     {le_Raw e, le_Message e} \<union> (case le_Fields e of None \<Rightarrow> {} | Some m \<Rightarrow> snd ` set m)"

lemma field_of_text:
  assumes "field_of e k \<noteq> []"
  shows "field_of e k \<in> entry_texts e"
proof -
  obtain m v where "le_Fields e = Some m" "gm_get m k = Some v" "field_of e k = v"
    using assms by (auto simp: field_of_def gm_str_def split: option.splits)
  then show ?thesis
    by (auto simp: entry_texts_def image_iff intro!: bexI [of _ "(k, v)"] dest: map_of_SomeD)
qed

locale sanitizer =
  fixes clean :: "string \<Rightarrow> string" and sanitize :: "LogEntry \<Rightarrow> LogEntry"
  assumes sanitize_ContainerID: "le_ContainerID (sanitize e) = le_ContainerID e"
    and sanitize_ContainerName: "le_ContainerName (sanitize e) = le_ContainerName e"
    and sanitize_Timestamp: "le_Timestamp (sanitize e) = le_Timestamp e"
    and sanitize_Level: "le_Level (sanitize e) = le_Level e"
    and sanitize_part: "t \<in> entry_texts (sanitize e) \<Longrightarrow> \<exists>s. sublist t (clean s)"
begin

lemmas sanitize_identity = sanitize_ContainerID sanitize_ContainerName sanitize_Timestamp sanitize_Level

text \<open>A secret that no cleaned string contains is in no text of a sanitized entry.\<close>

lemma sanitize_no_leak:
  assumes "\<And>s. \<not> sublist secret (clean s)" and "t \<in> entry_texts (sanitize e)"
  shows "\<not> sublist secret t"
  using sanitize_part [OF assms(2)] assms(1) by (meson sublist_order.order.trans)

end

interpretation red: sanitizer "RedactString R r" "redact_Redact R r" for R r
proof
  fix e t assume "t \<in> entry_texts (redact_Redact R r e)"
  then show "\<exists>s. sublist t (RedactString R r s)"
    by (auto simp: entry_texts_def redact_texts redactField_part split: option.splits)
qed (simp_all add: redact_identity)


section \<open>Properties\<close>

text \<open>
  Every surface of an entry is sanitized: a secret that the configured replacements
  remove from every string occurs in no text of the redacted entry, neither in the raw line
  nor in the message nor in a field value, also where a field value is taken from the
  redacted \<open>key: value\<close> pair. Container, timestamp, level and field keys are kept.
\<close>

theorem Redact_no_leak:
  assumes "\<And>s. \<not> contains_str (RedactString R r s) secret"
  shows "\<not> contains_str (le_Raw (redact_Redact R r e)) secret
    \<and> \<not> contains_str (le_Message (redact_Redact R r e)) secret
    \<and> \<not> contains_str (field_of (redact_Redact R r e) key) secret
    \<and> map_option (map fst) (le_Fields (redact_Redact R r e)) = map_option (map fst) (le_Fields e)
    \<and> le_ContainerName (redact_Redact R r e) = le_ContainerName e
    \<and> le_Level (redact_Redact R r e) = le_Level e"
proof -
  have clean: "\<not> sublist secret (RedactString R r s)" for s
    using assms by (simp add: contains_str_iff)
  then have "secret \<noteq> []" by auto
  have "\<not> sublist secret (field_of (redact_Redact R r e) key)"
  proof (cases "field_of (redact_Redact R r e) key = []")
    case True
    then show ?thesis using \<open>secret \<noteq> []\<close> by simp
  next
    case False
    then have "field_of (redact_Redact R r e) key \<in> entry_texts (redact_Redact R r e)"
      by (rule field_of_text)
    with red.sanitize_no_leak [OF clean] show ?thesis by blast
  qed
  moreover have "\<not> sublist secret t" if "t \<in> entry_texts (redact_Redact R r e)" for t
    using red.sanitize_no_leak [OF clean that] .
  ultimately show ?thesis
    by (simp add: contains_str_iff entry_texts_def redact_identity redact_keys)
qed

definition example_entry :: LogEntry where
  "example_entry = \<lparr>le_ContainerID = ''c1'', le_ContainerName = ''index-node-0'',
     le_Timestamp = 1700000000, le_Stream = ''stderr'', le_Level = LevelError,
     le_Message = ''call with tok-x9 failed'', le_Fields = Some [(''auth'', ''tok-x9'')],
     le_Raw = ''ERROR call with tok-x9 failed, auth: tok-x9''\<rparr>"

lemma literal_replace_gone: "c \<notin> set r \<Longrightarrow> c \<notin> set (literal_replace [c] r s)"
proof (induction s)
  case Nil
  show ?case by (subst literal_replace.simps) simp
next
  case (Cons a s)
  then show ?case
    by (subst literal_replace.simps) (auto simp: has_prefix_Cons)
qed

theorem Redact_no_leak_witness:
  "\<not> contains_str (field_of (redact_Redact literal_lib
       (Some \<lparr>rd_rules = [\<lparr>cr_pattern = (False, ''x''), cr_replace = ''*''\<rparr>]\<rparr>) example_entry) ''auth'') ''tok-x9''"
proof -
  have "\<not> contains_str (RedactString literal_lib
      (Some \<lparr>rd_rules = [\<lparr>cr_pattern = (False, ''x''), cr_replace = ''*''\<rparr>]\<rparr>) s) ''tok-x9''" for s
    using literal_replace_gone [of "CHR ''x''" "''*''" s]
    by (auto simp: contains_str_iff RedactString_def literal_lib_def dest: set_mono_sublist)
  from Redact_no_leak [OF this, of example_entry "''auth''"] show ?thesis by blast
qed

text \<open>
  A field value can keep a secret that the rules remove from the value itself. When any
  rule changes the \<open>key: value\<close> pair, the value is taken from the redacted pair, where a
  pattern anchored at the start of the text no longer meets the value. With the rules
  \<open>^tok9\<close> and \<open>user\<close>, the value \<open>tok9 user\<close> is cleaned on its own, yet the entry keeps
  \<open>tok9\<close> in its field.
\<close>

theorem redactField_keeps_anchored_secret:
  "\<exists>rules rd. redact_New literal_lib rules = Inr rd
     \<and> \<not> contains_str (RedactString literal_lib (Some rd) ''tok9 user'') ''tok9''
     \<and> contains_str (field_of (redact_Redact literal_lib (Some rd)
          (example_entry\<lparr>le_Fields := Some [(''auth'', ''tok9 user'')]\<rparr>)) ''auth'') ''tok9''"
proof -
  let ?rules = "[\<lparr>rr_Pattern = ''^tok9'', rr_Replace = ''*''\<rparr>, \<lparr>rr_Pattern = ''user'', rr_Replace = ''*''\<rparr>]"
  let ?rd = "\<lparr>rd_rules = [\<lparr>cr_pattern = (True, ''tok9''), cr_replace = ''*''\<rparr>,
    \<lparr>cr_pattern = (False, ''user''), cr_replace = ''*''\<rparr>]\<rparr>"
  have "redact_New literal_lib ?rules = Inr ?rd" by code_simp
  moreover have "\<not> contains_str (RedactString literal_lib (Some ?rd) ''tok9 user'') ''tok9''"
    by code_simp
  moreover have "contains_str (field_of (redact_Redact literal_lib (Some ?rd)
      (example_entry\<lparr>le_Fields := Some [(''auth'', ''tok9 user'')]\<rparr>)) ''auth'') ''tok9''"
    by code_simp
  ultimately show ?thesis by blast
qed

text \<open>
  \<open>New\<close> accepts a list of rules exactly when each pattern is non-empty and compiles, and
  applying a list of rules is applying its parts one after the other, in the order of the
  configuration.
\<close>

theorem redact_New_and_order:
  "((\<exists>rd. redact_New R rules = Inr rd) \<longleftrightarrow>
     list_all (\<lambda>r. rr_Pattern r \<noteq> [] \<and> \<not> isl (re_compile R (rr_Pattern r))) rules)
   \<and> RedactString R (Some \<lparr>rd_rules = rs1 @ rs2\<rparr>) v
       = RedactString R (Some \<lparr>rd_rules = rs2\<rparr>) (RedactString R (Some \<lparr>rd_rules = rs1\<rparr>) v)
   \<and> RedactString R None v = v"
  by (simp add: redact_New_ok RedactString_append) (simp add: RedactString_def)

end
