(* ===== verification/Level_Router.thy ===== *)
theory Level_Router
  imports Log_Entry
begin

text \<open>
  Package \<open>router\<close>: the level gate in front of the rule engine, built from levels
  (\<open>New\<close>), from the level names of the configuration (\<open>NewFromNames\<close>) or as the default.
\<close>

section \<open>Definitions\<close>

datatype Route = RouteDiscard | RouteContextOnly | RouteAlertCandidate

record Router =
  rt_contextLevels :: "(LogLevel, unit) gomap"
  rt_alertCandidates :: "(LogLevel, unit) gomap"

datatype router_error = RouterContextLevels level_error | RouterCandidateLevels level_error

definition toSet :: "LogLevel list \<Rightarrow> (LogLevel, unit) gomap" where
  "toSet levels = gm_set_of levels"

definition router_New :: "LogLevel list \<Rightarrow> LogLevel list \<Rightarrow> Router" where
  "router_New contextLevels alertCandidates =
     \<lparr>rt_contextLevels = toSet contextLevels, rt_alertCandidates = toSet alertCandidates\<rparr>"

fun parseLevels :: "string list \<Rightarrow> level_error + LogLevel list" where
  "parseLevels [] = Inr []"
| "parseLevels (value # values) =
     (case ParseLogLevel value of
        Inl e \<Rightarrow> Inl e
      | Inr level \<Rightarrow>
          (case parseLevels values of Inl e \<Rightarrow> Inl e | Inr levels \<Rightarrow> Inr (level # levels)))"

definition NewFromNames :: "string list \<Rightarrow> string list \<Rightarrow> router_error + Router" where
  "NewFromNames contextLevels alertCandidates =
     (case parseLevels contextLevels of
        Inl e \<Rightarrow> Inl (RouterContextLevels e)
      | Inr ctx \<Rightarrow>
          (case parseLevels alertCandidates of
             Inl e \<Rightarrow> Inl (RouterCandidateLevels e)
           | Inr candidates \<Rightarrow> Inr (router_New ctx candidates)))"

definition router_Default :: Router where
  "router_Default =
     router_New [LevelInfo, LevelWarn, LevelError, LevelCritical] [LevelWarn, LevelError, LevelCritical]"

definition router_Route :: "Router \<Rightarrow> LogEntry \<Rightarrow> Route" where
  "router_Route r entry =
     (if gm_get (rt_alertCandidates r) (le_Level entry) \<noteq> None then RouteAlertCandidate
      else if gm_get (rt_contextLevels r) (le_Level entry) \<noteq> None then RouteContextOnly
      else RouteDiscard)"

definition KeepsContext :: "Route \<Rightarrow> bool" where
  "KeepsContext r \<longleftrightarrow> r = RouteContextOnly \<or> r = RouteAlertCandidate"

definition EntersRuleEngine :: "Route \<Rightarrow> bool" where
  "EntersRuleEngine r \<longleftrightarrow> r = RouteAlertCandidate"


section \<open>Lemmas\<close>

lemma parseLevels_ok:
  "(\<exists>ls. parseLevels vs = Inr ls) \<longleftrightarrow> list_all (\<lambda>v. \<not> isl (ParseLogLevel v)) vs"
proof (induction vs)
  case Nil
  show ?case by simp
next
  case (Cons v vs)
  then show ?case by (cases "ParseLogLevel v"; cases "parseLevels vs") auto
qed

lemma parseLevels_set:
  "parseLevels vs = Inr ls \<Longrightarrow> set ls = {l. \<exists>v \<in> set vs. ParseLogLevel v = Inr l}"
  by (induction vs arbitrary: ls) (auto split: sum.splits)

lemma router_New_lookup:
  "gm_get (rt_contextLevels (router_New c a)) l = (if l \<in> set c then Some () else None)"
  "gm_get (rt_alertCandidates (router_New c a)) l = (if l \<in> set a then Some () else None)"
  by (simp_all add: router_New_def toSet_def gm_get_set_of)

lemma KeepsContext_if_EntersRuleEngine: "EntersRuleEngine r \<Longrightarrow> KeepsContext r"
  by (simp add: EntersRuleEngine_def KeepsContext_def)


section \<open>Properties\<close>

text \<open>
  A router built from level names sends an entry to the rule engine exactly when its
  level is spelled by one of the candidate names, and keeps it as context exactly when its
  level is spelled by one of the names of either list; so a candidate is kept as context
  even when the context list omits its level.
\<close>

theorem NewFromNames_routes:
  assumes "NewFromNames ctx cand = Inr r"
  shows "EntersRuleEngine (router_Route r e) = (\<exists>v \<in> set cand. ParseLogLevel v = Inr (le_Level e))
    \<and> KeepsContext (router_Route r e) = (\<exists>v \<in> set ctx \<union> set cand. ParseLogLevel v = Inr (le_Level e))"
proof -
  obtain c a where p: "parseLevels ctx = Inr c" "parseLevels cand = Inr a" and r: "r = router_New c a"
    using assms by (auto simp: NewFromNames_def split: sum.splits)
  then show ?thesis
    using parseLevels_set [OF p(1)] parseLevels_set [OF p(2)]
    by (auto simp: EntersRuleEngine_def KeepsContext_def router_Route_def router_New_lookup)
qed

theorem NewFromNames_routes_witness:
  "\<exists>r. NewFromNames [''DEBUG'', ''UNKNOWN''] [''UNKNOWN''] = Inr r
     \<and> (\<forall>e. EntersRuleEngine (router_Route r e) = (le_Level e = LevelUnknown))"
proof -
  let ?r = "router_New [LevelDebug, LevelUnknown] [LevelUnknown]"
  have n: "NewFromNames [''DEBUG'', ''UNKNOWN''] [''UNKNOWN''] = Inr ?r"
    by code_simp
  have "ParseLogLevel ''UNKNOWN'' = Inr LevelUnknown" by code_simp
  then have "EntersRuleEngine (router_Route ?r e) = (le_Level e = LevelUnknown)" for e
    using NewFromNames_routes [OF n, of e] by auto
  with n show ?thesis by blast
qed

end
