(* ===== verification/Rule_Engine.thy ===== *)
theory Rule_Engine
  imports Config
begin

text \<open>
  Package \<open>rule\<close> without the fingerprint: compiling a configured rule (\<open>rule.go\<close>), the
  normalizer (\<open>normalize.go\<close>) and matching (\<open>matcher.go\<close>). A \<open>map[string]struct{}\<close> that is nil
  or empty is the empty association list: the code only takes its length and looks keys up.
\<close>

section \<open>Definitions\<close>

type_synonym DedupMode = string

definition DedupExact :: DedupMode where "DedupExact = ''exact''"
definition DedupNormalized :: DedupMode where "DedupNormalized = ''normalized''"
definition DedupFields :: DedupMode where "DedupFields = ''fields''"
definition DedupRule :: DedupMode where "DedupRule = ''rule''"

lemmas dedup_defs = DedupExact_def DedupNormalized_def DedupFields_def DedupRule_def

record 're replacement =
  rp_pattern :: 're
  rp_replace :: string

record 're Normalizer =
  nz_replacements :: "'re replacement list"

record 're Dedup =
  dd_Mode :: DedupMode
  dd_Fields :: "string list"
  dd_Normalizer :: "'re Normalizer"

record rule_Context =
  rk_Before :: int
  rk_After :: int
  rk_AfterWait :: duration
  rk_MaxBytes :: int

record 're Rule =
  r_ID :: string
  r_Enabled :: bool
  r_Severity :: string
  r_Threshold :: int
  r_Window :: duration
  r_Cooldown :: duration
  r_StopOnMatch :: bool
  r_Dedup :: "'re Dedup"
  r_Context :: rule_Context
  r_containers :: "(string, unit) gomap"
  r_levels :: "(LogLevel, unit) gomap"
  r_components :: "(string, unit) gomap"
  r_fieldEquals :: "(string, string) gomap"
  r_pattern :: "'re option"
  r_excludes :: "'re list"

datatype norm_error = NormEmptyPattern nat | NormBadPattern nat string

datatype rule_error =
    RuleEmptyID
  | RuleBadLevel string level_error
  | RuleNoLevel string
  | RuleBadPattern string string
  | RuleBadExclude string nat string
  | RuleBadDedup string string
  | RuleNoDedupFields string
  | RuleBadNormalization string norm_error

fun compileLevels :: "string list \<Rightarrow> level_error + LogLevel list" where
  "compileLevels [] = Inr []"
| "compileLevels (value # values) =
     (case ParseLogLevel value of
        Inl e \<Rightarrow> Inl e
      | Inr level \<Rightarrow>
          (case compileLevels values of Inl e \<Rightarrow> Inl e | Inr levels \<Rightarrow> Inr (level # levels)))"

definition compileOptionalPattern :: "'re regex_lib \<Rightarrow> string \<Rightarrow> string + 're option" where
  "compileOptionalPattern R value =
     (if value = [] then Inr None
      else case re_compile R value of Inl e \<Rightarrow> Inl e | Inr p \<Rightarrow> Inr (Some p))"

fun compileExcludes :: "'re regex_lib \<Rightarrow> nat \<Rightarrow> string list \<Rightarrow> (nat \<times> string) + 're list" where
  "compileExcludes R index [] = Inr []"
| "compileExcludes R index (value # values) =
     (case compileOptionalPattern R value of
        Inl e \<Rightarrow> Inl (index, e)
      | Inr exclude \<Rightarrow>
          (case compileExcludes R (Suc index) values of
             Inl e \<Rightarrow> Inl e
           | Inr excludes \<Rightarrow>
               Inr (case exclude of None \<Rightarrow> excludes | Some x \<Rightarrow> x # excludes)))"

definition parseDedupMode :: "string \<Rightarrow> string + DedupMode" where
  "parseDedupMode value =
     (let m = to_lower (trim_space value) in
      if m = DedupExact then Inr DedupExact
      else if m = DedupNormalized then Inr DedupNormalized
      else if m = DedupFields then Inr DedupFields
      else if m = DedupRule then Inr DedupRule
      else Inl value)"

fun compileReplacements ::
  "'re regex_lib \<Rightarrow> nat \<Rightarrow> NormalizationRuleConfig list \<Rightarrow> norm_error + 're replacement list" where
  "compileReplacements R index [] = Inr []"
| "compileReplacements R index (rule # rules) =
     (if nr_Pattern rule = [] then Inl (NormEmptyPattern index)
      else case re_compile R (nr_Pattern rule) of
        Inl e \<Rightarrow> Inl (NormBadPattern index e)
      | Inr pattern \<Rightarrow>
          (case compileReplacements R (Suc index) rules of
             Inl e \<Rightarrow> Inl e
           | Inr rs \<Rightarrow> Inr (\<lparr>rp_pattern = pattern, rp_replace = nr_Replace rule\<rparr> # rs)))"

definition NewNormalizer ::
  "'re regex_lib \<Rightarrow> NormalizationRuleConfig list \<Rightarrow> norm_error + 're Normalizer" where
  "NewNormalizer R rules =
     (case compileReplacements R 0 rules of
        Inl e \<Rightarrow> Inl e | Inr rs \<Rightarrow> Inr \<lparr>nz_replacements = rs\<rparr>)"

definition Normalize :: "'re regex_lib \<Rightarrow> 're Normalizer \<Rightarrow> string \<Rightarrow> string" where
  "Normalize R n value =
     fold (\<lambda>r value. re_replace_all R (rp_pattern r) value (rp_replace r)) (nz_replacements n) value"

text \<open>The sets and copies that a compiled rule holds; a nil map is the empty one.\<close>

definition stringSet :: "string list \<Rightarrow> (string, unit) gomap" where
  "stringSet values = (if length values = 0 then [] else gm_set_of values)"

definition copyFields :: "(string, string) gomap option \<Rightarrow> (string, string) gomap" where
  "copyFields values = (case values of None \<Rightarrow> [] | Some fs \<Rightarrow> fs)"

definition Compile :: "'re regex_lib \<Rightarrow> RuleConfig \<Rightarrow> rule_error + 're Rule" where
  "Compile R input =
     (if trim_space (rc_ID input) = [] then Inl RuleEmptyID
      else case compileLevels (mt_Levels (rc_Match input)) of
        Inl e \<Rightarrow> Inl (RuleBadLevel (rc_ID input) e)
      | Inr levels \<Rightarrow>
      if length (gm_set_of levels) = 0 then Inl (RuleNoLevel (rc_ID input))
      else case compileOptionalPattern R (mt_Pattern (rc_Match input)) of
        Inl e \<Rightarrow> Inl (RuleBadPattern (rc_ID input) e)
      | Inr pattern \<Rightarrow>
      case compileExcludes R 0 (mt_Excludes (rc_Match input)) of
        Inl (index, e) \<Rightarrow> Inl (RuleBadExclude (rc_ID input) index e)
      | Inr excludes \<Rightarrow>
      case parseDedupMode (dc_Mode (rc_Dedup input)) of
        Inl e \<Rightarrow> Inl (RuleBadDedup (rc_ID input) e)
      | Inr mode \<Rightarrow>
      if mode = DedupFields \<and> length (dc_Fields (rc_Dedup input)) = 0
      then Inl (RuleNoDedupFields (rc_ID input))
      else case NewNormalizer R (dc_Normalize (rc_Dedup input)) of
        Inl e \<Rightarrow> Inl (RuleBadNormalization (rc_ID input) e)
      | Inr normalizer \<Rightarrow> Inr \<lparr>
          r_ID = rc_ID input,
          r_Enabled = IsEnabled input,
          r_Severity = to_lower (rc_Severity input),
          r_Threshold = rc_Threshold input,
          r_Window = rc_Window input,
          r_Cooldown = rc_Cooldown input,
          r_StopOnMatch = rc_StopOnMatch input,
          r_Dedup = \<lparr>dd_Mode = mode, dd_Fields = dc_Fields (rc_Dedup input),
            dd_Normalizer = normalizer\<rparr>,
          r_Context = \<lparr>rk_Before = rx_Before (rc_Context input),
            rk_After = rx_After (rc_Context input),
            rk_AfterWait = rx_AfterWait (rc_Context input),
            rk_MaxBytes = rx_MaxBytes (rc_Context input)\<rparr>,
          r_containers = stringSet (rc_Containers input),
          r_levels = gm_set_of levels,
          r_components = stringSet (mt_Components (rc_Match input)),
          r_fieldEquals = copyFields (mt_FieldEquals (rc_Match input)),
          r_pattern = pattern,
          r_excludes = excludes\<rparr>)"

definition rule_Matches :: "'re regex_lib \<Rightarrow> 're Rule \<Rightarrow> LogEntry \<Rightarrow> bool" where
  "rule_Matches R r entry =
     (if \<not> r_Enabled r then False
      else if length (r_containers r) > 0 \<and> gm_get (r_containers r) (le_ContainerName entry) = None
        then False
      else if gm_get (r_levels r) (le_Level entry) = None then False
      else if length (r_components r) > 0
          \<and> gm_get (r_components r) (field_of entry ''component'') = None
        then False
      else if \<not> list_all (\<lambda>(key, want). field_of entry key = want) (r_fieldEquals r) then False
      else if (case r_pattern r of None \<Rightarrow> False | Some p \<Rightarrow> \<not> re_match R p (le_Message entry))
        then False
      else if list_ex (\<lambda>x. re_match R x (le_Message entry)) (r_excludes r) then False
      else True)"

record 're Engine =
  eg_rules :: "'re Rule list"

definition NewEngine :: "'re Rule list \<Rightarrow> 're Engine" where
  "NewEngine rules = \<lparr>eg_rules = rules\<rparr>"

fun match_loop :: "'re regex_lib \<Rightarrow> LogEntry \<Rightarrow> 're Rule list \<Rightarrow> 're Rule list" where
  "match_loop R entry [] = []"
| "match_loop R entry (rule # rules) =
     (if \<not> rule_Matches R rule entry then match_loop R entry rules
      else if r_StopOnMatch rule then [rule]
      else rule # match_loop R entry rules)"

definition engine_Match :: "'re regex_lib \<Rightarrow> 're Engine \<Rightarrow> LogEntry \<Rightarrow> 're Rule list" where
  "engine_Match R e entry = match_loop R entry (eg_rules e)"


section \<open>Lemmas\<close>

lemma stringSet_eq [simp]: "stringSet vs = gm_set_of vs"
  by (simp add: stringSet_def gm_set_of_def)

lemma compileLevels_ok:
  "(\<exists>ls. compileLevels vs = Inr ls) \<longleftrightarrow> list_all (\<lambda>v. \<not> isl (ParseLogLevel v)) vs"
proof (induction vs)
  case Nil
  show ?case by simp
next
  case (Cons v vs)
  then show ?case by (cases "ParseLogLevel v"; cases "compileLevels vs") auto
qed

lemma compileLevels_set:
  "compileLevels vs = Inr ls \<Longrightarrow> set ls = {l. \<exists>v \<in> set vs. ParseLogLevel v = Inr l}"
  by (induction vs arbitrary: ls) (auto split: sum.splits)

lemma compileLevels_length: "compileLevels vs = Inr ls \<Longrightarrow> length ls = length vs"
  by (induction vs arbitrary: ls) (auto split: sum.splits)

lemma compileOptionalPattern_ok:
  "(\<exists>p. compileOptionalPattern R v = Inr p) \<longleftrightarrow> v = [] \<or> \<not> isl (re_compile R v)"
  by (auto simp: compileOptionalPattern_def split: sum.splits)

lemma compileExcludes_ok:
  "(\<exists>xs. compileExcludes R i vs = Inr xs) \<longleftrightarrow> list_all (\<lambda>v. v = [] \<or> \<not> isl (re_compile R v)) vs"
proof (induction vs arbitrary: i)
  case Nil
  show ?case by simp
next
  case (Cons v vs)
  show ?case
    using Cons [of "Suc i"] compileOptionalPattern_ok [of R v]
    by (cases "compileOptionalPattern R v"; cases "compileExcludes R (Suc i) vs") auto
qed

lemma compileExcludes_set:
  "compileExcludes R i vs = Inr xs \<Longrightarrow>
   set xs = {x. \<exists>v \<in> set vs. v \<noteq> [] \<and> re_compile R v = Inr x}"
  by (induction vs arbitrary: i xs)
    (auto simp: compileOptionalPattern_def split: sum.splits if_splits option.splits)

lemma NewNormalizer_ok:
  "(\<exists>n. NewNormalizer R rules = Inr n) \<longleftrightarrow>
   list_all (\<lambda>r. nr_Pattern r \<noteq> [] \<and> \<not> isl (re_compile R (nr_Pattern r))) rules"
proof -
  have "(\<exists>rs. compileReplacements R i rules = Inr rs) \<longleftrightarrow>
      list_all (\<lambda>r. nr_Pattern r \<noteq> [] \<and> \<not> isl (re_compile R (nr_Pattern r))) rules" for i
  proof (induction rules arbitrary: i)
    case Nil
    show ?case by simp
  next
    case (Cons r rules)
    show ?case
      using Cons [of "Suc i"]
      by (cases "re_compile R (nr_Pattern r)"; cases "compileReplacements R (Suc i) rules") auto
  qed
  from this [of 0] show ?thesis by (auto simp: NewNormalizer_def split: sum.splits)
qed

lemma parseDedupMode_ok:
  "(\<exists>m. parseDedupMode v = Inr m) \<longleftrightarrow> to_lower (trim_space v) \<in> set allowedDedupModes"
  by (auto simp: parseDedupMode_def Let_def dedup_defs allowedDedupModes_def)

lemma parseDedupMode_value:
  "parseDedupMode v = Inr m \<Longrightarrow> m = to_lower (trim_space v)"
  by (auto simp: parseDedupMode_def Let_def split: if_splits)

text \<open>A rule that passes the checks of \<open>Validate\<close> compiles.\<close>

lemma Compile_validated:
  assumes "trim_space (rc_ID c) \<noteq> []" and "rule_checks R path c = []"
  shows "\<exists>r. Compile R c = Inr r"
proof -
  let ?m = "rc_Match c" and ?d = "rc_Dedup c"
  from assms(2) have lv: "validateLevels (path @ [At ''match'', At ''levels'']) (mt_Levels ?m) True = []"
    and pt: "validatePatterns R (path @ [At ''match'', At ''pattern'']) (mt_Pattern ?m) = []"
    and ex: "concat (map (\<lambda>(i, p). validatePatterns R (path @ [At ''match'', At ''excludes'', Idx i]) p)
        (enumerate 0 (mt_Excludes ?m))) = []"
    and dd: "validateDedup R (path @ [At ''dedup'']) ?d = []"
    by (simp_all add: rule_checks_def Let_def)
  obtain levels where levels: "compileLevels (mt_Levels ?m) = Inr levels" "levels \<noteq> []"
    using validateLevels_parse [OF lv] compileLevels_ok [of "mt_Levels ?m"] compileLevels_length
    by fastforce
  obtain pattern where pattern: "compileOptionalPattern R (mt_Pattern ?m) = Inr pattern"
    using pt compileOptionalPattern_ok [of R "mt_Pattern ?m"] by (auto simp: validatePatterns_ok)
  have "list_all (\<lambda>v. v = [] \<or> \<not> isl (re_compile R v)) (mt_Excludes ?m)"
    using ex by (rule concat_enumerate_Nil) (simp add: validatePatterns_ok)
  then obtain excludes where excludes: "compileExcludes R 0 (mt_Excludes ?m) = Inr excludes"
    using compileExcludes_ok by blast
  have mode_ok: "to_lower (trim_space (dc_Mode ?d)) \<in> set allowedDedupModes"
    and fields_ok: "to_lower (trim_space (dc_Mode ?d)) = ''fields'' \<Longrightarrow> dc_Fields ?d \<noteq> []"
    and norm: "concat (map (\<lambda>(i, n). required_pattern R
        ((path @ [At ''dedup'']) @ [At ''normalize'', Idx i, At ''pattern'']) (nr_Pattern n))
        (enumerate 0 (dc_Normalize ?d))) = []"
    using dd by (auto simp: validateDedup_def Let_def validateNames_ok split: if_splits)
  obtain mode where mode: "parseDedupMode (dc_Mode ?d) = Inr mode"
    using mode_ok parseDedupMode_ok by blast
  have "list_all (\<lambda>r. nr_Pattern r \<noteq> [] \<and> \<not> isl (re_compile R (nr_Pattern r))) (dc_Normalize ?d)"
    using norm by (rule concat_enumerate_Nil) (auto simp: required_pattern_ok)
  then obtain normalizer where "NewNormalizer R (dc_Normalize ?d) = Inr normalizer"
    using NewNormalizer_ok by blast
  then show ?thesis
    using assms(1) levels pattern excludes mode fields_ok parseDedupMode_value [OF mode]
    by (auto simp: Compile_def gm_set_of_Nil DedupFields_def)
qed

text \<open>What a compiled rule matches, in terms of the configuration.\<close>

lemma Compile_Matches:
  assumes "Compile R c = Inr r"
  shows "rule_Matches R r e \<longleftrightarrow>
    IsEnabled c
    \<and> (rc_Containers c = [] \<or> le_ContainerName e \<in> set (rc_Containers c))
    \<and> (\<exists>v \<in> set (mt_Levels (rc_Match c)). ParseLogLevel v = Inr (le_Level e))
    \<and> (mt_Components (rc_Match c) = [] \<or> field_of e ''component'' \<in> set (mt_Components (rc_Match c)))
    \<and> (\<forall>(k, v) \<in> set (copyFields (mt_FieldEquals (rc_Match c))). field_of e k = v)
    \<and> (\<forall>p. mt_Pattern (rc_Match c) \<noteq> [] \<and> re_compile R (mt_Pattern (rc_Match c)) = Inr p
          \<longrightarrow> re_match R p (le_Message e))
    \<and> (\<forall>v p. v \<in> set (mt_Excludes (rc_Match c)) \<and> v \<noteq> [] \<and> re_compile R v = Inr p
          \<longrightarrow> \<not> re_match R p (le_Message e))"
proof -
  let ?m = "rc_Match c"
  obtain levels excludes where
    lv: "compileLevels (mt_Levels ?m) = Inr levels" "r_levels r = gm_set_of levels" and
    ex: "compileExcludes R 0 (mt_Excludes ?m) = Inr excludes" "r_excludes r = excludes" and
    pt: "compileOptionalPattern R (mt_Pattern ?m) = Inr (r_pattern r)" and
    simple: "r_Enabled r = IsEnabled c" "r_containers r = gm_set_of (rc_Containers c)"
      "r_components r = gm_set_of (mt_Components ?m)"
      "r_fieldEquals r = copyFields (mt_FieldEquals ?m)"
    using assms unfolding Compile_def
    by (auto split: if_splits sum.splits prod.splits)
  have L: "gm_get (r_levels r) l = None \<longleftrightarrow> \<not> (\<exists>v \<in> set (mt_Levels ?m). ParseLogLevel v = Inr l)" for l
    using compileLevels_set [OF lv(1)] lv(2) by (auto simp: gm_get_set_of)
  have P: "(case r_pattern r of None \<Rightarrow> False | Some p \<Rightarrow> \<not> re_match R p (le_Message e))
      \<longleftrightarrow> \<not> (\<forall>p. mt_Pattern ?m \<noteq> [] \<and> re_compile R (mt_Pattern ?m) = Inr p \<longrightarrow> re_match R p (le_Message e))"
    using pt by (cases "r_pattern r") (auto simp: compileOptionalPattern_def split: if_splits sum.splits)
  have X: "list_ex (\<lambda>x. re_match R x (le_Message e)) (r_excludes r)
      \<longleftrightarrow> \<not> (\<forall>v p. v \<in> set (mt_Excludes ?m) \<and> v \<noteq> [] \<and> re_compile R v = Inr p \<longrightarrow> \<not> re_match R p (le_Message e))"
    using compileExcludes_set [OF ex(1)] ex(2) by (auto simp: list_ex_iff)
  have "rule_Matches R r e \<longleftrightarrow> r_Enabled r
      \<and> (r_containers r = [] \<or> gm_get (r_containers r) (le_ContainerName e) \<noteq> None)
      \<and> \<not> gm_get (r_levels r) (le_Level e) = None
      \<and> (r_components r = [] \<or> gm_get (r_components r) (field_of e ''component'') \<noteq> None)
      \<and> (\<forall>(k, v) \<in> set (r_fieldEquals r). field_of e k = v)
      \<and> \<not> (case r_pattern r of None \<Rightarrow> False | Some p \<Rightarrow> \<not> re_match R p (le_Message e))
      \<and> \<not> list_ex (\<lambda>x. re_match R x (le_Message e)) (r_excludes r)"
    by (simp add: rule_Matches_def list_all_iff)
  moreover have "gm_get (gm_set_of xs) x \<noteq> None \<longleftrightarrow> x \<in> set xs" for x and xs :: "string list"
    by (simp add: gm_get_set_of)
  ultimately show ?thesis
    by (simp only: simple L P X gm_set_of_Nil not_not)
qed

lemma match_loop_ref:
  "match_loop R e rules =
     (let ms = filter (\<lambda>r. rule_Matches R r e) rules in
      takeWhile (\<lambda>r. \<not> r_StopOnMatch r) ms @ take 1 (dropWhile (\<lambda>r. \<not> r_StopOnMatch r) ms))"
  by (induction rules) (auto simp: Let_def)

lemma match_loop_subset: "set (match_loop R e rules) \<subseteq> {r \<in> set rules. rule_Matches R r e}"
  by (induction rules) auto


section \<open>Properties\<close>

text \<open>
  C33. A compiled rule matches an entry exactly when the configured rule is enabled, lists
  the container (or no container), spells the level of the entry, lists its component (or
  none), equals it on every required field, its pattern (if any) matches the message and no
  exclude pattern does.
\<close>

theorem Compile_Matches_config:
  assumes "Compile R c = Inr r"
  shows "rule_Matches R r e \<longleftrightarrow>
    IsEnabled c
    \<and> (rc_Containers c = [] \<or> le_ContainerName e \<in> set (rc_Containers c))
    \<and> (\<exists>v \<in> set (mt_Levels (rc_Match c)). ParseLogLevel v = Inr (le_Level e))
    \<and> (mt_Components (rc_Match c) = [] \<or> field_of e ''component'' \<in> set (mt_Components (rc_Match c)))
    \<and> (\<forall>(k, v) \<in> set (copyFields (mt_FieldEquals (rc_Match c))). field_of e k = v)
    \<and> (\<forall>p. mt_Pattern (rc_Match c) \<noteq> [] \<and> re_compile R (mt_Pattern (rc_Match c)) = Inr p
          \<longrightarrow> re_match R p (le_Message e))
    \<and> (\<forall>v p. v \<in> set (mt_Excludes (rc_Match c)) \<and> v \<noteq> [] \<and> re_compile R v = Inr p
          \<longrightarrow> \<not> re_match R p (le_Message e))"
  by (rule Compile_Matches [OF assms])

definition example_rule_config :: RuleConfig where
  "example_rule_config = \<lparr>rc_ID = ''rpc-error'', rc_Enabled = None, rc_Severity = ''high'',
     rc_Containers = [], rc_Match = \<lparr>mt_Levels = [''ERROR''], mt_Pattern = ''failed'',
       mt_Excludes = [''ignored''], mt_Components = [], mt_FieldEquals = None\<rparr>,
     rc_Threshold = 2, rc_Window = minute, rc_Cooldown = 10 * minute,
     rc_Dedup = \<lparr>dc_Mode = ''fields'', dc_Fields = [''rule'', ''component''], dc_Normalize = []\<rparr>,
     rc_Context = \<lparr>rx_Before = 2, rx_After = 0, rx_AfterWait = 0, rx_MaxBytes = 200\<rparr>,
     rc_StopOnMatch = True\<rparr>"

definition example_rule :: "(bool \<times> string) Rule" where
  "example_rule = \<lparr>r_ID = ''rpc-error'', r_Enabled = True, r_Severity = ''high'',
     r_Threshold = 2, r_Window = minute, r_Cooldown = 10 * minute, r_StopOnMatch = True,
     r_Dedup = \<lparr>dd_Mode = ''fields'', dd_Fields = [''rule'', ''component''],
       dd_Normalizer = \<lparr>nz_replacements = []\<rparr>\<rparr>,
     r_Context = \<lparr>rk_Before = 2, rk_After = 0, rk_AfterWait = 0, rk_MaxBytes = 200\<rparr>,
     r_containers = [], r_levels = [(LevelError, ())], r_components = [], r_fieldEquals = [],
     r_pattern = Some (False, ''failed''), r_excludes = [(False, ''ignored'')]\<rparr>"

lemma example_rule_compiled: "Compile literal_lib example_rule_config = Inr example_rule"
  by code_simp

definition example_error :: LogEntry where
  "example_error = \<lparr>le_ContainerID = ''c1'', le_ContainerName = ''index-node-0'',
     le_Timestamp = 1700000000, le_Stream = ''stderr'', le_Level = LevelError,
     le_Message = ''call failed'', le_Fields = Some [(''component'', ''Rpc'')],
     le_Raw = ''ERROR call failed, component: Rpc''\<rparr>"

theorem Compile_Matches_config_witness:
  "rule_Matches literal_lib example_rule example_error"
proof -
  have "re_compile literal_lib ''failed'' = Inr (False, ''failed'')"
    and "re_compile literal_lib ''ignored'' = Inr (False, ''ignored'')"
    and "re_match literal_lib (False, ''failed'') ''call failed''"
    and "\<not> re_match literal_lib (False, ''ignored'') ''call failed''"
    and "ParseLogLevel ''ERROR'' = Inr LevelError" by code_simp+
  then show ?thesis
    using Compile_Matches_config [OF example_rule_compiled, of example_error]
    by (simp add: example_rule_config_def example_error_def IsEnabled_def copyFields_def)
qed

text \<open>
  \<open>Engine.Match\<close> returns the matching rules in configuration order, cut after the first
  of them that stops: the rules before it that match and do not stop, then that rule. So no
  rule after a matching \<open>stop_on_match\<close> rule is ever reported.
\<close>

theorem engine_Match_spec:
  "engine_Match R (NewEngine rules) e =
     (let ms = filter (\<lambda>r. rule_Matches R r e) rules in
      takeWhile (\<lambda>r. \<not> r_StopOnMatch r) ms @ take 1 (dropWhile (\<lambda>r. \<not> r_StopOnMatch r) ms))"
  by (simp add: engine_Match_def NewEngine_def match_loop_ref)

end
