(* ===== verification/Fingerprint.thy ===== *)
theory Fingerprint
  imports Rule_Engine "HOL-Library.List_Lexorder" "HOL-Library.Char_ord" "HOL-Library.Multiset"
begin

text \<open>
  \<open>fingerprint.go\<close> of package \<open>rule\<close>: the identity of an incident. The hash writes every part
  with its length as eight big-endian bytes in front (\<open>writePart\<close>). The digest function,
  SHA-256 followed by hexadecimal encoding, is the parameter \<open>sha\<close>; what the program needs of
  it, that two inputs with equal digests are equal, is a hypothesis of the one theorem that
  uses it. The order on strings is the bytewise order of \<open>sort.Strings\<close>.
\<close>

section \<open>Definitions\<close>

text \<open>The loop of \<open>writePart\<close>: the low byte last, the rest of the length before it.\<close>

fun size_bytes :: "nat \<Rightarrow> nat \<Rightarrow> string" where
  "size_bytes 0 n = []"
| "size_bytes (Suc k) n = size_bytes k (n div 256) @ [char_of n]"

definition writePart :: "string \<Rightarrow> string" where
  "writePart value = size_bytes 8 (length value) @ value"

definition rawIdentity :: "LogEntry \<Rightarrow> string" where
  "rawIdentity entry = (if le_Raw entry \<noteq> [] then le_Raw entry else le_Message entry)"

definition fieldValue :: "string \<Rightarrow> LogEntry \<Rightarrow> string \<Rightarrow> string" where
  "fieldValue ruleID entry fld =
     (if fld = ''rule'' then ruleID
      else if fld = ''container'' then le_ContainerName entry
      else field_of entry fld)"

text \<open>The parts that \<open>Fingerprint\<close> writes, in order.\<close>

definition fingerprint_parts :: "'re regex_lib \<Rightarrow> 're Rule \<Rightarrow> LogEntry \<Rightarrow> string list" where
  "fingerprint_parts R r entry =
     [''rule'', r_ID r, ''container'', le_ContainerName entry, ''mode'', dd_Mode (r_Dedup r)]
     @ (let mode = dd_Mode (r_Dedup r) in
        if mode = DedupExact then [''raw'', rawIdentity entry]
        else if mode = DedupNormalized
          then [''message'', Normalize R (dd_Normalizer (r_Dedup r)) (le_Message entry)]
        else if mode = DedupFields
          then concat (map (\<lambda>fld. [fld, fieldValue (r_ID r) entry fld]) (sort (dd_Fields (r_Dedup r))))
        else [])"

definition rule_Fingerprint ::
  "'re regex_lib \<Rightarrow> (string \<Rightarrow> string) \<Rightarrow> 're Rule \<Rightarrow> LogEntry \<Rightarrow> string" where
  "rule_Fingerprint R sha r entry = sha (concat (map writePart (fingerprint_parts R r entry)))"

text \<open>The reading of the encoding that shows it is unambiguous.\<close>

definition bytes_value :: "string \<Rightarrow> nat" where
  "bytes_value bs = foldl (\<lambda>n c. n * 256 + of_char c) 0 bs"


section \<open>Lemmas\<close>

lemma length_size_bytes [simp]: "length (size_bytes k n) = k"
  by (induction k arbitrary: n) simp_all

lemma bytes_value_size_bytes: "n < 256 ^ k \<Longrightarrow> bytes_value (size_bytes k n) = n"
proof (induction k arbitrary: n)
  case 0
  then show ?case by (simp add: bytes_value_def)
next
  case (Suc k)
  then have "n div 256 < 256 ^ k" by (simp add: less_mult_imp_div_less mult.commute)
  from Suc.IH [OF this] show ?case by (simp add: bytes_value_def)
qed

lemma writePart_inject:
  assumes "writePart a @ x = writePart b @ y" and "length a < 2 ^ 64" and "length b < 2 ^ 64"
  shows "a = b \<and> x = y"
proof -
  have "size_bytes 8 (length a) = size_bytes 8 (length b)" and rest: "a @ x = b @ y"
    using assms(1) by (simp_all add: writePart_def)
  then have "bytes_value (size_bytes 8 (length a)) = bytes_value (size_bytes 8 (length b))" by simp
  then have "length a = length b"
    using assms(2,3) by (simp add: bytes_value_size_bytes)
  with rest show ?thesis by simp
qed

lemma writePart_nonempty: "writePart v \<noteq> []"
proof -
  have "length (writePart v) = 8 + length v" by (simp add: writePart_def)
  then show ?thesis by auto
qed

text \<open>The written text determines its parts.\<close>

lemma parts_inject:
  assumes "concat (map writePart xs) = concat (map writePart ys)"
    and "list_all (\<lambda>p. length p < 2 ^ 64) xs" and "list_all (\<lambda>p. length p < 2 ^ 64) ys"
  shows "xs = ys"
  using assms
proof (induction xs arbitrary: ys)
  case Nil
  then show ?case by (cases ys) (auto simp: writePart_nonempty)
next
  case (Cons x xs)
  show ?case
  proof (cases ys)
    case Nil
    then show ?thesis using Cons.prems(1) by (simp add: writePart_nonempty)
  next
    case (Cons y ys')
    have "x = y \<and> concat (map writePart xs) = concat (map writePart ys')"
      using Cons.prems unfolding Cons by (intro writePart_inject) simp_all
    with Cons.IH [of ys'] Cons.prems show ?thesis unfolding Cons by simp
  qed
qed

lemma sort_perm: "mset xs = mset ys \<Longrightarrow> sort xs = sort (ys :: 'a :: linorder list)"
  by (metis properties_for_sort mset_sort sorted_sort)


lemma field_parts_eq:
  "concat (map (\<lambda>f. [f, v f]) xs) = concat (map (\<lambda>f. [f, w f]) ys) \<longleftrightarrow> xs = ys \<and> (\<forall>f \<in> set xs. v f = w f)"
proof (induction xs arbitrary: ys)
  case Nil
  show ?case by (cases ys) auto
next
  case (Cons x xs)
  then show ?case by (cases ys) auto
qed

lemma sort_eq_iff: "sort xs = sort ys \<longleftrightarrow> mset xs = mset (ys :: 'a :: linorder list)"
  using sort_perm [of xs ys] by (metis mset_sort)


section \<open>Properties\<close>

text \<open>
  C22. What an incident is. Two matches have the same fingerprint exactly when the rule
  identifiers, the container names and the dedup modes are the same and so is what the mode looks
  at: in \<open>exact\<close> mode the raw line, or the message where there is no raw line; in
  \<open>normalized\<close> mode the messages after the normalizers of their rules; in \<open>fields\<close> mode the
  listed fields, in any order, and the value of each of them; in \<open>rule\<close> mode nothing more.
  The hypotheses are that the digest does not collide on the two hashed texts and that
  no part is longer than a 64-bit length can say.
\<close>

theorem Fingerprint_identity:
  assumes "\<And>x y. x \<in> {concat (map writePart (fingerprint_parts R r e)), concat (map writePart (fingerprint_parts R r' e'))} \<Longrightarrow>
      y \<in> {concat (map writePart (fingerprint_parts R r e)), concat (map writePart (fingerprint_parts R r' e'))} \<Longrightarrow>
      sha x = sha y \<Longrightarrow> x = y"
    and "list_all (\<lambda>p. length p < 2 ^ 64) (fingerprint_parts R r e)"
    and "list_all (\<lambda>p. length p < 2 ^ 64) (fingerprint_parts R r' e')"
  shows "rule_Fingerprint R sha r e = rule_Fingerprint R sha r' e' \<longleftrightarrow>
      r_ID r = r_ID r' \<and> le_ContainerName e = le_ContainerName e'
      \<and> dd_Mode (r_Dedup r) = dd_Mode (r_Dedup r')
      \<and> (dd_Mode (r_Dedup r) = ''exact'' \<longrightarrow>
           (if le_Raw e \<noteq> [] then le_Raw e else le_Message e) = (if le_Raw e' \<noteq> [] then le_Raw e' else le_Message e'))
      \<and> (dd_Mode (r_Dedup r) = ''normalized'' \<longrightarrow>
           Normalize R (dd_Normalizer (r_Dedup r)) (le_Message e) = Normalize R (dd_Normalizer (r_Dedup r')) (le_Message e'))
      \<and> (dd_Mode (r_Dedup r) = ''fields'' \<longrightarrow>
           mset (dd_Fields (r_Dedup r)) = mset (dd_Fields (r_Dedup r'))
           \<and> (\<forall>f \<in> set (dd_Fields (r_Dedup r)) - {''rule'', ''container''}. field_of e f = field_of e' f))"
proof -
  have "rule_Fingerprint R sha r e = rule_Fingerprint R sha r' e' \<Longrightarrow>
      concat (map writePart (fingerprint_parts R r e)) = concat (map writePart (fingerprint_parts R r' e'))"
    unfolding rule_Fingerprint_def by (rule assms(1)) auto
  then have eq: "rule_Fingerprint R sha r e = rule_Fingerprint R sha r' e' \<longleftrightarrow>
      fingerprint_parts R r e = fingerprint_parts R r' e'"
    using parts_inject [OF _ assms(2,3)] by (auto simp: rule_Fingerprint_def)
  have "concat (map (\<lambda>f. [f, fieldValue (r_ID r) e f]) (sort (dd_Fields (r_Dedup r))))
        = concat (map (\<lambda>f. [f, fieldValue (r_ID r') e' f]) (sort (dd_Fields (r_Dedup r'))))
      \<longleftrightarrow> mset (dd_Fields (r_Dedup r)) = mset (dd_Fields (r_Dedup r'))
        \<and> (\<forall>f \<in> set (dd_Fields (r_Dedup r)) - {''rule'', ''container''}. field_of e f = field_of e' f)"
    if "r_ID r = r_ID r'" "le_ContainerName e = le_ContainerName e'"
    unfolding field_parts_eq sort_eq_iff using that by (auto simp: fieldValue_def)
  then show ?thesis
    unfolding eq by (auto simp: fingerprint_parts_def rawIdentity_def dedup_defs Let_def)
qed

theorem Fingerprint_identity_witness:
  "rule_Fingerprint literal_lib (\<lambda>x. x) example_rule example_error
     \<noteq> rule_Fingerprint literal_lib (\<lambda>x. x) example_rule
        (example_error\<lparr>le_Fields := Some [(''component'', ''Store'')]\<rparr>)"
proof -
  let ?e = "example_error\<lparr>le_Fields := Some [(''component'', ''Store'')]\<rparr>"
  have p: "fingerprint_parts literal_lib example_rule example_error
      = [''rule'', ''rpc-error'', ''container'', ''index-node-0'', ''mode'', ''fields'',
         ''component'', ''Rpc'', ''rule'', ''rpc-error'']"
    and q: "fingerprint_parts literal_lib example_rule ?e
      = [''rule'', ''rpc-error'', ''container'', ''index-node-0'', ''mode'', ''fields'',
         ''component'', ''Store'', ''rule'', ''rpc-error'']"
    by code_simp+
  have "dd_Mode (r_Dedup example_rule) = ''fields''" "''component'' \<in> set (dd_Fields (r_Dedup example_rule))"
    "field_of example_error ''component'' \<noteq> field_of ?e ''component''"
    by code_simp+
  then show ?thesis
    using Fingerprint_identity [of literal_lib example_rule example_error example_rule ?e "\<lambda>x. x"]
    by (simp add: p q) blast
qed

text \<open>
  In \<open>fields\<close> mode the fingerprint does not depend on the order in which the
  configuration lists the fields, nor on anything in the entry other than the container name
  and the listed fields: entries that differ in a volatile field such as the block number
  are one incident.
\<close>

theorem Fingerprint_fields_mode:
  assumes "dd_Mode (r_Dedup r) = DedupFields" and "dd_Mode (r_Dedup r') = DedupFields"
    and "r_ID r = r_ID r'" and "mset (dd_Fields (r_Dedup r)) = mset (dd_Fields (r_Dedup r'))"
    and "le_ContainerName e = le_ContainerName e'"
    and "\<And>f. f \<in> set (dd_Fields (r_Dedup r)) \<Longrightarrow> field_of e f = field_of e' f"
  shows "rule_Fingerprint R sha r e = rule_Fingerprint R sha r' e'"
proof -
  have "sort (dd_Fields (r_Dedup r)) = sort (dd_Fields (r_Dedup r'))"
    using assms(4) by (rule sort_perm)
  moreover have "fieldValue (r_ID r) e f = fieldValue (r_ID r) e' f"
    if "f \<in> set (dd_Fields (r_Dedup r))" for f
    using assms(5) assms(6) [OF that] by (simp add: fieldValue_def)
  moreover have "set (dd_Fields (r_Dedup r)) = set (dd_Fields (r_Dedup r'))"
    using assms(4) by (rule mset_eq_setD)
  ultimately have "fingerprint_parts R r e = fingerprint_parts R r' e'"
    using assms(1,2,3,5)
    by (auto simp: fingerprint_parts_def dedup_defs intro!: arg_cong [where f = concat] map_cong)
  then show ?thesis by (simp add: rule_Fingerprint_def)
qed

theorem Fingerprint_fields_mode_witness:
  "rule_Fingerprint literal_lib (\<lambda>x. x) example_rule
      (example_error\<lparr>le_Fields := Some [(''component'', ''Rpc''), (''block_number'', ''7'')]\<rparr>)
   = rule_Fingerprint literal_lib (\<lambda>x. x) example_rule
      (example_error\<lparr>le_Fields := Some [(''block_number'', ''8''), (''component'', ''Rpc'')]\<rparr>)"
  by (rule Fingerprint_fields_mode)
    (auto simp: example_rule_def example_error_def dedup_defs field_of_def gm_str_def)

end
