(* ===== verification/Aggregate.thy ===== *)
theory Aggregate
  imports Fingerprint
begin

text \<open>
  The model of \<open>internal/aggregate\<close>: bounded incident state per fingerprint. The clock of
  the package is the argument \<open>now\<close> of an operation, the mutex makes each operation one
  step. A Go map of groups is an association list whose order stands for the unspecified
  iteration order.

  The lemmas show that the sorted window of a group holds exactly the events within the
  window of the latest one, whatever the order of arrival; that alerts of a group are at
  least a cooldown apart and account for every suppressed event; and that the number of
  groups and of samples stays bounded. They are invariants of the traces of \<open>Record\<close>,
  \<open>Len\<close> and \<open>State\<close> calls, proved by rule induction.
\<close>

section \<open>State\<close>

record EventState =
  es_Fingerprint :: string
  es_FirstSeen :: gotime
  es_LastSeen :: gotime
  es_WindowCount :: int
  es_TotalCount :: int
  es_LastAlertAt :: gotime
  es_CooldownUntil :: gotime
  es_SuppressedCount :: int
  es_FirstSample :: string
  es_LatestSample :: string
  es_Samples :: "string list"

record Result =
  rs_Alert :: bool
  rs_Suppressed :: bool
  rs_SuppressedCount :: int
  rs_State :: EventState

record 're Event =
  ev_Rule :: "'re Rule"
  ev_Fingerprint :: string
  ev_Entry :: LogEntry

record group =
  g_state :: EventState
  g_timestamps :: "gotime list"
  g_watermark :: gotime
  g_updatedAt :: gotime

record Aggregator =
  a_maxGroups :: int
  a_groupTTL :: duration
  a_maxSamples :: int
  a_groups :: "(string, group) gomap"

datatype aggregate_error =
    AggMaxGroups | AggGroupTTL | AggMaxSamples
  | RecordEmptyFingerprint | RecordInvalidSettings string

definition zero_EventState :: EventState where
  "zero_EventState =
     \<lparr>es_Fingerprint = [], es_FirstSeen = zero_time, es_LastSeen = zero_time,
      es_WindowCount = 0, es_TotalCount = 0, es_LastAlertAt = zero_time,
      es_CooldownUntil = zero_time, es_SuppressedCount = 0, es_FirstSample = [],
      es_LatestSample = [], es_Samples = []\<rparr>"

definition new_group :: "string \<Rightarrow> group" where
  "new_group fingerprint =
     \<lparr>g_state = zero_EventState\<lparr>es_Fingerprint := fingerprint\<rparr>, g_timestamps = [],
      g_watermark = zero_time, g_updatedAt = zero_time\<rparr>"


section \<open>Operations\<close>

definition aggregate_New :: "int \<Rightarrow> duration \<Rightarrow> int \<Rightarrow> aggregate_error + Aggregator" where
  "aggregate_New maxGroups groupTTL maxSamples =
     (if maxGroups \<le> 0 then Inl AggMaxGroups
      else if groupTTL \<le> 0 then Inl AggGroupTTL
      else if maxSamples \<le> 0 then Inl AggMaxSamples
      else Inr \<lparr>a_maxGroups = maxGroups, a_groupTTL = groupTTL, a_maxSamples = maxSamples,
                a_groups = []\<rparr>)"

text \<open>Deleting while ranging over a map: what remains are the entries not deleted.\<close>

definition evictExpired :: "gotime \<Rightarrow> Aggregator \<Rightarrow> Aggregator" where
  "evictExpired now a =
     a\<lparr>a_groups := filter (\<lambda>(_, item). now < g_updatedAt item + a_groupTTL a) (a_groups a)\<rparr>"

definition oldest_step :: "string \<times> group \<Rightarrow> string \<times> gotime \<Rightarrow> string \<times> gotime" where
  "oldest_step kv old =
     (let (fingerprint, item) = kv; (oldestKey, oldestTime) = old in
      if oldestKey = [] \<or> g_updatedAt item < oldestTime
         \<or> (g_updatedAt item = oldestTime \<and> fingerprint < oldestKey)
      then (fingerprint, g_updatedAt item) else (oldestKey, oldestTime))"

definition evictForInsert :: "Aggregator \<Rightarrow> Aggregator" where
  "evictForInsert a =
     (if int (length (a_groups a)) < a_maxGroups a then a
      else let (oldestKey, _) = fold oldest_step (a_groups a) ([], zero_time) in
        a\<lparr>a_groups := gm_del oldestKey (a_groups a)\<rparr>)"

definition discardBefore :: "gotime list \<Rightarrow> gotime \<Rightarrow> gotime list" where
  "discardBefore values cutoff =
     drop (sort_search (length values) (\<lambda>index. \<not> values ! index < cutoff)) values"

text \<open>
  The slice is grown by a zero time, the tail from \<open>index\<close> is copied one place up, and the
  value is stored at \<open>index\<close>.
\<close>

definition insertTimestamp :: "gotime list \<Rightarrow> gotime \<Rightarrow> gotime list" where
  "insertTimestamp values value =
     (let index = sort_search (length values) (\<lambda>index. value < values ! index);
          grown = values @ [zero_time];
          copied = take (index + 1) grown
                     @ take (length grown - (index + 1)) (drop index grown)
      in copied[index := value])"

definition sampleOf :: "LogEntry \<Rightarrow> string" where
  "sampleOf entry = (if le_Raw entry \<noteq> [] then le_Raw entry else le_Message entry)"

definition addSample :: "EventState \<Rightarrow> string \<Rightarrow> int \<Rightarrow> EventState" where
  "addSample state value max_samples =
     (let state = (if es_FirstSample state = [] then state\<lparr>es_FirstSample := value\<rparr> else state);
          state = state\<lparr>es_LatestSample := value\<rparr>
      in if value \<in> set (es_Samples state) then state
         else if int (length (es_Samples state)) < max_samples
           then state\<lparr>es_Samples := es_Samples state @ [value]\<rparr>
         else state)"

definition raise :: "EventState \<Rightarrow> gotime \<Rightarrow> duration \<Rightarrow> Result \<Rightarrow> EventState \<times> Result" where
  "raise state at cooldown result =
     (state\<lparr>es_LastAlertAt := at, es_CooldownUntil := at + cooldown, es_SuppressedCount := 0\<rparr>,
      result\<lparr>rs_Alert := True, rs_SuppressedCount := es_SuppressedCount state\<rparr>)"

text \<open>The event time: the timestamp of the entry, or the clock when it has none.\<close>

definition event_time :: "gotime \<Rightarrow> 're Event \<Rightarrow> gotime" where
  "event_time now event =
     (let t = le_Timestamp (ev_Entry event) in if t = zero_time then now else t)"

text \<open>The window update of \<open>Record\<close> on one group.\<close>

definition slide_window :: "duration \<Rightarrow> gotime \<Rightarrow> group \<Rightarrow> group" where
  "slide_window window eventTime item =
     (let item = (if g_watermark item < eventTime then item\<lparr>g_watermark := eventTime\<rparr> else item);
          cutoff = g_watermark item + dur_neg window;
          item = item\<lparr>g_timestamps := discardBefore (g_timestamps item) cutoff\<rparr>
      in if \<not> eventTime < cutoff
         then item\<lparr>g_timestamps := insertTimestamp (g_timestamps item) eventTime\<rparr> else item)"

text \<open>The bookkeeping of \<open>Record\<close>: first and last time, counts and samples.\<close>

definition note_event :: "int \<Rightarrow> gotime \<Rightarrow> string \<Rightarrow> nat \<Rightarrow> EventState \<Rightarrow> EventState" where
  "note_event maxSamples eventTime sample windowCount state =
     (let state = (if es_FirstSeen state = zero_time \<or> eventTime < es_FirstSeen state
                   then state\<lparr>es_FirstSeen := eventTime\<rparr> else state);
          state = (if es_LastSeen state = zero_time \<or> es_LastSeen state < eventTime
                   then state\<lparr>es_LastSeen := eventTime\<rparr> else state);
          state = state\<lparr>es_TotalCount := es_TotalCount state + 1\<rparr>;
          state = state\<lparr>es_WindowCount := int windowCount\<rparr>
      in addSample state sample maxSamples)"

text \<open>The alert decision of \<open>Record\<close>.\<close>

definition decide :: "'re Rule \<Rightarrow> gotime \<Rightarrow> EventState \<Rightarrow> EventState \<times> Result" where
  "decide r eventTime state =
     (let result = \<lparr>rs_Alert = False, rs_Suppressed = False, rs_SuppressedCount = 0, rs_State = state\<rparr>;
          (state, result) =
            (if es_LastAlertAt state = zero_time then
               (if r_Threshold r \<le> es_WindowCount state
                then raise state eventTime (r_Cooldown r) result else (state, result))
             else if eventTime < es_CooldownUntil state then
               (state\<lparr>es_SuppressedCount := es_SuppressedCount state + 1\<rparr>,
                result\<lparr>rs_Suppressed := True\<rparr>)
             else if r_Threshold r \<le> es_WindowCount state
               then raise state eventTime (r_Cooldown r) result
             else (state, result))
      in (state, result\<lparr>rs_State := state\<rparr>))"

definition record_group :: "int \<Rightarrow> gotime \<Rightarrow> 're Event \<Rightarrow> group \<Rightarrow> group \<times> Result" where
  "record_group maxSamples now event item =
     (let eventTime = event_time now event;
          item = slide_window (r_Window (ev_Rule event)) eventTime item;
          state = note_event maxSamples eventTime (sampleOf (ev_Entry event))
                    (length (g_timestamps item)) (g_state item);
          (state, result) = decide (ev_Rule event) eventTime state
      in (item\<lparr>g_state := state, g_updatedAt := now\<rparr>, result))"

definition agg_Record ::
    "Aggregator \<Rightarrow> gotime \<Rightarrow> 're Event \<Rightarrow> Aggregator \<times> (aggregate_error + Result)" where
  "agg_Record a now event =
     (if ev_Fingerprint event = [] then (a, Inl RecordEmptyFingerprint)
      else if r_Threshold (ev_Rule event) \<le> 0 \<or> r_Window (ev_Rule event) \<le> 0
              \<or> r_Cooldown (ev_Rule event) < 0
        then (a, Inl (RecordInvalidSettings (r_ID (ev_Rule event))))
      else
        let a = evictExpired now a;
            fp = ev_Fingerprint event;
            (a, item) = (case gm_get (a_groups a) fp of
                           Some item \<Rightarrow> (a, item)
                         | None \<Rightarrow> (let a = evictForInsert a; item = new_group fp in
                             (a\<lparr>a_groups := gm_set fp item (a_groups a)\<rparr>, item)));
            (item, result) = record_group (a_maxSamples a) now event item
        in (a\<lparr>a_groups := gm_set fp item (a_groups a)\<rparr>, Inr result))"

definition agg_Len :: "Aggregator \<Rightarrow> gotime \<Rightarrow> Aggregator \<times> int" where
  "agg_Len a now = (let a = evictExpired now a in (a, int (length (a_groups a))))"

text \<open>\<open>State\<close>: a snapshot of the group, \<open>None\<close> for the \<open>false\<close> result.\<close>

definition agg_State :: "Aggregator \<Rightarrow> gotime \<Rightarrow> string \<Rightarrow> Aggregator \<times> EventState option" where
  "agg_State a now fingerprint =
     (let a = evictExpired now a in
      (a, map_option g_state (gm_get (a_groups a) fingerprint)))"


section \<open>The sorted window\<close>

lemma discardBefore_sorted:
  assumes "sorted values"
  shows "discardBefore values cutoff = filter (\<lambda>t. cutoff \<le> t) values"
proof -
  let ?f = "\<lambda>index. \<not> values ! index < cutoff" and ?n = "length values"
  have "mono_on {..<?n} ?f"
    by (rule mono_onI) (use assms in \<open>fastforce simp: sorted_iff_nth_mono\<close>)
  note spec = sort_search_spec [OF this]
  define k where "k = sort_search ?n ?f"
  have "filter (\<lambda>t. cutoff \<le> t) (take k values) = []"
    using spec(2) by (force simp: k_def filter_empty_conv in_set_conv_nth)
  moreover have "cutoff \<le> x" if x: "x \<in> set (drop k values)" for x
  proof -
    obtain i where "x = values ! i" "k \<le> i" "i < ?n"
      using in_set_drop_nth [OF x] by blast
    then show ?thesis using spec(3) [of i] by (simp add: k_def)
  qed
  then have "filter (\<lambda>t. cutoff \<le> t) (drop k values) = drop k values"
    by (simp add: filter_id_conv)
  moreover have "values = take k values @ drop k values" by simp
  ultimately have "filter (\<lambda>t. cutoff \<le> t) values = drop k values"
    by (metis append_Nil filter_append)
  then show ?thesis by (simp add: discardBefore_def k_def)
qed

lemma insert_shift:
  assumes "i \<le> length values"
  shows "(take (i + 1) (values @ [z])
          @ take (length (values @ [z]) - (i + 1)) (drop i (values @ [z])))[i := v]
         = take i values @ v # drop i values"
proof -
  define xs ys where "xs = take i values" and "ys = drop i values"
  have v: "values = xs @ ys" and i: "i = length xs"
    using assms by (simp_all add: xs_def ys_def)
  show ?thesis unfolding v i by (cases ys) simp_all
qed

lemma insertTimestamp_sorted:
  assumes "sorted values"
  shows "sorted (insertTimestamp values v) \<and> mset (insertTimestamp values v) = add_mset v (mset values)"
proof -
  let ?f = "\<lambda>index. v < values ! index" and ?n = "length values"
  have "mono_on {..<?n} ?f"
    by (rule mono_onI) (use assms in \<open>fastforce simp: sorted_iff_nth_mono\<close>)
  note spec = sort_search_spec [OF this]
  define k where "k = sort_search ?n ?f"
  have eq: "insertTimestamp values v = take k values @ v # drop k values"
    using insert_shift [OF spec(1)] by (simp add: insertTimestamp_def Let_def k_def)
  have "\<forall>x \<in> set (take k values). x \<le> v"
    using spec(2) by (force simp: k_def in_set_conv_nth)
  moreover have "v \<le> x" if x: "x \<in> set (drop k values)" for x
  proof -
    obtain i where "x = values ! i" "k \<le> i" "i < ?n"
      using in_set_drop_nth [OF x] by blast
    then show ?thesis using spec(3) [of i] by (simp add: k_def)
  qed
  moreover have "sorted (take k values @ drop k values)" using assms by simp
  ultimately have "sorted (insertTimestamp values v)"
    unfolding eq sorted_append by (auto intro: order_trans)
  moreover have "mset (insertTimestamp values v) = add_mset v (mset (take k values @ drop k values))"
    unfolding eq by (simp del: append_take_drop_id)
  ultimately show ?thesis by simp
qed

text \<open>
  The reference window: of all event times, in any order of arrival, those not more than
  \<open>window\<close> before the latest, sorted.
\<close>

definition latest :: "gotime list \<Rightarrow> gotime" where
  "latest ts = fold max ts zero_time"

definition window_ref :: "duration \<Rightarrow> gotime list \<Rightarrow> gotime list" where
  "window_ref window ts = sort (filter (\<lambda>t. latest ts - window \<le> t) ts)"

lemma latest_snoc [simp]: "latest (ts @ [t]) = max t (latest ts)"
  by (simp add: latest_def)

lemma latest_Nil [simp]: "latest [] = zero_time"
  by (simp add: latest_def)

definition window_inv :: "duration \<Rightarrow> group \<Rightarrow> gotime list \<Rightarrow> bool" where
  "window_inv window g ts \<longleftrightarrow>
     g_watermark g = latest ts \<and> g_timestamps g = window_ref window ts"

lemma window_inv_new [simp]: "window_inv w (new_group fp) []"
  by (simp add: window_inv_def new_group_def window_ref_def)

lemma slide_window_inv:
  assumes "window_inv w g ts" and "0 < w"
  shows "window_inv w (slide_window w t g) (ts @ [t])"
proof -
  define m where "m = max t (latest ts)"
  let ?in = "\<lambda>x. m - w \<le> x"
  define kept where "kept = filter ?in (sort (filter (\<lambda>x. latest ts - w \<le> x) ts))"
  have "mset kept = filter_mset ?in (filter_mset (\<lambda>x. latest ts - w \<le> x) (mset ts))"
    by (simp add: kept_def)
  also have "\<dots> = filter_mset ?in (mset ts)"
    by (auto simp: filter_filter_mset m_def intro!: filter_mset_cong)
  finally have kept: "sorted kept" "mset kept = filter_mset ?in (mset ts)"
    by (simp_all add: kept_def sorted_wrt_filter)
  have d: "discardBefore (g_timestamps g) (m - w) = kept"
    using assms(1) by (simp add: window_inv_def window_ref_def discardBefore_sorted kept_def)
  have g: "slide_window w t g =
      g\<lparr>g_watermark := m, g_timestamps := if m - w \<le> t then insertTimestamp kept t else kept\<rparr>"
    using assms d by (auto simp: slide_window_def window_inv_def Let_def m_def max_def)
  have "(if m - w \<le> t then insertTimestamp kept t else kept) = sort (filter ?in (ts @ [t]))"
    using kept insertTimestamp_sorted [OF kept(1), of t]
    by (intro properties_for_sort [symmetric]) (auto simp: ac_simps)
  then show ?thesis unfolding g by (simp add: window_inv_def window_ref_def m_def)
qed


section \<open>Alerts and suppression\<close>

text \<open>
  What a group remembers of its history of event times and results: alerts are at least the
  cooldown apart, the last one sets the end of the cooldown, and the suppressed events since
  then are counted.
\<close>

abbreviation alerts :: "(gotime \<times> Result) list \<Rightarrow> (gotime \<times> Result) list" where
  "alerts h \<equiv> filter (\<lambda>(t, r). rs_Alert r) h"

definition since_alert :: "(gotime \<times> Result) list \<Rightarrow> (gotime \<times> Result) list" where
  "since_alert h = takeWhile (\<lambda>(t, r). \<not> rs_Alert r) (rev h)"

lemma since_alert_snoc [simp]:
  "since_alert (h @ [(t, r)]) = (if rs_Alert r then [] else (t, r) # since_alert h)"
  by (simp add: since_alert_def)

lemma since_alert_Nil [simp]: "since_alert [] = []"
  by (simp add: since_alert_def)

definition alert_inv :: "duration \<Rightarrow> EventState \<Rightarrow> (gotime \<times> Result) list \<Rightarrow> bool" where
  "alert_inv cooldown s h \<longleftrightarrow>
     sorted_wrt (\<lambda>x y. x + cooldown \<le> y) (map fst (alerts h))
     \<and> (if alerts h = [] then es_LastAlertAt s = zero_time
        else es_LastAlertAt s = fst (last (alerts h)) \<and> es_LastAlertAt s \<noteq> zero_time
          \<and> es_CooldownUntil s = es_LastAlertAt s + cooldown)
     \<and> es_SuppressedCount s = int (length (filter (\<lambda>(t, r). rs_Suppressed r) (since_alert h)))"

definition same_alerts :: "EventState \<Rightarrow> EventState \<Rightarrow> bool" where
  "same_alerts s s' \<longleftrightarrow> es_LastAlertAt s = es_LastAlertAt s'
     \<and> es_CooldownUntil s = es_CooldownUntil s' \<and> es_SuppressedCount s = es_SuppressedCount s'"

lemma addSample_alerts: "same_alerts (addSample s v m) s"
  by (simp add: addSample_def same_alerts_def Let_def)

lemma note_event_alerts: "same_alerts (note_event m t v n s) s"
  unfolding note_event_def Let_def
  by (auto simp: same_alerts_def addSample_def Let_def)

lemma note_event_counts:
  "es_WindowCount (note_event m t v n s) = int n"
  "es_TotalCount (note_event m t v n s) = es_TotalCount s + 1"
  by (auto simp: note_event_def addSample_def Let_def)

lemma alert_inv_cong: "same_alerts s s' \<Longrightarrow> alert_inv c s h = alert_inv c s' h"
  by (auto simp: alert_inv_def same_alerts_def)

text \<open>The decision table: when an event alerts and when it is suppressed.\<close>

lemma decide_table:
  "rs_Alert (snd (decide r t s)) \<longleftrightarrow>
     r_Threshold r \<le> es_WindowCount s \<and> (es_LastAlertAt s = zero_time \<or> es_CooldownUntil s \<le> t)"
  "rs_Suppressed (snd (decide r t s)) \<longleftrightarrow> es_LastAlertAt s \<noteq> zero_time \<and> t < es_CooldownUntil s"
  "rs_State (snd (decide r t s)) = fst (decide r t s)"
  by (auto simp: decide_def raise_def Let_def)

lemma decide_state:
  "fst (decide r t s) =
     (if rs_Alert (snd (decide r t s))
      then s\<lparr>es_LastAlertAt := t, es_CooldownUntil := t + r_Cooldown r, es_SuppressedCount := 0\<rparr>
      else if rs_Suppressed (snd (decide r t s))
      then s\<lparr>es_SuppressedCount := es_SuppressedCount s + 1\<rparr> else s)"
  "rs_SuppressedCount (snd (decide r t s)) =
     (if rs_Alert (snd (decide r t s)) then es_SuppressedCount s else 0)"
  by (auto simp: decide_def raise_def Let_def)

lemma sorted_wrt_snoc_last:
  assumes "sorted_wrt (\<lambda>x y. x + c \<le> y) xs" and "0 \<le> (c::int)" and "xs \<noteq> [] \<Longrightarrow> last xs + c \<le> t"
  shows "sorted_wrt (\<lambda>x y. x + c \<le> y) (xs @ [t])"
proof (cases xs rule: rev_cases)
  case (snoc ys y)
  with assms have "\<forall>x \<in> set ys. x + c \<le> y" "y + c \<le> t" "sorted_wrt (\<lambda>x y. x + c \<le> y) xs"
    by (auto simp: sorted_wrt_append)
  moreover from this assms(2) have "\<forall>x \<in> set ys. x + c \<le> t" by fastforce
  ultimately show ?thesis using snoc by (auto simp: sorted_wrt_append)
qed simp

lemma decide_inv:
  assumes inv: "alert_inv (r_Cooldown r) s h" and c: "0 \<le> r_Cooldown r" and t: "t \<noteq> zero_time"
    and d: "decide r t s = (s', res)"
  shows "alert_inv (r_Cooldown r) s' (h @ [(t, res)])"
proof -
  note table = decide_table [of r t s, unfolded d snd_conv fst_conv]
  note state = decide_state [where r = r and t = t and s = s, unfolded d snd_conv fst_conv]
  show ?thesis
  proof (cases "rs_Alert res")
    case True
    have "sorted_wrt (\<lambda>x y. x + r_Cooldown r \<le> y) (map fst (alerts h) @ [t])"
      using inv c True table(1)
      by (intro sorted_wrt_snoc_last) (auto simp: alert_inv_def last_map split: if_splits)
    moreover have "\<not> rs_Suppressed res" using True table by auto
    ultimately show ?thesis using inv True t state by (simp add: alert_inv_def)
  next
    case False
    with inv state table(3) show ?thesis by (auto simp: alert_inv_def split: if_splits)
  qed
qed

text \<open>In terms of the history: the cooldown is over when it is over for every alert so far.\<close>

lemma cooldown_over:
  assumes "alert_inv c s h" and "0 \<le> c"
  shows "(es_LastAlertAt s = zero_time \<or> es_CooldownUntil s \<le> t) \<longleftrightarrow>
    (\<forall>(x, r) \<in> set h. rs_Alert r \<longrightarrow> x + c \<le> t)"
proof (cases "alerts h" rule: rev_cases)
  case Nil
  then have "\<forall>(x, r) \<in> set h. \<not> rs_Alert r" by (auto simp: filter_empty_conv)
  with Nil assms(1) show ?thesis by (auto simp: alert_inv_def)
next
  case (snoc as p)
  have al: "set (alerts h) = {(x, r) \<in> set h. rs_Alert r}" by auto
  have "x \<le> fst p" if "(x, r) \<in> set (alerts h)" for x r
    using that assms snoc by (fastforce simp: alert_inv_def sorted_wrt_append)
  moreover have "p \<in> set (alerts h)" using snoc by simp
  ultimately have "(\<forall>(x, r) \<in> set h. rs_Alert r \<longrightarrow> x + c \<le> t) \<longleftrightarrow> fst p + c \<le> t"
    unfolding al by (cases p) fastforce
  with snoc assms(1) show ?thesis by (simp add: alert_inv_def)
qed

text \<open>Samples: the distinct texts seen first, at most the configured number of them.\<close>

definition sample_inv :: "int \<Rightarrow> EventState \<Rightarrow> bool" where
  "sample_inv m s \<longleftrightarrow> distinct (es_Samples s) \<and> int (length (es_Samples s)) \<le> m"

lemma addSample_inv: "sample_inv m s \<Longrightarrow> sample_inv m (addSample s v m)"
  by (auto simp: sample_inv_def addSample_def Let_def)

lemma note_event_samples:
  assumes "sample_inv m s"
  shows "sample_inv m (note_event m t v n s)"
  unfolding note_event_def Let_def
  by (rule addSample_inv) (use assms in \<open>simp add: sample_inv_def\<close>)

lemma decide_samples: "es_Samples (fst (decide r t s)) = es_Samples s"
  by (auto simp: decide_def raise_def Let_def)


section \<open>One group\<close>

definition group_inv ::
    "duration \<Rightarrow> duration \<Rightarrow> int \<Rightarrow> group \<Rightarrow> (gotime \<times> Result) list \<Rightarrow> bool" where
  "group_inv window cooldown maxSamples g h \<longleftrightarrow>
     window_inv window g (map fst h) \<and> alert_inv cooldown (g_state g) h
     \<and> sample_inv maxSamples (g_state g) \<and> es_TotalCount (g_state g) = int (length h)"

lemma group_inv_new [simp]: "0 \<le> m \<Longrightarrow> group_inv w c m (new_group fp) []"
  by (simp add: group_inv_def)
     (simp add: new_group_def alert_inv_def sample_inv_def zero_EventState_def)

lemma slide_window_state [simp]: "g_state (slide_window w t g) = g_state g"
  by (simp add: slide_window_def Let_def)

lemma window_inv_update [simp]:
  "window_inv w (g\<lparr>g_state := s, g_updatedAt := u\<rparr>) ts = window_inv w g ts"
  by (simp add: window_inv_def)

lemma record_group_basic:
  assumes "record_group m now e g = (g', res)"
  shows "g_state g' = rs_State res" and "g_updatedAt g' = now"
proof -
  obtain t s s' where "decide (ev_Rule e) t s = (s', res)" "g_state g' = s'" "g_updatedAt g' = now"
    using assms by (auto simp: record_group_def Let_def split: prod.splits)
  with decide_table(3) [of "ev_Rule e" t s] show "g_state g' = rs_State res" "g_updatedAt g' = now"
    by simp_all
qed

lemma record_group_inv:
  assumes "group_inv (r_Window (ev_Rule e)) (r_Cooldown (ev_Rule e)) m g h"
    and "0 < r_Window (ev_Rule e)" and "0 \<le> r_Cooldown (ev_Rule e)"
    and "event_time now e \<noteq> zero_time" and "record_group m now e g = (g', res)"
  shows "group_inv (r_Window (ev_Rule e)) (r_Cooldown (ev_Rule e)) m g' (h @ [(event_time now e, res)])"
    and "es_WindowCount (rs_State res)
       = int (length (window_ref (r_Window (ev_Rule e)) (map fst h @ [event_time now e])))"
    and "rs_Alert res \<longleftrightarrow> r_Threshold (ev_Rule e) \<le> es_WindowCount (rs_State res)
       \<and> (es_LastAlertAt (g_state g) = zero_time \<or> es_CooldownUntil (g_state g) \<le> event_time now e)"
    and "rs_Suppressed res \<longleftrightarrow>
       es_LastAlertAt (g_state g) \<noteq> zero_time \<and> event_time now e < es_CooldownUntil (g_state g)"
    and "rs_Alert res \<Longrightarrow> rs_SuppressedCount res = es_SuppressedCount (g_state g)"
proof -
  define t where "t = event_time now e"
  define w where "w = slide_window (r_Window (ev_Rule e)) t g"
  define s where "s = note_event m t (sampleOf (ev_Entry e)) (length (g_timestamps w)) (g_state g)"
  obtain s' where d: "decide (ev_Rule e) t s = (s', res)" and g': "g' = w\<lparr>g_state := s', g_updatedAt := now\<rparr>"
    using assms(5) by (auto simp: record_group_def Let_def t_def w_def s_def split: prod.splits)
  have win: "window_inv (r_Window (ev_Rule e)) w (map fst h @ [t])"
    using assms(1,2) unfolding w_def by (intro slide_window_inv) (simp_all add: group_inv_def)
  have same: "same_alerts s (g_state g)" by (simp add: s_def note_event_alerts)
  have al: "alert_inv (r_Cooldown (ev_Rule e)) s' (h @ [(t, res)])"
    using assms(1,3,4) by (intro decide_inv [OF _ _ _ d])
      (simp_all add: group_inv_def alert_inv_cong [OF same] t_def)
  have "sample_inv m s"
    unfolding s_def by (rule note_event_samples) (use assms(1) in \<open>simp add: group_inv_def\<close>)
  then have sam: "sample_inv m s'"
    using decide_samples [of "ev_Rule e" t s] by (simp add: d sample_inv_def)
  have cnt: "es_TotalCount s' = es_TotalCount s" "es_WindowCount s' = es_WindowCount s"
    using d by (auto simp: decide_def raise_def Let_def split: if_splits)
  note table = decide_table [of "ev_Rule e" t s, unfolded d snd_conv fst_conv]
  show "group_inv (r_Window (ev_Rule e)) (r_Cooldown (ev_Rule e)) m g' (h @ [(event_time now e, res)])"
    using win al sam cnt assms(1) by (simp add: g' group_inv_def t_def s_def note_event_counts)
  show "es_WindowCount (rs_State res)
      = int (length (window_ref (r_Window (ev_Rule e)) (map fst h @ [event_time now e])))"
    using win by (simp add: table cnt s_def note_event_counts window_inv_def t_def)
  show "rs_Alert res \<longleftrightarrow> r_Threshold (ev_Rule e) \<le> es_WindowCount (rs_State res)
      \<and> (es_LastAlertAt (g_state g) = zero_time \<or> es_CooldownUntil (g_state g) \<le> event_time now e)"
    using same by (simp add: table cnt same_alerts_def t_def)
  show "rs_Suppressed res \<longleftrightarrow>
      es_LastAlertAt (g_state g) \<noteq> zero_time \<and> event_time now e < es_CooldownUntil (g_state g)"
    using same by (simp add: table same_alerts_def t_def)
  show "rs_Alert res \<Longrightarrow> rs_SuppressedCount res = es_SuppressedCount (g_state g)"
    using same decide_state(2) [of "ev_Rule e" t s] by (simp add: d same_alerts_def)
qed


section \<open>Eviction\<close>

text \<open>The order in which groups are evicted: by last update, then by fingerprint.\<close>

definition older_eq :: "gotime \<times> string \<Rightarrow> gotime \<times> string \<Rightarrow> bool" where
  "older_eq x y \<longleftrightarrow> fst x < fst y \<or> (fst x = fst y \<and> snd x \<le> snd y)"

definition is_oldest :: "(string, group) gomap \<Rightarrow> string \<Rightarrow> bool" where
  "is_oldest groups k \<longleftrightarrow>
     (\<exists>g. (k, g) \<in> set groups \<and>
       (\<forall>(k', g') \<in> set groups. older_eq (g_updatedAt g, k) (g_updatedAt g', k')))"

lemma oldest_step_eq:
  "oldest_step (k, item) (ok, ot) =
     (if ok = [] \<or> g_updatedAt item < ot \<or> (g_updatedAt item = ot \<and> k < ok)
      then (k, g_updatedAt item) else (ok, ot))"
  by (simp add: oldest_step_def)

lemma oldest_fold:
  assumes "groups \<noteq> []" and "[] \<notin> fst ` set groups"
  shows "\<exists>g. (fst (fold oldest_step groups ([], z)), g) \<in> set groups
    \<and> snd (fold oldest_step groups ([], z)) = g_updatedAt g
    \<and> (\<forall>(k', g') \<in> set groups.
         older_eq (g_updatedAt g, fst (fold oldest_step groups ([], z))) (g_updatedAt g', k'))"
  using assms
proof (induction groups rule: rev_induct)
  case (snoc kv groups)
  obtain k item where kv: "kv = (k, item)" by (cases kv)
  show ?case
  proof (cases "groups = []")
    case True
    then show ?thesis by (simp add: kv oldest_step_eq older_eq_def)
  next
    case False
    obtain ok ot where f: "fold oldest_step groups ([], z) = (ok, ot)" by fastforce
    from snoc False f obtain g where g: "(ok, g) \<in> set groups" "ot = g_updatedAt g"
      "\<forall>(k', g') \<in> set groups. older_eq (g_updatedAt g, ok) (g_updatedAt g', k')" by auto
    have "ok \<noteq> []" using g(1) snoc.prems by force
    show ?thesis
    proof (cases "g_updatedAt item < ot \<or> (g_updatedAt item = ot \<and> k < ok)")
      case True
      then have "\<forall>(k', g') \<in> set groups. older_eq (g_updatedAt item, k) (g_updatedAt g', k')"
        using g by (fastforce simp: older_eq_def)
      with True \<open>ok \<noteq> []\<close> show ?thesis
        by (intro exI [of _ item]) (auto simp: f kv oldest_step_eq older_eq_def)
    next
      case False
      with g \<open>ok \<noteq> []\<close> show ?thesis
        by (intro exI [of _ g]) (auto simp: f kv oldest_step_eq older_eq_def)
    qed
  qed
qed simp

lemma is_oldest_unique:
  assumes "is_oldest groups k" and "is_oldest groups' k'" and "set groups = set groups'"
  shows "k = k'"
proof -
  obtain g where g: "(k, g) \<in> set groups"
      "\<forall>(k', g') \<in> set groups. older_eq (g_updatedAt g, k) (g_updatedAt g', k')"
    using assms(1) unfolding is_oldest_def by blast
  obtain g' where g': "(k', g') \<in> set groups"
      "\<forall>(k, g) \<in> set groups. older_eq (g_updatedAt g', k') (g_updatedAt g, k)"
    using assms(2,3) unfolding is_oldest_def by auto
  from g(2) g'(1) have "older_eq (g_updatedAt g, k) (g_updatedAt g', k')" by (rule bspec [elim_format]) simp
  moreover from g'(2) g(1) have "older_eq (g_updatedAt g', k') (g_updatedAt g, k)" by (rule bspec [elim_format]) simp
  ultimately show ?thesis by (auto simp: older_eq_def)
qed

lemma evictForInsert_oldest:
  assumes "[] \<notin> fst ` set (a_groups a)" and "0 < a_maxGroups a"
    and "a_maxGroups a \<le> int (length (a_groups a))"
  shows "\<exists>k. is_oldest (a_groups a) k \<and> evictForInsert a = a\<lparr>a_groups := gm_del k (a_groups a)\<rparr>"
proof -
  have "a_groups a \<noteq> []" using assms by auto
  from oldest_fold [OF this assms(1), of zero_time]
  have "is_oldest (a_groups a) (fst (fold oldest_step (a_groups a) ([], zero_time)))"
    by (auto simp: is_oldest_def)
  moreover have "evictForInsert a
      = a\<lparr>a_groups := gm_del (fst (fold oldest_step (a_groups a) ([], zero_time))) (a_groups a)\<rparr>"
    using assms(3) by (simp add: evictForInsert_def split: prod.splits)
  ultimately show ?thesis by blast
qed


section \<open>The aggregator\<close>

definition agg_ok :: "Aggregator \<Rightarrow> bool" where
  "agg_ok a \<longleftrightarrow> 0 < a_maxGroups a \<and> 0 < a_groupTTL a \<and> 0 < a_maxSamples a
     \<and> gm_wf (a_groups a) \<and> [] \<notin> fst ` set (a_groups a)
     \<and> int (length (a_groups a)) \<le> a_maxGroups a"

definition same_settings :: "Aggregator \<Rightarrow> Aggregator \<Rightarrow> bool" where
  "same_settings a b \<longleftrightarrow> a_maxGroups a = a_maxGroups b \<and> a_groupTTL a = a_groupTTL b
     \<and> a_maxSamples a = a_maxSamples b"

lemma aggregate_New_ok: "aggregate_New n ttl m = Inr a \<Longrightarrow> agg_ok a"
  by (auto simp: aggregate_New_def agg_ok_def split: if_splits)

text \<open>
  Expiry at an earlier time is part of expiry at a later one, so a call of \<open>Len\<close> in between is not
  seen by later operations, as long as the clock does not run backwards.
\<close>

lemma evictExpired_twice:
  assumes "t \<le> now"
  shows "evictExpired now (evictExpired t a) = evictExpired now a"
proof -
  have "filter (\<lambda>(_, g). now < g_updatedAt g + ttl) (filter (\<lambda>(_, g). t < g_updatedAt g + ttl) gs)
      = filter (\<lambda>(_, g). now < g_updatedAt g + ttl) gs" for ttl and gs :: "(string \<times> group) list"
    using assms by (induction gs) auto
  then show ?thesis by (simp add: evictExpired_def del: filter_filter)
qed

lemma Len_unseen:
  assumes "t \<le> now"
  shows "snd (agg_Record (fst (agg_Len a t)) now e) = snd (agg_Record a now e)"
    and "agg_Record a now e = (a', Inr r) \<Longrightarrow> agg_Record (fst (agg_Len a t)) now e = (a', Inr r)"
    and "agg_Len (fst (agg_Len a t)) now = agg_Len a now"
    and "agg_State (fst (agg_Len a t)) now fp = agg_State a now fp"
  using evictExpired_twice [OF assms, of a]
  by (simp_all add: agg_Record_def agg_Len_def agg_State_def Let_def split: if_splits)

lemma gm_get_evictExpired:
  "agg_ok a \<Longrightarrow> gm_get (a_groups (evictExpired now a)) k =
     (case gm_get (a_groups a) k of None \<Rightarrow> None
      | Some g \<Rightarrow> if now < g_updatedAt g + a_groupTTL a then Some g else None)"
  by (simp add: evictExpired_def agg_ok_def gm_get_filter split: option.splits)

lemma evictExpired_ok:
  assumes "agg_ok a"
  shows "agg_ok (evictExpired now a) \<and> same_settings (evictExpired now a) a"
proof -
  have "int (length (filter P (a_groups a))) \<le> a_maxGroups a" for P
  proof -
    have "int (length (filter P (a_groups a))) \<le> int (length (a_groups a))" by simp
    then show ?thesis using assms unfolding agg_ok_def by linarith
  qed
  then show ?thesis
    using assms by (auto simp: evictExpired_def agg_ok_def same_settings_def)
qed

text \<open>Making room for one more group: at most the oldest one goes.\<close>

lemma evictForInsert_ok:
  assumes "agg_ok a"
  shows "agg_ok (evictForInsert a) \<and> same_settings (evictForInsert a) a
    \<and> int (length (a_groups (evictForInsert a))) < a_maxGroups a
    \<and> (\<forall>k. gm_get (a_groups (evictForInsert a)) k \<noteq> gm_get (a_groups a) k \<longrightarrow>
         gm_get (a_groups (evictForInsert a)) k = None \<and> is_oldest (a_groups a) k
         \<and> int (length (a_groups a)) = a_maxGroups a)"
proof (cases "int (length (a_groups a)) < a_maxGroups a")
  case True
  then show ?thesis using assms by (simp add: evictForInsert_def same_settings_def)
next
  case False
  then obtain k where k: "is_oldest (a_groups a) k"
      "evictForInsert a = a\<lparr>a_groups := gm_del k (a_groups a)\<rparr>"
    using assms evictForInsert_oldest [of a] by (auto simp: agg_ok_def)
  then have kin: "k \<in> fst ` set (a_groups a)" by (force simp: is_oldest_def)
  then obtain n where "length (a_groups a) = Suc n" by (cases "a_groups a") auto
  then have "int (length (gm_del k (a_groups a))) < a_maxGroups a"
    using assms kin by (simp add: agg_ok_def length_gm_del)
  moreover have "[] \<notin> fst ` set (gm_del k (a_groups a))"
    using assms using dom_delete_subset [of k "a_groups a"] by (auto simp: agg_ok_def)
  ultimately show ?thesis
    using assms False k by (auto simp: agg_ok_def same_settings_def gm_get_del split: if_splits)
qed

text \<open>
  What a successful \<open>Record\<close> does to the map: the group of the event is advanced (a fresh
  one if it was absent or expired); another group is kept as it is or evicted.
\<close>

lemma agg_Record_success:
  assumes "agg_ok a" and "agg_Record a now e = (a', Inr res)"
  shows "\<exists>item item'. (case gm_get (a_groups (evictExpired now a)) (ev_Fingerprint e) of
        None \<Rightarrow> item = new_group (ev_Fingerprint e) | Some g \<Rightarrow> item = g)
    \<and> record_group (a_maxSamples a) now e item = (item', res)
    \<and> gm_get (a_groups a') (ev_Fingerprint e) = Some item'
    \<and> (\<forall>k. k \<noteq> ev_Fingerprint e \<longrightarrow>
         gm_get (a_groups a') k = gm_get (a_groups (evictExpired now a)) k
         \<or> (gm_get (a_groups a') k = None \<and> is_oldest (a_groups (evictExpired now a)) k))
    \<and> agg_ok a' \<and> same_settings a' a \<and> ev_Fingerprint e \<noteq> []
    \<and> 0 < r_Threshold (ev_Rule e) \<and> 0 < r_Window (ev_Rule e) \<and> 0 \<le> r_Cooldown (ev_Rule e)"
proof -
  define fp where "fp = ev_Fingerprint e"
  define b where "b = evictExpired now a"
  have guards: "fp \<noteq> []" "0 < r_Threshold (ev_Rule e)" "0 < r_Window (ev_Rule e)" "0 \<le> r_Cooldown (ev_Rule e)"
    using assms(2) by (auto simp: agg_Record_def fp_def split: if_splits)
  have b: "agg_ok b" "same_settings b a" using evictExpired_ok [OF assms(1)] by (simp_all add: b_def)
  show ?thesis
  proof (cases "gm_get (a_groups b) fp")
    case (Some g)
    obtain g' where g': "record_group (a_maxSamples b) now e g = (g', res)"
        "a' = b\<lparr>a_groups := gm_set fp g' (a_groups b)\<rparr>"
      using assms(2) guards Some
      by (auto simp: agg_Record_def Let_def b_def fp_def split: prod.splits if_splits)
    have "fp \<in> fst ` set (a_groups b)" using Some by (metis gm_get_None option.distinct(1))
    then have "agg_ok a'" using b(1) g'(2) guards by (auto simp: agg_ok_def length_gm_set dom_update)
    with Some g' b guards show ?thesis
      by (intro exI [of _ g] exI [of _ g']) (auto simp: fp_def b_def gm_get_set same_settings_def)
  next
    case None
    define c where "c = evictForInsert b"
    note c = evictForInsert_ok [OF b(1), folded c_def]
    obtain g' where g': "record_group (a_maxSamples c) now e (new_group fp) = (g', res)"
        "a' = c\<lparr>a_groups := gm_set fp g' (gm_set fp (new_group fp) (a_groups c))\<rparr>"
      using assms(2) guards None
      by (auto simp: agg_Record_def Let_def b_def c_def fp_def split: prod.splits if_splits)
    have "agg_ok a'" using b c g'(2) guards
      by (auto simp: agg_ok_def length_gm_set dom_update same_settings_def)
    moreover have "gm_get (a_groups c) k = gm_get (a_groups b) k
        \<or> (gm_get (a_groups c) k = None \<and> is_oldest (a_groups b) k)" for k
      using c by metis
    ultimately show ?thesis using None g' b c guards
      by (intro exI [of _ "new_group fp"] exI [of _ g']) (auto simp: fp_def b_def gm_get_set same_settings_def)
  qed
qed


section \<open>Traces\<close>

text \<open>
  A state of a trace is an aggregator with, for each fingerprint, the history of the group
  since it was created: the event times and results of its records. The steps are the
  exported operations, at any reading of the clock. The settings of the rule behind a
  fingerprint do not change, as the rule identifier is part of every fingerprint.
\<close>

type_synonym history = "string \<Rightarrow> (gotime \<times> Result) list"

definition live :: "Aggregator \<Rightarrow> history \<Rightarrow> history" where
  "live a h = (\<lambda>k. if k \<in> fst ` set (a_groups a) then h k else [])"

datatype 're agg_op = OpRecord gotime "'re Event" | OpLen gotime | OpState gotime string

inductive agg_step ::
    "(string \<Rightarrow> duration) \<Rightarrow> (string \<Rightarrow> duration) \<Rightarrow> 're agg_op \<Rightarrow>
       Aggregator \<times> history \<Rightarrow> Aggregator \<times> history \<Rightarrow> bool"
  for window cooldown where
  step_Record:
    "agg_Record a now e = (a', Inr res) \<Longrightarrow>
     r_Window (ev_Rule e) = window (ev_Fingerprint e) \<Longrightarrow>
     r_Cooldown (ev_Rule e) = cooldown (ev_Fingerprint e) \<Longrightarrow>
     event_time now e \<noteq> zero_time \<Longrightarrow>
     agg_step window cooldown (OpRecord now e) (a, h)
       (a', live a' ((live (evictExpired now a) h)
          (ev_Fingerprint e := live (evictExpired now a) h (ev_Fingerprint e) @ [(event_time now e, res)])))"
| step_Record_error:
    "agg_Record a now e = (a', Inl err) \<Longrightarrow>
     agg_step window cooldown (OpRecord now e) (a, h) (a', h)"
| step_Len:
    "agg_Len a now = (a', n) \<Longrightarrow> agg_step window cooldown (OpLen now) (a, h) (a', live a' h)"
| step_State:
    "agg_State a now k = (a', s) \<Longrightarrow> agg_step window cooldown (OpState now k) (a, h) (a', live a' h)"

inductive_cases agg_stepE: "agg_step window cooldown l st st'"

definition agg_inv ::
    "(string \<Rightarrow> duration) \<Rightarrow> (string \<Rightarrow> duration) \<Rightarrow> Aggregator \<times> history \<Rightarrow> bool" where
  "agg_inv window cooldown st \<longleftrightarrow>
     agg_ok (fst st) \<and>
     (\<forall>k. gm_get (a_groups (fst st)) k = None \<longrightarrow> snd st k = []) \<and>
     (\<forall>k g. gm_get (a_groups (fst st)) k = Some g \<longrightarrow>
        group_inv (window k) (cooldown k) (a_maxSamples (fst st)) g (snd st k))"

lemma live_None: "gm_get (a_groups a) k = None \<Longrightarrow> live a h k = []"
  by (simp add: live_def gm_get_None)

lemma live_Some: "gm_get (a_groups a) k = Some g \<Longrightarrow> live a h k = h k"
  by (metis gm_get_None live_def option.distinct(1))

lemma agg_inv_group:
  "agg_inv w c (a, h) \<Longrightarrow> gm_get (a_groups a) k = Some g \<Longrightarrow>
   group_inv (w k) (c k) (a_maxSamples a) g (h k)"
  by (simp add: agg_inv_def)

lemma agg_Record_error: "agg_Record a now e = (a', Inl err) \<Longrightarrow> a' = a"
  by (auto simp: agg_Record_def Let_def split: if_splits prod.splits)

lemma agg_inv_evict:
  assumes "agg_inv w c (a, h)"
  shows "agg_inv w c (evictExpired now a, live (evictExpired now a) h)"
proof -
  have ok: "agg_ok a" using assms by (simp add: agg_inv_def)
  have ms: "a_maxSamples (evictExpired now a) = a_maxSamples a" by (simp add: evictExpired_def)
  have "group_inv (w k) (c k) (a_maxSamples a) g (live (evictExpired now a) h k)"
    if some: "gm_get (a_groups (evictExpired now a)) k = Some g" for k g
  proof -
    have "gm_get (a_groups a) k = Some g"
      using some by (simp add: gm_get_evictExpired [OF ok] split: option.splits if_splits)
    then have "group_inv (w k) (c k) (a_maxSamples a) g (h k)"
      by (rule agg_inv_group [OF assms])
    then show ?thesis by (simp add: live_Some [OF some])
  qed
  then show ?thesis using evictExpired_ok [OF ok] by (simp add: agg_inv_def ms live_None)
qed

lemma agg_inv_record:
  assumes inv: "agg_inv w c (a, h)" and rec: "agg_Record a now e = (a', Inr res)"
    and w: "r_Window (ev_Rule e) = w (ev_Fingerprint e)"
    and c: "r_Cooldown (ev_Rule e) = c (ev_Fingerprint e)" and t: "event_time now e \<noteq> zero_time"
  defines "fp \<equiv> ev_Fingerprint e" and "h0 \<equiv> live (evictExpired now a) h"
  shows "agg_inv w c (a', live a' (h0(fp := h0 fp @ [(event_time now e, res)])))"
    and "\<exists>item. group_inv (w fp) (c fp) (a_maxSamples a) item (h0 fp)
      \<and> (case gm_get (a_groups (evictExpired now a)) fp of None \<Rightarrow> item = new_group fp | Some g \<Rightarrow> item = g)
      \<and> record_group (a_maxSamples a) now e item = (the (gm_get (a_groups a') fp), res)
      \<and> gm_get (a_groups a') fp \<noteq> None"
proof -
  have ok: "agg_ok a" using inv by (simp add: agg_inv_def)
  from agg_Record_success [OF ok rec] obtain item item' where
    it: "case gm_get (a_groups (evictExpired now a)) fp of None \<Rightarrow> item = new_group fp | Some g \<Rightarrow> item = g"
    and rg: "record_group (a_maxSamples a) now e item = (item', res)"
    and get: "gm_get (a_groups a') fp = Some item'"
    and others: "\<And>k. k \<noteq> fp \<Longrightarrow>
         gm_get (a_groups a') k = gm_get (a_groups (evictExpired now a)) k
         \<or> (gm_get (a_groups a') k = None \<and> is_oldest (a_groups (evictExpired now a)) k)"
    and ok': "agg_ok a'" "same_settings a' a"
    and pos: "0 < r_Window (ev_Rule e)" "0 \<le> r_Cooldown (ev_Rule e)"
    unfolding fp_def by blast
  have inv0: "agg_inv w c (evictExpired now a, h0)"
    unfolding h0_def by (rule agg_inv_evict [OF inv])
  have ms: "a_maxSamples (evictExpired now a) = a_maxSamples a" by (simp add: evictExpired_def)
  have gi: "group_inv (w fp) (c fp) (a_maxSamples a) item (h0 fp)"
  proof (cases "gm_get (a_groups (evictExpired now a)) fp")
    case None
    then show ?thesis using it ok by (simp add: h0_def live_None agg_ok_def)
  next
    case (Some g)
    then show ?thesis using it agg_inv_group [OF inv0] by (simp add: ms)
  qed
  show "\<exists>item. group_inv (w fp) (c fp) (a_maxSamples a) item (h0 fp)
      \<and> (case gm_get (a_groups (evictExpired now a)) fp of None \<Rightarrow> item = new_group fp | Some g \<Rightarrow> item = g)
      \<and> record_group (a_maxSamples a) now e item = (the (gm_get (a_groups a') fp), res)
      \<and> gm_get (a_groups a') fp \<noteq> None"
    using gi it rg get by (intro exI [of _ item]) simp
  have "group_inv (w fp) (c fp) (a_maxSamples a) item' (h0 fp @ [(event_time now e, res)])"
    using record_group_inv(1) [of e _ item "h0 fp" now item' res] gi pos t rg w c by (simp add: fp_def)
  moreover have "group_inv (w k) (c k) (a_maxSamples a) g (h0 k)"
    if "k \<noteq> fp" "gm_get (a_groups a') k = Some g" for k g
    using that others [of k] agg_inv_group [OF inv0] by (simp add: ms)
  ultimately show "agg_inv w c (a', live a' (h0(fp := h0 fp @ [(event_time now e, res)])))"
    using ok' get by (auto simp: agg_inv_def same_settings_def live_None live_Some)
qed

interpretation agg: step_invariant "agg_step w c" "agg_inv w c" for w c
proof
  fix s s' :: "Aggregator \<times> history" and l :: "'a agg_op"
  assume "agg_inv w c s" and "agg_step w c l s s'"
  then show "agg_inv w c s'"
    by (cases s) (auto elim!: agg_stepE intro: agg_inv_record(1) agg_inv_evict
      dest: agg_Record_error simp: agg_Len_def agg_State_def Let_def)
qed


text \<open>The settings never change.\<close>

lemma same_settings_trans: "same_settings a b \<Longrightarrow> same_settings b c \<Longrightarrow> same_settings a c"
  by (simp add: same_settings_def)

interpretation agg_settings: step_invariant "agg_step w c"
  "\<lambda>st. agg_ok (fst st) \<and> same_settings (fst st) a0" for w c a0
proof
  fix s s' :: "Aggregator \<times> history" and l :: "'a agg_op"
  assume ok: "agg_ok (fst s) \<and> same_settings (fst s) a0" and step: "agg_step w c l s s'"
  from step have "agg_ok (fst s') \<and> same_settings (fst s') (fst s)"
  proof cases
    case (step_Record a now e a' res h)
    with ok agg_Record_success [of a now e a' res] show ?thesis by auto
  qed (use ok evictExpired_ok in \<open>auto simp: agg_Len_def agg_State_def Let_def same_settings_def dest: agg_Record_error\<close>)
  with ok same_settings_trans show "agg_ok (fst s') \<and> same_settings (fst s') a0" by blast
qed

lemma agg_inv_New: "aggregate_New n ttl m = Inr a \<Longrightarrow> agg_inv w c (a, \<lambda>_. [])"
  using aggregate_New_ok [of n ttl m a]
  by (auto simp: agg_inv_def aggregate_New_def split: if_splits)


section \<open>Properties\<close>

text \<open>
  C3. The complete alerting contract of \<open>Record\<close> after any sequence of operations. Let the
  history be the records of the event's group since it was created. Then the window count is
  the number of records, this one included, whose time is within the window of the latest
  one, whatever their order of arrival; the event alerts exactly when this count reaches the
  threshold and the cooldown of every earlier alert of the group is over; it is suppressed
  exactly when some cooldown is not over; and an alert reports how many events were
  suppressed since the last one.
\<close>

theorem Record_alerting:
  assumes "aggregate_New n ttl m = Inr a0"
    and "run (agg_step window cooldown) (a0, \<lambda>_. []) ops (a, h)"
    and "agg_Record a now e = (a', Inr res)"
    and "r_Window (ev_Rule e) = window (ev_Fingerprint e)"
    and "r_Cooldown (ev_Rule e) = cooldown (ev_Fingerprint e)"
    and "event_time now e \<noteq> zero_time"
  shows "let t = event_time now e;
             past = live (evictExpired now a) h (ev_Fingerprint e);
             ts = map fst past @ [t]
         in es_WindowCount (rs_State res)
              = int (length (filter (\<lambda>x. latest ts - r_Window (ev_Rule e) \<le> x) ts))
          \<and> (rs_Alert res \<longleftrightarrow> r_Threshold (ev_Rule e) \<le> es_WindowCount (rs_State res)
               \<and> (\<forall>(x, r) \<in> set past. rs_Alert r \<longrightarrow> x + r_Cooldown (ev_Rule e) \<le> t))
          \<and> (rs_Suppressed res \<longleftrightarrow>
               (\<exists>(x, r) \<in> set past. rs_Alert r \<and> t < x + r_Cooldown (ev_Rule e)))
          \<and> (rs_Alert res \<longrightarrow> rs_SuppressedCount res
               = int (length (filter (\<lambda>(x, r). rs_Suppressed r) (since_alert past))))"
proof -
  define fp where "fp = ev_Fingerprint e"
  define past where "past = live (evictExpired now a) h fp"
  have inv: "agg_inv window cooldown (a, h)"
    using agg.run_keeps [OF assms(2)] agg_inv_New [OF assms(1)] by blast
  from agg_inv_record(2) [OF inv assms(3-6)] obtain item where
    gi: "group_inv (window fp) (cooldown fp) (a_maxSamples a) item past"
    and rg: "record_group (a_maxSamples a) now e item = (the (gm_get (a_groups a') fp), res)"
    unfolding fp_def past_def by blast
  have pos: "0 < r_Window (ev_Rule e)" "0 \<le> r_Cooldown (ev_Rule e)"
    using assms(3) by (auto simp: agg_Record_def split: if_splits)
  have gi': "group_inv (r_Window (ev_Rule e)) (r_Cooldown (ev_Rule e)) (a_maxSamples a) item past"
    using gi assms(4,5) by (simp add: fp_def)
  have al: "alert_inv (r_Cooldown (ev_Rule e)) (g_state item) past"
    using gi' by (simp add: group_inv_def)
  note facts = record_group_inv(2-5) [OF gi' pos assms(6) rg]
  note over = cooldown_over [OF al pos(2), of "event_time now e"]
  have "rs_Suppressed res \<longleftrightarrow>
      \<not> (\<forall>(x, r) \<in> set past. rs_Alert r \<longrightarrow> x + r_Cooldown (ev_Rule e) \<le> event_time now e)"
    unfolding over [symmetric] using facts(3) by (simp add: not_le)
  also have "\<dots> = (\<exists>(x, r) \<in> set past. rs_Alert r \<and> event_time now e < x + r_Cooldown (ev_Rule e))"
    by (simp add: not_le case_prod_unfold)
  finally have sup: "rs_Suppressed res \<longleftrightarrow> \<dots>" .
  have cnt: "rs_Alert res \<longrightarrow> rs_SuppressedCount res
      = int (length (filter (\<lambda>(x, r). rs_Suppressed r) (since_alert past)))"
    using facts(4) al by (simp add: alert_inv_def)
  have win: "es_WindowCount (rs_State res) = int (length (filter
      (\<lambda>x. latest (map fst past @ [event_time now e]) - r_Window (ev_Rule e) \<le> x)
      (map fst past @ [event_time now e])))"
    using facts(1) by (simp only: window_ref_def length_sort)
  show ?thesis
    unfolding Let_def fp_def [symmetric] past_def [symmetric]
    using win facts(2) [unfolded over] sup cnt by blast
qed

text \<open>
  C32. Memory is bounded and the window stays sorted: after any sequence of operations on a
  new aggregator there are at most \<open>max_groups\<close> groups, one per non-empty fingerprint, each
  with at most \<open>max_samples\<close> samples, all different, and timestamps that are sorted and lie
  within one window.
\<close>

theorem Aggregator_bounded:
  assumes "aggregate_New n ttl m = Inr a0"
    and "run (agg_step window cooldown) (a0, \<lambda>_. []) ops (a, h)"
  shows "int (length (a_groups a)) \<le> n \<and> gm_wf (a_groups a) \<and> [] \<notin> fst ` set (a_groups a)
    \<and> (\<forall>k g. gm_get (a_groups a) k = Some g \<longrightarrow>
         distinct (es_Samples (g_state g)) \<and> int (length (es_Samples (g_state g))) \<le> m
         \<and> sorted (g_timestamps g)
         \<and> (\<forall>t \<in> set (g_timestamps g). g_watermark g - window k \<le> t))"
proof -
  have "agg_inv window cooldown (a, h)"
    using agg.run_keeps [OF assms(2)] agg_inv_New [OF assms(1)] by blast
  note inv = this agg_inv_group [OF this]
  have "agg_ok a0 \<and> same_settings a0 a0"
    using aggregate_New_ok [OF assms(1)] by (simp add: same_settings_def)
  then have "agg_ok a" "same_settings a a0"
    using agg_settings.run_keeps [OF assms(2), of a0] by auto
  moreover have "a_maxGroups a0 = n" "a_maxSamples a0 = m"
    using assms(1) by (auto simp: aggregate_New_def split: if_splits)
  ultimately show ?thesis
    using inv(2) by (auto simp: agg_ok_def same_settings_def group_inv_def sample_inv_def
      window_inv_def window_ref_def)
qed


text \<open>
  Making room is deterministic although a Go map has no order: when the map is full, the
  group removed is the one with the least update time, the least fingerprint among equals,
  and two iteration orders of the same map remove the same group; when there is room nothing
  is removed.
\<close>

theorem evictForInsert_deterministic:
  assumes "agg_ok a" and "agg_ok b" and "set (a_groups b) = set (a_groups a)"
    and "a_maxGroups b = a_maxGroups a"
  shows "(if int (length (a_groups a)) < a_maxGroups a then evictForInsert a = a
      else \<exists>k. is_oldest (a_groups a) k \<and> evictForInsert a = a\<lparr>a_groups := gm_del k (a_groups a)\<rparr>)
    \<and> set (a_groups (evictForInsert b)) = set (a_groups (evictForInsert a))"
proof -
  have len: "length (a_groups b) = length (a_groups a)"
    using assms by (metis agg_ok_def distinct_card distinct_map)
  show ?thesis
  proof (cases "int (length (a_groups a)) < a_maxGroups a")
    case True
    then show ?thesis using assms len by (simp add: evictForInsert_def)
  next
    case False
    with assms(1) obtain k where k: "is_oldest (a_groups a) k"
        "evictForInsert a = a\<lparr>a_groups := gm_del k (a_groups a)\<rparr>"
      using evictForInsert_oldest [of a] by (auto simp: agg_ok_def)
    from False assms(2,4) len obtain k' where k': "is_oldest (a_groups b) k'"
        "evictForInsert b = b\<lparr>a_groups := gm_del k' (a_groups b)\<rparr>"
      using evictForInsert_oldest [of b] by (auto simp: agg_ok_def)
    have "k' = k" by (rule is_oldest_unique [OF k'(1) k(1) assms(3)])
    with False k k'(2) assms(3) show ?thesis by (auto simp: AList.delete_eq)
  qed
qed



subsection \<open>Examples\<close>

definition example_agg :: Aggregator where
  "example_agg = \<lparr>a_maxGroups = 2, a_groupTTL = hour, a_maxSamples = 3, a_groups = []\<rparr>"

definition example_event :: "gotime \<Rightarrow> (bool \<times> string) Event" where
  "example_event t =
     \<lparr>ev_Rule = example_rule\<lparr>r_Threshold := 2, r_Window := minute, r_Cooldown := minute\<rparr>,
      ev_Fingerprint = ''fp'', ev_Entry = example_error\<lparr>le_Timestamp := t\<rparr>\<rparr>"

lemma example_agg_New: "aggregate_New 2 hour 3 = Inr example_agg"
  by (simp add: aggregate_New_def example_agg_def)

lemma agg_Record_accepts:
  "ev_Fingerprint e \<noteq> [] \<Longrightarrow> 0 < r_Threshold (ev_Rule e) \<Longrightarrow> 0 < r_Window (ev_Rule e) \<Longrightarrow>
   0 \<le> r_Cooldown (ev_Rule e) \<Longrightarrow> \<exists>a' res. agg_Record a now e = (a', Inr res)"
  by (simp add: agg_Record_def Let_def split: prod.splits)

definition example_state1 :: EventState where
  "example_state1 = zero_EventState\<lparr>es_Fingerprint := ''fp'', es_FirstSeen := 40, es_LastSeen := 40,
     es_WindowCount := 1, es_TotalCount := 1, es_FirstSample := le_Raw example_error,
     es_LatestSample := le_Raw example_error, es_Samples := [le_Raw example_error]\<rparr>"

definition example_agg1 :: Aggregator where
  "example_agg1 = example_agg\<lparr>a_groups := [(''fp'', \<lparr>g_state = example_state1, g_timestamps = [40],
     g_watermark = 40, g_updatedAt = 100\<rparr>)]\<rparr>"

definition example_result1 :: Result where
  "example_result1 = \<lparr>rs_Alert = False, rs_Suppressed = False, rs_SuppressedCount = 0,
     rs_State = example_state1\<rparr>"

definition example_history1 :: history where
  "example_history1 = (\<lambda>k. if k = ''fp'' then [(40, example_result1)] else [])"

lemma example_agg_record:
  "agg_Record example_agg 100 (example_event 40) = (example_agg1, Inr example_result1)"
  by code_simp

lemma example_event_simps [simp]:
  "ev_Fingerprint (example_event t) = ''fp''" "r_Threshold (ev_Rule (example_event t)) = 2"
  "r_Window (ev_Rule (example_event t)) = minute" "r_Cooldown (ev_Rule (example_event t)) = minute"
  "event_time now (example_event t) = (if t = zero_time then now else t)"
  by (simp_all add: example_event_def event_time_def)

lemma example_agg_run:
  "run (agg_step (\<lambda>_. minute) (\<lambda>_. minute)) (example_agg, \<lambda>_. []) [OpRecord 100 (example_event 40)]
     (example_agg1, example_history1)"
proof -
  have "agg_step (\<lambda>_. minute) (\<lambda>_. minute) (OpRecord 100 (example_event 40)) (example_agg, \<lambda>_. [])
      (example_agg1, live example_agg1 ((live (evictExpired 100 example_agg) (\<lambda>_. []))
         (''fp'' := live (evictExpired 100 example_agg) (\<lambda>_. []) ''fp'' @ [(40, example_result1)])))"
    using step_Record [OF example_agg_record, of "\<lambda>_. minute" "\<lambda>_. minute" "\<lambda>_. []"] by simp
  moreover have "live example_agg1 ((live (evictExpired 100 example_agg) (\<lambda>_. []))
      (''fp'' := live (evictExpired 100 example_agg) (\<lambda>_. []) ''fp'' @ [(40, example_result1)]))
      = example_history1"
    by (rule ext) (simp add: live_def example_agg1_def example_history1_def)
  ultimately have "run (agg_step (\<lambda>_. minute) (\<lambda>_. minute)) (example_agg, \<lambda>_. [])
      ([] @ [OpRecord 100 (example_event 40)]) (example_agg1, example_history1)"
    by (intro run_step [OF run_start]) simp
  then show ?thesis by simp
qed

theorem Record_alerting_witness:
  "\<exists>a' res. agg_Record example_agg1 200 (example_event 70) = (a', Inr res)
     \<and> es_WindowCount (rs_State res) = 2 \<and> rs_Alert res \<and> \<not> rs_Suppressed res
     \<and> rs_SuppressedCount res = 0"
proof -
  obtain a' res where rec: "agg_Record example_agg1 200 (example_event 70) = (a', Inr res)"
    using agg_Record_accepts [of "example_event 70" example_agg1 200] by auto
  have past: "live (evictExpired 200 example_agg1) example_history1 ''fp'' = [(40, example_result1)]"
    by (simp add: live_def evictExpired_def example_agg1_def example_agg_def example_history1_def)
  show ?thesis
    using Record_alerting [OF example_agg_New example_agg_run rec] past rec
    by (simp add: latest_def example_result1_def since_alert_def)
qed

theorem Aggregator_bounded_witness:
  "length (a_groups example_agg1) \<le> 2 \<and> distinct (es_Samples example_state1)
   \<and> length (es_Samples example_state1) \<le> 3"
proof -
  obtain g where get: "gm_get (a_groups example_agg1) ''fp'' = Some g" and st: "g_state g = example_state1"
    by (simp add: example_agg1_def)
  have "length (a_groups example_agg1) \<le> 2 \<and> distinct (es_Samples (g_state g))
      \<and> length (es_Samples (g_state g)) \<le> 3"
    using Aggregator_bounded [OF example_agg_New example_agg_run] get by auto
  then show ?thesis by (simp add: st)
qed

theorem evictForInsert_deterministic_witness:
  "a_groups (evictForInsert (example_agg1\<lparr>a_maxGroups := 1\<rparr>)) = []"
proof -
  have ok: "agg_ok (example_agg1\<lparr>a_maxGroups := 1\<rparr>)"
    by (simp add: agg_ok_def example_agg1_def example_agg_def)
  obtain k where "is_oldest (a_groups (example_agg1\<lparr>a_maxGroups := 1\<rparr>)) k"
      "evictForInsert (example_agg1\<lparr>a_maxGroups := 1\<rparr>)
         = example_agg1\<lparr>a_maxGroups := 1, a_groups := gm_del k (a_groups example_agg1)\<rparr>"
    using evictForInsert_deterministic [OF ok ok] by (auto simp: example_agg1_def example_agg_def)
  then show ?thesis by (simp add: is_oldest_def example_agg1_def)
qed


end
