(* ===== verification/Context_Buffer.thy ===== *)
theory Context_Buffer
  imports Log_Entry
begin

text \<open>
  The model of \<open>internal/context/buffer.go\<close> and \<open>store.go\<close>: the ring buffer of context
  lines and the store with one buffer per container. A receiver that may be nil is an
  option. Operations run under the locks of the package, so each is one step. Entries are
  values, so the deep copies of the code are the identity.

  The interface \<open>bounded_log\<close> says what the pipeline relies on: an append adds one entry at
  the end and forgets the oldest beyond the capacity, and \<open>Last\<close> reads the end. The ring
  buffer implements it through the abstraction \<open>content\<close>.
\<close>

section \<open>The interface\<close>

locale bounded_log =
  fixes inv :: "'b \<Rightarrow> bool" and cap :: "'b \<Rightarrow> nat" and content :: "'b \<Rightarrow> 'e list"
    and add :: "'e \<Rightarrow> 'b \<Rightarrow> 'b" and newest :: "'b \<Rightarrow> int \<Rightarrow> 'e list" and size_of :: "'b \<Rightarrow> int"
  assumes add_inv: "inv b \<Longrightarrow> inv (add e b)"
    and add_cap: "inv b \<Longrightarrow> cap (add e b) = cap b"
    and content_bound: "inv b \<Longrightarrow> length (content b) \<le> cap b"
    and content_add: "inv b \<Longrightarrow> content (add e b) = lastn (cap b) (content b @ [e])"
    and newest_content: "inv b \<Longrightarrow> newest b limit = lastn (nat limit) (content b)"
    and size_content: "inv b \<Longrightarrow> size_of b = int (length (content b))"
begin

lemma fold_add_inv: "inv b \<Longrightarrow> inv (fold add es b) \<and> cap (fold add es b) = cap b"
  by (induction es arbitrary: b) (auto simp: add_inv add_cap)

lemma content_fold_add: "inv b \<Longrightarrow> content (fold add es b) = lastn (cap b) (content b @ es)"
proof (induction es arbitrary: b)
  case Nil
  then show ?case by (simp add: content_bound)
next
  case (Cons e es)
  then show ?case by (simp add: add_inv add_cap content_add lastn_append_lastn)
qed

lemma newest_fold_add:
  "inv b \<Longrightarrow> newest (fold add es b) limit = lastn (min (nat limit) (cap b)) (content b @ es)"
  by (simp add: newest_content fold_add_inv content_fold_add)

end


section \<open>The ring buffer\<close>

record Buffer =
  b_entries :: "LogEntry list"
  b_start :: nat
  b_length :: nat
  b_capacity :: nat

datatype context_error = BufferCapacity | StoreCapacity

text \<open>The zero value of an entry fills the array that \<open>make\<close> returns.\<close>

definition zero_LogEntry :: LogEntry where
  "zero_LogEntry = \<lparr>le_ContainerID = [], le_ContainerName = [], le_Timestamp = zero_time,
     le_Stream = [], le_Level = LevelUnknown, le_Message = [], le_Fields = None, le_Raw = []\<rparr>"

definition NewBuffer :: "int \<Rightarrow> context_error + Buffer" where
  "NewBuffer capacity =
     (if capacity \<le> 0 then Inl BufferCapacity
      else Inr \<lparr>b_entries = replicate (nat capacity) zero_LogEntry, b_start = 0, b_length = 0,
                b_capacity = nat capacity\<rparr>)"

definition buffer_append :: "LogEntry \<Rightarrow> Buffer \<Rightarrow> Buffer" where
  "buffer_append entry b =
     (if b_length b = b_capacity b
      then b\<lparr>b_start := (b_start b + 1) mod b_capacity b,
             b_entries := (b_entries b)[b_start b := entry]\<rparr>
      else b\<lparr>b_length := b_length b + 1,
             b_entries := (b_entries b)[(b_start b + b_length b) mod b_capacity b := entry]\<rparr>)"

definition buffer_Append :: "LogEntry \<Rightarrow> Buffer option \<Rightarrow> Buffer option" where
  "buffer_Append entry receiver = map_option (buffer_append entry) receiver"

definition buffer_last :: "Buffer \<Rightarrow> int \<Rightarrow> LogEntry list" where
  "buffer_last b limit =
     (let limit = (if limit > int (b_length b) then b_length b else nat limit);
          first = (b_start b + b_length b - limit) mod b_capacity b
      in map (\<lambda>index. b_entries b ! ((first + index) mod b_capacity b)) [0..<limit])"

definition buffer_Last :: "Buffer option \<Rightarrow> int \<Rightarrow> LogEntry list" where
  "buffer_Last receiver limit =
     (case receiver of None \<Rightarrow> [] | Some b \<Rightarrow> if limit \<le> 0 then [] else buffer_last b limit)"

definition buffer_Len :: "Buffer option \<Rightarrow> int" where
  "buffer_Len receiver = (case receiver of None \<Rightarrow> 0 | Some b \<Rightarrow> int (b_length b))"


section \<open>The store\<close>

record Store =
  s_capacity :: int
  s_buffers :: "(string, Buffer) gomap"

definition NewStore :: "int \<Rightarrow> context_error + Store" where
  "NewStore capacity =
     (if capacity \<le> 0 then Inl StoreCapacity else Inr \<lparr>s_capacity = capacity, s_buffers = []\<rparr>)"

definition containerKey :: "LogEntry \<Rightarrow> string" where
  "containerKey entry =
     (if le_ContainerName entry \<noteq> [] then le_ContainerName entry else le_ContainerID entry)"

text \<open>
  The buffer of a container, made on first use. \<open>NewBuffer\<close> cannot fail here, as the
  capacity of a store is positive; the code drops its error and would append to a nil
  buffer, which is a no-op.
\<close>

definition store_Append :: "LogEntry \<Rightarrow> Store \<Rightarrow> Store" where
  "store_Append entry s =
     (let container = containerKey entry;
          buffer = (case gm_get (s_buffers s) container of
                      Some b \<Rightarrow> Some b
                    | None \<Rightarrow> (case NewBuffer (s_capacity s) of Inl _ \<Rightarrow> None | Inr b \<Rightarrow> Some b))
      in case buffer_Append entry buffer of
           None \<Rightarrow> s
         | Some b \<Rightarrow> s\<lparr>s_buffers := gm_set container b (s_buffers s)\<rparr>)"

definition store_Last :: "Store \<Rightarrow> string \<Rightarrow> int \<Rightarrow> LogEntry list" where
  "store_Last s container limit = buffer_Last (gm_get (s_buffers s) container) limit"

definition store_Remove :: "string \<Rightarrow> Store \<Rightarrow> Store" where
  "store_Remove container s = s\<lparr>s_buffers := gm_del container (s_buffers s)\<rparr>"

definition store_Len :: "Store \<Rightarrow> string \<Rightarrow> int" where
  "store_Len s container = buffer_Len (gm_get (s_buffers s) container)"


section \<open>The ring buffer implements the interface\<close>

definition buffer_inv :: "Buffer \<Rightarrow> bool" where
  "buffer_inv b \<longleftrightarrow> 0 < b_capacity b \<and> length (b_entries b) = b_capacity b
     \<and> b_start b < b_capacity b \<and> b_length b \<le> b_capacity b"

definition content :: "Buffer \<Rightarrow> LogEntry list" where
  "content b = map (\<lambda>i. b_entries b ! ((b_start b + i) mod b_capacity b)) [0..<b_length b]"

lemma length_content [simp]: "length (content b) = b_length b"
  by (simp add: content_def)

lemma ring_neq: "(s::nat) < c \<Longrightarrow> 0 < j \<Longrightarrow> j < c \<Longrightarrow> (s + j) mod c \<noteq> s"
  by (cases "s + j < c") (auto simp: le_mod_geq)

lemma ring_neq_shift:
  assumes "i < n" and "n - i < c"
  shows "((s::nat) + n) mod c \<noteq> (s + i) mod c"
proof -
  obtain j where n: "n = i + j" and j: "0 < j" "j < c"
    using assms by (metis add_diff_inverse_nat not_less_iff_gr_or_eq zero_less_diff)
  have "((s + i) mod c + j) mod c \<noteq> (s + i) mod c"
    using j by (intro ring_neq) auto
  then show ?thesis by (simp add: n mod_add_left_eq add.assoc)
qed

lemma NewBuffer_inv: "NewBuffer n = Inr b \<Longrightarrow> buffer_inv b \<and> content b = [] \<and> b_capacity b = nat n"
  by (auto simp: NewBuffer_def buffer_inv_def content_def split: if_splits)

lemma buffer_append_inv:
  "buffer_inv b \<Longrightarrow> buffer_inv (buffer_append e b) \<and> b_capacity (buffer_append e b) = b_capacity b"
  by (auto simp: buffer_inv_def buffer_append_def)

lemma content_append_full:
  assumes "buffer_inv b" and "b_length b = b_capacity b"
  shows "content (buffer_append e b) = tl (content b) @ [e]"
proof (rule nth_equalityI)
  let ?c = "b_capacity b" and ?s = "b_start b"
  have c: "0 < ?c" "?s < ?c" "length (b_entries b) = ?c" using assms by (auto simp: buffer_inv_def)
  show "length (content (buffer_append e b)) = length (tl (content b) @ [e])"
    using c assms(2) by (simp add: buffer_append_def)
  fix i assume "i < length (content (buffer_append e b))"
  then have i: "i < ?c" using assms(2) by (simp add: buffer_append_def)
  have shift: "((?s + 1) mod ?c + i) mod ?c = (?s + (i + 1)) mod ?c" by (simp add: mod_add_left_eq)
  have nth: "content (buffer_append e b) ! i = (b_entries b)[?s := e] ! ((?s + (i + 1)) mod ?c)"
    using i assms(2) shift by (simp add: content_def buffer_append_def)
  show "content (buffer_append e b) ! i = (tl (content b) @ [e]) ! i"
  proof (cases "i + 1 = ?c")
    case True
    then show ?thesis using nth c assms(2) by (simp add: nth_append)
  next
    case False
    with i have j: "i + 1 < ?c" by simp
    have "(?s + (i + 1)) mod ?c \<noteq> ?s" using ring_neq [OF c(2) _ j] by simp
    then show ?thesis using nth j assms(2) by (simp add: nth_append nth_tl content_def)
  qed
qed

lemma content_append_free:
  assumes "buffer_inv b" and "b_length b < b_capacity b"
  shows "content (buffer_append e b) = content b @ [e]"
proof (rule nth_equalityI)
  let ?c = "b_capacity b" and ?s = "b_start b" and ?n = "b_length b"
  have c: "?s < ?c" "length (b_entries b) = ?c" using assms by (auto simp: buffer_inv_def)
  show "length (content (buffer_append e b)) = length (content b @ [e])"
    using assms(2) by (simp add: buffer_append_def)
  fix i assume "i < length (content (buffer_append e b))"
  then have i: "i \<le> ?n" using assms(2) by (simp add: buffer_append_def)
  have nth: "content (buffer_append e b) ! i
      = (b_entries b)[(?s + ?n) mod ?c := e] ! ((?s + i) mod ?c)"
    using i assms(2) by (simp add: content_def buffer_append_def nth_append)
  show "content (buffer_append e b) ! i = (content b @ [e]) ! i"
  proof (cases "i = ?n")
    case True
    then show ?thesis using nth c assms(2) by (simp add: nth_append)
  next
    case False
    have "(?s + ?n) mod ?c \<noteq> (?s + i) mod ?c"
      using ring_neq_shift [of i ?n ?c ?s] i False assms(2) by simp
    then show ?thesis using nth i False by (simp add: nth_append content_def)
  qed
qed

lemma buffer_last_content:
  assumes "buffer_inv b"
  shows "buffer_Last (Some b) limit = lastn (nat limit) (content b)"
proof (cases "limit \<le> 0")
  case True
  then show ?thesis by (simp add: buffer_Last_def lastn_def)
next
  case False
  let ?c = "b_capacity b" and ?s = "b_start b" and ?n = "b_length b"
  define k where "k = min (nat limit) ?n"
  have lim: "(if limit > int ?n then ?n else nat limit) = k" using False by (auto simp: k_def)
  have "?s + ?n - k = ?s + (?n - k)" by (simp add: k_def)
  then have "((?s + ?n - k) mod ?c + i) mod ?c = (?s + (?n - k + i)) mod ?c" for i
    by (simp only: mod_add_left_eq add.assoc)
  then have "buffer_last b limit = map (\<lambda>i. b_entries b ! ((?s + (?n - k + i)) mod ?c)) [0..<k]"
    unfolding buffer_last_def lim Let_def by simp
  also have "\<dots> = drop (?n - k) (content b)"
    by (rule nth_equalityI) (auto simp: content_def k_def)
  finally show ?thesis using False by (auto simp: buffer_Last_def lastn_def k_def min_def)
qed

interpretation ring: bounded_log buffer_inv b_capacity content buffer_append
  "\<lambda>b. buffer_Last (Some b)" "\<lambda>b. buffer_Len (Some b)"
proof
  fix b e limit assume inv: "buffer_inv b"
  show "buffer_inv (buffer_append e b)" "b_capacity (buffer_append e b) = b_capacity b"
    using buffer_append_inv [OF inv] by simp_all
  show "length (content b) \<le> b_capacity b" using inv by (simp add: buffer_inv_def)
  show "content (buffer_append e b) = lastn (b_capacity b) (content b @ [e])"
  proof (cases "b_length b < b_capacity b")
    case True
    then show ?thesis by (simp add: content_append_free [OF inv])
  next
    case False
    with inv have "b_length b = b_capacity b" by (simp add: buffer_inv_def)
    then show ?thesis using inv
      by (cases "content b") (auto simp: content_append_full lastn_def buffer_inv_def dest: arg_cong [where f = length])
  qed
  show "buffer_Last (Some b) limit = lastn (nat limit) (content b)" by (rule buffer_last_content [OF inv])
  show "buffer_Len (Some b) = int (length (content b))" by (simp add: buffer_Len_def)
qed


section \<open>The store keeps the containers apart\<close>

datatype store_op = SAppend LogEntry | SRemove string

fun store_apply :: "store_op \<Rightarrow> Store \<Rightarrow> Store" where
  "store_apply (SAppend e) s = store_Append e s"
| "store_apply (SRemove c) s = store_Remove c s"

text \<open>The reference: everything appended for a container since it was last removed.\<close>

fun log_step :: "string \<Rightarrow> store_op \<Rightarrow> LogEntry list \<Rightarrow> LogEntry list" where
  "log_step c (SAppend e) log = (if containerKey e = c then log @ [e] else log)"
| "log_step c (SRemove d) log = (if d = c then [] else log)"

definition store_content :: "Store \<Rightarrow> string \<Rightarrow> LogEntry list" where
  "store_content s c = (case gm_get (s_buffers s) c of None \<Rightarrow> [] | Some b \<Rightarrow> content b)"

definition store_inv :: "int \<Rightarrow> Store \<Rightarrow> bool" where
  "store_inv n s \<longleftrightarrow> 0 < n \<and> s_capacity s = n \<and>
     (\<forall>c b. gm_get (s_buffers s) c = Some b \<longrightarrow> buffer_inv b \<and> b_capacity b = nat n)"

lemma NewStore_inv: "NewStore n = Inr s \<Longrightarrow> store_inv n s \<and> store_content s c = []"
  by (auto simp: NewStore_def store_inv_def store_content_def split: if_splits)

lemma NewBuffer_Ex: "0 < n \<Longrightarrow> \<exists>b. NewBuffer n = Inr b \<and> buffer_inv b \<and> content b = [] \<and> b_capacity b = nat n"
  using NewBuffer_inv [of n] by (simp add: NewBuffer_def)

lemma store_Append_spec:
  assumes inv: "store_inv n s"
  shows "store_inv n (store_Append e s)
    \<and> store_content (store_Append e s) c
        = (if c = containerKey e then lastn (nat n) (store_content s c @ [e]) else store_content s c)"
proof -
  obtain b where b: "buffer_inv b" "b_capacity b = nat n" "content b = store_content s (containerKey e)"
    and s: "store_Append e s = s\<lparr>s_buffers := gm_set (containerKey e) (buffer_append e b) (s_buffers s)\<rparr>"
  proof (cases "gm_get (s_buffers s) (containerKey e)")
    case None
    obtain b where "NewBuffer n = Inr b" "buffer_inv b" "content b = []" "b_capacity b = nat n"
      using NewBuffer_Ex [of n] inv by (auto simp: store_inv_def)
    with None inv that [of b] show ?thesis
      by (simp add: store_Append_def buffer_Append_def store_content_def store_inv_def)
  next
    case (Some b)
    with inv that [of b] show ?thesis
      by (simp add: store_Append_def buffer_Append_def store_content_def store_inv_def)
  qed
  then show ?thesis
    using inv ring.add_inv [OF b(1)] ring.add_cap [OF b(1)] ring.content_add [OF b(1)]
    by (auto simp: store_inv_def store_content_def gm_get_set split: if_splits)
qed

lemma store_Remove_spec:
  "store_inv n s \<Longrightarrow> store_inv n (store_Remove d s)
    \<and> store_content (store_Remove d s) c = (if c = d then [] else store_content s c)"
  by (auto simp: store_Remove_def store_inv_def store_content_def gm_get_del)

lemma store_run:
  assumes "NewStore n = Inr s"
  shows "store_inv n (fold store_apply ops s)
    \<and> store_content (fold store_apply ops s) c = lastn (nat n) (fold (log_step c) ops [])"
proof (induction ops rule: rev_induct)
  case Nil
  then show ?case using NewStore_inv [OF assms] by simp
next
  case (snoc op ops)
  then show ?case
    using store_Append_spec [of n] store_Remove_spec [of n]
    by (cases op) (auto simp: lastn_append_lastn)
qed

lemma buffer_nil: "buffer_Last None limit = []" "buffer_Len None = 0"
  by (simp_all add: buffer_Last_def buffer_Len_def)

lemma store_Last_content: "store_inv n s \<Longrightarrow> store_Last s c limit = lastn (nat limit) (store_content s c)"
  by (cases "gm_get (s_buffers s) c")
     (auto simp: store_Last_def store_inv_def store_content_def buffer_last_content buffer_nil)

lemma store_Len_content: "store_inv n s \<Longrightarrow> store_Len s c = int (length (store_content s c))"
  by (auto simp: store_Len_def store_content_def buffer_Len_def split: option.splits)

text \<open>
  C13. The context store refines one unbounded log per container: after any sequence of
  appends and removals, \<open>Last\<close> returns the newest entries of the container since it was last
  removed, in order of arrival, never more than the capacity or the limit, and entries of
  other containers have no influence.
\<close>

theorem store_refines_logs:
  assumes "NewStore n = Inr s"
  shows "store_Last (fold store_apply ops s) c limit
      = lastn (min (nat limit) (nat n)) (fold (log_step c) ops [])
    \<and> store_Len (fold store_apply ops s) c
      = int (min (nat n) (length (fold (log_step c) ops [])))"
  using store_run [OF assms, of ops c]
  by (simp add: store_Last_content [of n] store_Len_content [of n])

definition example_line :: "string \<Rightarrow> string \<Rightarrow> LogEntry" where
  "example_line c raw = zero_LogEntry\<lparr>le_ContainerName := c, le_Raw := raw\<rparr>"

theorem store_refines_logs_witness:
  "\<exists>s. NewStore 2 = Inr s \<and>
     map le_Raw (store_Last (fold store_apply
       [SAppend (example_line ''a'' ''1''), SAppend (example_line ''b'' ''x''),
        SAppend (example_line ''a'' ''2''), SAppend (example_line ''a'' ''3'')] s) ''a'' 5)
     = [''2'', ''3'']"
proof -
  obtain s where s: "NewStore 2 = Inr s" by (simp add: NewStore_def)
  show ?thesis
    using store_refines_logs [OF s, of "[SAppend (example_line ''a'' ''1''), SAppend (example_line ''b'' ''x''),
        SAppend (example_line ''a'' ''2''), SAppend (example_line ''a'' ''3'')]" "''a''" 5] s
    by (intro exI [of _ s]) (simp add: example_line_def containerKey_def zero_LogEntry_def lastn_def)
qed

end
