(* ===== verification/Capture.thy ===== *)
theory Capture
  imports Context_Buffer
begin

text \<open>
  The model of \<open>internal/context/capture.go\<close>: the bounded rendering of captured context and
  the collector that waits for the lines after a trigger.

  The collector is used by several goroutines: the pipeline adds entries, a timer and a
  shutdown may finish it at any moment. Its critical sections, the send on the result
  channel and the closing of the channel are separate steps of a transition system, and the
  lemmas hold for every interleaving.
\<close>

section \<open>Rendering\<close>

record Capture =
  cp_Before :: "LogEntry list"
  cp_Trigger :: LogEntry
  cp_After :: "LogEntry list"
  cp_TimedOut :: bool

definition capture_Entries :: "Capture \<Rightarrow> LogEntry list" where
  "capture_Entries c = cp_Before c @ [cp_Trigger c] @ cp_After c"

definition lineFor :: "LogEntry \<Rightarrow> string" where
  "lineFor entry = (if le_Raw entry \<noteq> [] then le_Raw entry else le_Message entry)"

text \<open>A continuation byte of UTF-8 has the form \<open>10xxxxxx\<close>.\<close>

definition continuation :: "char \<Rightarrow> bool" where
  "continuation c \<longleftrightarrow> 128 \<le> (of_char c :: nat) \<and> (of_char c :: nat) < 192"

definition isUTF8Boundary :: "string \<Rightarrow> nat \<Rightarrow> bool" where
  "isUTF8Boundary value index =
     (if index = length value then True else \<not> continuation (value ! index))"

fun truncate_loop :: "string \<Rightarrow> nat \<Rightarrow> nat" where
  "truncate_loop value 0 = 0"
| "truncate_loop value (Suc n) =
     (if \<not> isUTF8Boundary value (Suc n) then truncate_loop value n else Suc n)"

definition truncateUTF8 :: "string \<Rightarrow> int \<Rightarrow> string" where
  "truncateUTF8 value maxBytes =
     (if int (length value) \<le> maxBytes then value
      else take (truncate_loop value (nat maxBytes)) value)"

text \<open>
  The loop over the preceding entries runs from the nearest to the farthest and breaks at
  the first line that does not fit; the lines collected are then reversed in place. The loop
  over the following entries is the same, forwards.
\<close>

fun take_fitting :: "int \<Rightarrow> LogEntry list \<Rightarrow> string list \<times> int" where
  "take_fitting remaining [] = ([], remaining)"
| "take_fitting remaining (e # es) =
     (let line = lineFor e in
      if int (length line) + 1 > remaining then ([], remaining)
      else let (lines, left) = take_fitting (remaining - (int (length line) + 1)) es in
        (line # lines, left))"

definition capture_Lines :: "Capture \<Rightarrow> int \<Rightarrow> string list" where
  "capture_Lines c maxBytes =
     (if maxBytes \<le> 0 then []
      else let trigger = lineFor (cp_Trigger c) in
        if int (length trigger) \<ge> maxBytes then [truncateUTF8 trigger maxBytes]
        else let (before, remaining) = take_fitting (maxBytes - int (length trigger)) (rev (cp_Before c));
                 (after, _) = take_fitting remaining (cp_After c)
             in rev before @ [trigger] @ after)"


subsection \<open>Truncation keeps whole characters\<close>

text \<open>A character: a byte that is not a continuation byte, followed by continuation bytes.\<close>

definition utf8_char :: "string \<Rightarrow> bool" where
  "utf8_char u \<longleftrightarrow> u \<noteq> [] \<and> \<not> continuation (hd u) \<and> list_all continuation (tl u)"

lemma truncate_loop_le: "truncate_loop value n \<le> n"
  by (induction n) (auto intro: le_SucI)

lemma truncate_loop_boundary:
  "truncate_loop value n = 0 \<or> isUTF8Boundary value (truncate_loop value n)"
  by (induction n) auto

lemma truncate_loop_greatest:
  "k \<le> n \<Longrightarrow> isUTF8Boundary value k \<Longrightarrow> k \<le> truncate_loop value n"
  by (induction n) (auto simp: le_Suc_eq)

text \<open>In a text made of characters the boundaries are the ends of characters.\<close>

lemma boundary_concat:
  assumes "list_all utf8_char us" and "n < length (concat us)" and "isUTF8Boundary (concat us) n"
  shows "\<exists>k < length us. n = length (concat (take k us))"
  using assms
proof (induction us arbitrary: n)
  case (Cons u us)
  show ?case
  proof (cases "n < length u")
    case True
    have "n = 0"
    proof (rule ccontr)
      assume "n \<noteq> 0"
      then have "u ! n \<in> set (tl u)" using True by (cases u) (auto simp: nth_Cons split: nat.splits)
      then have "continuation (u ! n)" using Cons.prems(1) by (auto simp: utf8_char_def list_all_iff)
      then show False using Cons.prems(2,3) True by (simp add: isUTF8Boundary_def nth_append)
    qed
    then show ?thesis by (intro exI [of _ 0]) simp
  next
    case False
    then have "isUTF8Boundary (concat us) (n - length u)" "n - length u < length (concat us)"
      using Cons.prems by (auto simp: isUTF8Boundary_def nth_append)
    with Cons obtain k where "k < length us" "n - length u = length (concat (take k us))" by auto
    with False show ?thesis by (intro exI [of _ "Suc k"]) auto
  qed
qed simp

lemma concat_take_boundary:
  assumes "list_all utf8_char us" and "k \<le> length us"
  shows "isUTF8Boundary (concat us) (length (concat (take k us)))"
proof (cases "k = length us")
  case True
  then show ?thesis by (simp add: isUTF8Boundary_def)
next
  case False
  with assms(2) have k: "k < length us" by simp
  have split: "concat us = concat (take k us) @ us ! k @ concat (drop (Suc k) us)"
    using k by (metis append_take_drop_id concat.simps(2) concat_append Cons_nth_drop_Suc)
  have "utf8_char (us ! k)" using assms(1) k by (simp add: list_all_length)
  then show ?thesis
    by (subst (1) split) (auto simp: isUTF8Boundary_def nth_append utf8_char_def hd_conv_nth)
qed


lemma truncateUTF8_chars:
  assumes us: "list_all utf8_char us" and n: "0 \<le> n"
  shows "\<exists>k \<le> length us. truncateUTF8 (concat us) n = concat (take k us)
    \<and> int (length (concat (take k us))) \<le> n
    \<and> (k < length us \<longrightarrow> n < int (length (concat (take (Suc k) us))))"
proof (cases "int (length (concat us)) \<le> n")
  case True
  then show ?thesis by (intro exI [of _ "length us"]) (simp add: truncateUTF8_def)
next
  case False
  define t where "t = truncate_loop (concat us) (nat n)"
  have t: "t \<le> nat n" by (simp add: t_def truncate_loop_le)
  then have lt: "t < length (concat us)" using False n by simp
  have "isUTF8Boundary (concat us) t"
    using truncate_loop_boundary [of "concat us" "nat n"] concat_take_boundary [OF us, of 0] t_def by auto
  from boundary_concat [OF us lt this] obtain k where k: "k < length us" "t = length (concat (take k us))"
    by blast
  have u: "us ! k \<noteq> []" using us k(1) by (auto simp: list_all_length utf8_char_def)
  have more: "length (concat (take (Suc k) us)) = t + length (us ! k)"
    using k by (simp add: take_Suc_conv_app_nth)
  have "nat n < length (concat (take (Suc k) us))"
  proof (rule ccontr)
    assume "\<not> nat n < length (concat (take (Suc k) us))"
    then have "length (concat (take (Suc k) us)) \<le> t"
      unfolding t_def using concat_take_boundary [OF us, of "Suc k"] k(1)
      by (intro truncate_loop_greatest) auto
    with more u show False by simp
  qed
  moreover have "take t (concat us) = concat (take k us)"
    using k by (metis append_eq_conv_conj append_take_drop_id concat_append)
  ultimately show ?thesis
    using False t n k by (intro exI [of _ k]) (auto simp: truncateUTF8_def t_def)
qed

lemma truncateUTF8_prefix: "prefix (truncateUTF8 v n) v"
  by (simp add: truncateUTF8_def take_is_prefix)

lemma truncateUTF8_le: "0 \<le> n \<Longrightarrow> int (length (truncateUTF8 v n)) \<le> n"
  using truncate_loop_le [of v "nat n"] by (auto simp: truncateUTF8_def)


subsection \<open>The byte budget of the rendered lines\<close>

definition line_cost :: "string list \<Rightarrow> int" where
  "line_cost lines = (\<Sum>l \<leftarrow> lines. int (length l) + 1)"

lemma line_cost_simps [simp]:
  "line_cost [] = 0" "line_cost (l # ls) = int (length l) + 1 + line_cost ls"
  "line_cost (ls @ ls') = line_cost ls + line_cost ls'" "line_cost (rev ls) = line_cost ls"
  by (simp_all add: line_cost_def rev_map [symmetric])

lemma length_join: "ls \<noteq> [] \<Longrightarrow> int (length (join [c] ls)) + 1 = line_cost ls"
  by (induction ls rule: induct_list012) auto

lemma take_fitting_spec:
  assumes "take_fitting r es = (ls, left)" and "0 \<le> r"
  shows "left = r - line_cost ls \<and> 0 \<le> left
    \<and> (\<exists>m \<le> length es. ls = map lineFor (take m es)
        \<and> (m < length es \<longrightarrow> left < int (length (lineFor (es ! m))) + 1))"
  using assms
proof (induction r es arbitrary: ls left rule: take_fitting.induct)
  case (1 r)
  then show ?case by simp
next
  case (2 r e es)
  show ?case
  proof (cases "int (length (lineFor e)) + 1 > r")
    case True
    with 2 show ?thesis by auto
  next
    case False
    obtain ls' where f: "take_fitting (r - (int (length (lineFor e)) + 1)) es = (ls', left)"
      and ls: "ls = lineFor e # ls'"
      using "2.prems"(1) False by (auto simp: Let_def split: prod.splits)
    have "0 \<le> r - (int (length (lineFor e)) + 1)" using False by simp
    from "2.IH" [OF refl False f this] obtain m where
      "left = r - (int (length (lineFor e)) + 1) - line_cost ls'" "0 \<le> left" "m \<le> length es"
      "ls' = map lineFor (take m es)" "m < length es \<longrightarrow> left < int (length (lineFor (es ! m))) + 1"
      by blast
    then show ?thesis by (auto simp: ls intro!: exI [of _ "Suc m"])
  qed
qed

lemma lastn_take_rev: "n \<le> length xs \<Longrightarrow> rev (take n (rev xs)) = lastn n xs"
  by (simp add: lastn_def rev_take)

lemma lastn_Suc: "n < length xs \<Longrightarrow> lastn (Suc n) xs = rev xs ! n # lastn n xs"
  by (simp add: lastn_def rev_nth Suc_diff_Suc Cons_nth_drop_Suc [symmetric])

text \<open>
  C35. \<open>Lines\<close> respects its byte budget and keeps what matters: joined by newlines the result
  is never longer than \<open>maxBytes\<close>; a trigger that fits is always there whole, together with
  the lines nearest before it and then the lines right after it, in chronological order,
  with no line left out that would still fit; a trigger that does not fit is cut.
\<close>

theorem Lines_budget:
  assumes "0 < maxBytes"
  shows "int (length (join [CHR 0x0A] (capture_Lines c maxBytes))) \<le> maxBytes
    \<and> (int (length (lineFor (cp_Trigger c))) < maxBytes \<longrightarrow>
        (\<exists>n \<le> length (cp_Before c). \<exists>m \<le> length (cp_After c).
          capture_Lines c maxBytes
            = map lineFor (lastn n (cp_Before c)) @ [lineFor (cp_Trigger c)]
              @ map lineFor (take m (cp_After c))
          \<and> (n < length (cp_Before c) \<longrightarrow>
               maxBytes < int (length (join [CHR 0x0A] (map lineFor
                 (lastn (Suc n) (cp_Before c) @ [cp_Trigger c])))))
          \<and> (m < length (cp_After c) \<longrightarrow>
               maxBytes < int (length (join [CHR 0x0A] (map lineFor
                 (lastn n (cp_Before c) @ [cp_Trigger c] @ take (Suc m) (cp_After c))))))))
    \<and> (maxBytes \<le> int (length (lineFor (cp_Trigger c))) \<longrightarrow>
        (\<exists>l. capture_Lines c maxBytes = [l] \<and> prefix l (lineFor (cp_Trigger c))))"
proof (cases "int (length (lineFor (cp_Trigger c))) < maxBytes")
  case False
  then show ?thesis
    using assms truncateUTF8_le [of maxBytes] by (auto simp: capture_Lines_def truncateUTF8_prefix)
next
  case True
  let ?t = "lineFor (cp_Trigger c)"
  obtain before r where b: "take_fitting (maxBytes - int (length ?t)) (rev (cp_Before c)) = (before, r)"
    by fastforce
  obtain after l where a: "take_fitting r (cp_After c) = (after, l)" by fastforce
  have "0 \<le> maxBytes - int (length ?t)" using True by simp
  from take_fitting_spec [OF b this] obtain n where n: "n \<le> length (cp_Before c)"
      "before = map lineFor (take n (rev (cp_Before c)))"
      "r = maxBytes - int (length ?t) - line_cost before" "0 \<le> r"
      "n < length (cp_Before c) \<longrightarrow> r < int (length (lineFor (rev (cp_Before c) ! n))) + 1"
    unfolding length_rev by blast
  from take_fitting_spec [OF a n(4)] obtain m where m: "m \<le> length (cp_After c)"
      "after = map lineFor (take m (cp_After c))" "l = r - line_cost after" "0 \<le> l"
      "m < length (cp_After c) \<longrightarrow> l < int (length (lineFor (cp_After c ! m))) + 1" by blast
  have before: "rev before = map lineFor (lastn n (cp_Before c))"
    using n(1,2) by (simp add: rev_map lastn_take_rev)
  have lines: "capture_Lines c maxBytes = rev before @ [?t] @ after"
    using assms True a b by (simp add: capture_Lines_def Let_def)
  have fits: "int (length (join [CHR 0x0A] (capture_Lines c maxBytes))) \<le> maxBytes"
    using length_join [of "capture_Lines c maxBytes" "CHR 0x0A"] n(3) m(3,4) by (simp add: lines)
  have more_before: "maxBytes < int (length (join [CHR 0x0A] (map lineFor
      (lastn (Suc n) (cp_Before c) @ [cp_Trigger c]))))" if "n < length (cp_Before c)"
    using length_join [of "map lineFor (lastn (Suc n) (cp_Before c) @ [cp_Trigger c])" "CHR 0x0A"]
      n(3,5) that before line_cost_simps(4) [of before] lastn_Suc [OF that] by simp
  have more_after: "maxBytes < int (length (join [CHR 0x0A] (map lineFor
      (lastn n (cp_Before c) @ [cp_Trigger c] @ take (Suc m) (cp_After c)))))" if "m < length (cp_After c)"
    using length_join [of "map lineFor (lastn n (cp_Before c) @ [cp_Trigger c] @ take (Suc m) (cp_After c))" "CHR 0x0A"]
      n(3) m(2,3,5) that before line_cost_simps(4) [of before] by (simp add: take_Suc_conv_app_nth)
  show ?thesis using fits True lines before m(1,2) n(1) more_before more_after
    by (intro conjI) (simp, intro impI exI [of _ n] exI [of _ m] conjI, auto)
qed


definition example_capture :: Capture where
  "example_capture = \<lparr>cp_Before = [example_line ''a'' ''far'', example_line ''a'' ''near''],
     cp_Trigger = example_line ''a'' ''trigger'', cp_After = [example_line ''a'' ''after''],
     cp_TimedOut = False\<rparr>"

theorem Lines_budget_witness:
  "int (length (join [CHR 0x0A] (capture_Lines example_capture 14))) \<le> 14
   \<and> capture_Lines example_capture 14 = [''near'', ''trigger'']"
proof -
  have "capture_Lines example_capture 14 = [''near'', ''trigger'']" by code_simp
  with Lines_budget [of 14 example_capture] show ?thesis by simp
qed

text \<open>
  Truncation never splits a character: cutting a text of UTF-8 characters at a byte
  limit gives a whole number of its leading characters, within the limit, and as many of
  them as fit.
\<close>

theorem truncateUTF8_whole_characters:
  assumes "list_all utf8_char us" and "0 \<le> n"
  shows "\<exists>k \<le> length us. truncateUTF8 (concat us) n = concat (take k us)
    \<and> int (length (concat (take k us))) \<le> n
    \<and> (k < length us \<longrightarrow> n < int (length (concat (take (Suc k) us))))"
  using truncateUTF8_chars [OF assms] .

theorem truncateUTF8_whole_characters_witness:
  "truncateUTF8 [CHR 0xC3, CHR 0xA9, CHR 0xE2, CHR 0x82, CHR 0xAC] 4 = [CHR 0xC3, CHR 0xA9]"
proof -
  define us where "us = [[CHR 0xC3, CHR 0xA9], [CHR 0xE2, CHR 0x82, CHR 0xAC]]"
  have "list_all utf8_char us" by (simp add: us_def utf8_char_def continuation_def)
  from truncateUTF8_whole_characters [OF this, of 4] obtain k where
    k: "k \<le> length us" "truncateUTF8 (concat us) 4 = concat (take k us)"
      "int (length (concat (take k us))) \<le> 4"
      "k < length us \<longrightarrow> 4 < int (length (concat (take (Suc k) us)))"
    by fastforce
  have "length us = 2" by (simp add: us_def)
  then have "k = 0 \<or> k = 1 \<or> k = 2" using k(1) by auto
  then have "k = 1" using k(3,4) by (auto simp: us_def)
  with k(2) show ?thesis by (simp add: us_def)
qed


section \<open>The collector\<close>

record CaptureConfig =
  cc_After :: int
  cc_AfterWait :: duration
  cc_MaxBytes :: int

datatype timer_state = NoTimer | Running | Stopped

text \<open>
  The result channel has a buffer of one: \<open>ac_done\<close> holds what was sent on it, \<open>ac_closed\<close>
  whether it is closed.
\<close>

record AfterCollector =
  ac_capture :: Capture
  ac_after :: int
  ac_timer :: timer_state
  ac_done :: "Capture list"
  ac_closed :: bool
  ac_finished :: bool

text \<open>The critical section of \<open>finish\<close>: only the first caller gets a result to send.\<close>

definition finish_lock :: "bool \<Rightarrow> AfterCollector \<Rightarrow> AfterCollector \<times> Capture option" where
  "finish_lock timedOut c =
     (if ac_finished c then (c, None)
      else let c = c\<lparr>ac_finished := True,
                     ac_timer := (if ac_timer c \<noteq> NoTimer then Stopped else NoTimer),
                     ac_capture := (ac_capture c)\<lparr>cp_TimedOut := timedOut\<rparr>\<rparr>
           in (c, Some (ac_capture c)))"

definition send_done :: "Capture \<Rightarrow> AfterCollector \<Rightarrow> AfterCollector" where
  "send_done result c = c\<lparr>ac_done := ac_done c @ [result]\<rparr>"

definition close_done :: "AfterCollector \<Rightarrow> AfterCollector" where
  "close_done c = c\<lparr>ac_closed := True\<rparr>"

definition collector_finish :: "bool \<Rightarrow> AfterCollector \<Rightarrow> AfterCollector" where
  "collector_finish timedOut c =
     (case finish_lock timedOut c of
        (c, None) \<Rightarrow> c
      | (c, Some result) \<Rightarrow> close_done (send_done result c))"

definition NewAfterCollector :: "LogEntry list \<Rightarrow> LogEntry \<Rightarrow> CaptureConfig \<Rightarrow> AfterCollector" where
  "NewAfterCollector before trigger config =
     (let collector =
            \<lparr>ac_capture = \<lparr>cp_Before = before, cp_Trigger = trigger, cp_After = [], cp_TimedOut = False\<rparr>,
             ac_after = cc_After config, ac_timer = NoTimer, ac_done = [], ac_closed = False,
             ac_finished = False\<rparr>
      in if cc_After config \<le> 0 then collector_finish False collector
         else collector\<lparr>ac_timer := Running\<rparr>)"

text \<open>The critical section of \<open>Add\<close>: the flag says whether the caller must finish.\<close>

definition add_lock :: "LogEntry \<Rightarrow> AfterCollector \<Rightarrow> AfterCollector \<times> bool" where
  "add_lock entry c =
     (if ac_finished c then (c, False)
      else let c = c\<lparr>ac_capture := (ac_capture c)\<lparr>cp_After := cp_After (ac_capture c) @ [entry]\<rparr>\<rparr>
           in (c, ac_after c \<le> int (length (cp_After (ac_capture c)))))"

definition collector_Add :: "LogEntry \<Rightarrow> AfterCollector \<Rightarrow> AfterCollector" where
  "collector_Add entry c =
     (let (c, shouldFinish) = add_lock entry c in
      if shouldFinish then collector_finish False c else c)"

definition collector_Cancel :: "AfterCollector \<Rightarrow> AfterCollector" where
  "collector_Cancel c = collector_finish True c"

lemma fold_Add_finished: "ac_finished c \<Longrightarrow> fold collector_Add es c = c"
  by (induction es arbitrary: c) (simp_all add: collector_Add_def add_lock_def)

lemma fold_Add_open:
  assumes "\<not> ac_finished c" and "ac_done c = []" and "int (length (cp_After (ac_capture c))) < ac_after c"
  shows "ac_done (fold collector_Add es c) =
     (if int (length (cp_After (ac_capture c)) + length es) < ac_after c then []
      else [(ac_capture c)\<lparr>cp_After := take (nat (ac_after c)) (cp_After (ac_capture c) @ es),
              cp_TimedOut := False\<rparr>])
   \<and> ac_finished (fold collector_Add es c)
       = (\<not> int (length (cp_After (ac_capture c)) + length es) < ac_after c)"
  using assms
proof (induction es arbitrary: c)
  case Nil
  then show ?case by simp
next
  case (Cons e es)
  define c' where "c' = c\<lparr>ac_capture := (ac_capture c)\<lparr>cp_After := cp_After (ac_capture c) @ [e]\<rparr>\<rparr>"
  show ?case
  proof (cases "int (length (cp_After (ac_capture c))) + 1 < ac_after c")
    case True
    then have "collector_Add e c = c'"
      using Cons.prems by (simp add: collector_Add_def add_lock_def c'_def Let_def)
    moreover have "int (length (cp_After (ac_capture c'))) < ac_after c'" "\<not> ac_finished c'" "ac_done c' = []"
      using True Cons.prems by (simp_all add: c'_def)
    ultimately show ?thesis using Cons.IH [of c'] by (simp add: c'_def)
  next
    case False
    then have full: "ac_after c = int (length (cp_After (ac_capture c))) + 1" using Cons.prems(3) by simp
    then have "collector_Add e c = collector_finish False c'"
      using Cons.prems by (simp add: collector_Add_def add_lock_def c'_def Let_def)
    moreover have "ac_finished (collector_finish False c')"
      "ac_done (collector_finish False c') = [(ac_capture c')\<lparr>cp_TimedOut := False\<rparr>]"
      using Cons.prems by (simp_all add: collector_finish_def finish_lock_def close_done_def send_done_def
          c'_def Let_def)
    ultimately show ?thesis
      using full by (simp add: fold_Add_finished c'_def nat_add_distrib)
  qed
qed


subsection \<open>All interleavings\<close>

text \<open>
  The goroutines around one collector. \<open>sy_calls\<close> are the calls of \<open>finish\<close> that have not
  yet entered the critical section, with their argument; \<open>sy_phase\<close> is the position of the
  caller that won it.
\<close>

datatype ac_phase = Idle | Sending Capture | Closing

record ac_sys =
  sy_c :: AfterCollector
  sy_calls :: "bool list"
  sy_phase :: ac_phase

datatype ac_label = LAdd LogEntry | LTimer | LCancel | LFinish bool | LSend | LClose

inductive ac_step :: "ac_label \<Rightarrow> ac_sys \<Rightarrow> ac_sys \<Rightarrow> bool" where
  ac_Add: "add_lock e (sy_c s) = (c, f) \<Longrightarrow>
     ac_step (LAdd e) s (s\<lparr>sy_c := c, sy_calls := sy_calls s @ (if f then [False] else [])\<rparr>)"
| ac_Timer: "ac_timer (sy_c s) = Running \<Longrightarrow>
     ac_step LTimer s (s\<lparr>sy_c := (sy_c s)\<lparr>ac_timer := Stopped\<rparr>, sy_calls := sy_calls s @ [True]\<rparr>)"
| ac_Cancel: "ac_step LCancel s (s\<lparr>sy_calls := sy_calls s @ [True]\<rparr>)"
| ac_Finish: "t \<in> set (sy_calls s) \<Longrightarrow> finish_lock t (sy_c s) = (c, out) \<Longrightarrow>
     ac_step (LFinish t) s (s\<lparr>sy_c := c, sy_calls := remove1 t (sy_calls s),
       sy_phase := (case out of None \<Rightarrow> sy_phase s | Some r \<Rightarrow> Sending r)\<rparr>)"
| ac_Send: "sy_phase s = Sending r \<Longrightarrow>
     ac_step LSend s (s\<lparr>sy_c := send_done r (sy_c s), sy_phase := Closing\<rparr>)"
| ac_Close: "sy_phase s = Closing \<Longrightarrow>
     ac_step LClose s (s\<lparr>sy_c := close_done (sy_c s), sy_phase := Idle\<rparr>)"

inductive_cases ac_stepE: "ac_step l s s'"

definition ac_start :: "LogEntry list \<Rightarrow> LogEntry \<Rightarrow> CaptureConfig \<Rightarrow> ac_sys" where
  "ac_start before trigger config =
     \<lparr>sy_c = NewAfterCollector before trigger config, sy_calls = [], sy_phase = Idle\<rparr>"

text \<open>
  Exactly once: before the critical section of \<open>finish\<close> nothing is sent and a cause to finish
  is still to come; afterwards the frozen capture is on its way, sent, or sent and the
  channel closed.
\<close>

definition once_inv :: "ac_sys \<Rightarrow> bool" where
  "once_inv s \<longleftrightarrow>
     (if \<not> ac_finished (sy_c s)
      then sy_phase s = Idle \<and> ac_done (sy_c s) = [] \<and> \<not> ac_closed (sy_c s)
        \<and> (ac_timer (sy_c s) = Running \<or> sy_calls s \<noteq> [])
      else (sy_phase s = Sending (ac_capture (sy_c s)) \<and> ac_done (sy_c s) = [] \<and> \<not> ac_closed (sy_c s))
        \<or> (sy_phase s = Closing \<and> ac_done (sy_c s) = [ac_capture (sy_c s)] \<and> \<not> ac_closed (sy_c s))
        \<or> (sy_phase s = Idle \<and> ac_done (sy_c s) = [ac_capture (sy_c s)] \<and> ac_closed (sy_c s)))"

text \<open>A capture that is not timed out has all the entries asked for.\<close>

definition full_inv :: "ac_sys \<Rightarrow> bool" where
  "full_inv s \<longleftrightarrow>
     (False \<in> set (sy_calls s) \<or> (ac_finished (sy_c s) \<and> \<not> cp_TimedOut (ac_capture (sy_c s))) \<longrightarrow>
        ac_after (sy_c s) \<le> int (length (cp_After (ac_capture (sy_c s)))))"

lemma once_inv_start: "once_inv (ac_start before trigger config)"
  by (simp add: once_inv_def ac_start_def NewAfterCollector_def Let_def collector_finish_def
      finish_lock_def close_done_def send_done_def)

lemma full_inv_start: "full_inv (ac_start before trigger config)"
  by (simp add: full_inv_def ac_start_def NewAfterCollector_def Let_def collector_finish_def
      finish_lock_def close_done_def send_done_def)

lemmas ac_defs = add_lock_def finish_lock_def send_done_def close_done_def Let_def

interpretation collector_once: step_invariant ac_step once_inv
proof
  fix s s' l assume inv: "once_inv s" and "ac_step l s s'"
  from this(2) show "once_inv s'"
    by cases (use inv in \<open>auto simp: once_inv_def ac_defs split: if_splits\<close>)
qed

interpretation collector_full: step_invariant ac_step full_inv
proof
  fix s s' l assume inv: "full_inv s" and "ac_step l s s'"
  from this(2) show "full_inv s'"
    by cases (use inv in \<open>auto simp: full_inv_def ac_defs split: if_splits dest: set_remove1_subset [THEN subsetD] notin_set_remove1\<close>)
qed


fun added :: "ac_label list \<Rightarrow> LogEntry list" where
  "added [] = []"
| "added (LAdd e # ls) = e # added ls"
| "added (l # ls) = added ls"

lemma added_append [simp]: "added (ls @ ls') = added ls @ added ls'"
  by (induction ls rule: added.induct) simp_all

lemma run_capture:
  assumes "run ac_step (ac_start before trigger config) ls s"
  shows "cp_Before (ac_capture (sy_c s)) = before \<and> cp_Trigger (ac_capture (sy_c s)) = trigger
    \<and> ac_after (sy_c s) = cc_After config
    \<and> prefix (cp_After (ac_capture (sy_c s))) (added ls)
    \<and> (ac_finished (sy_c s) \<or> cp_After (ac_capture (sy_c s)) = added ls)"
  using assms
proof (induction rule: run.induct)
  case run_start
  then show ?case
    by (simp add: ac_start_def NewAfterCollector_def Let_def collector_finish_def ac_defs)
next
  case (run_step ls s l s'')
  from run_step.hyps(2) show ?case
    by cases (use run_step.IH in \<open>auto simp: ac_defs split: if_splits\<close>)
qed

lemma run_once:
  assumes "run ac_step (ac_start before trigger config) ls s"
  shows "once_inv s" and "full_inv s"
  using collector_once.run_keeps [OF assms once_inv_start]
    collector_full.run_keeps [OF assms full_inv_start] by simp_all

text \<open>
  C14. \<open>Done\<close> delivers exactly one result, under every interleaving of additions, the timer
  and cancellations: a caller about to send always finds the channel open and empty, so the
  send neither blocks nor panics; a caller about to close finds it open; the channel is
  closed only after one value was sent, and no second value is ever sent. The value holds
  the trigger, the lines before it, and an initial part of the entries added, in order; if
  it is not marked as timed out it has all the entries asked for.
\<close>

theorem AfterCollector_exactly_once:
  assumes "run ac_step (ac_start before trigger config) ls s"
  shows "(\<forall>r. sy_phase s = Sending r \<longrightarrow> \<not> ac_closed (sy_c s) \<and> ac_done (sy_c s) = [])
    \<and> (sy_phase s = Closing \<longrightarrow> \<not> ac_closed (sy_c s))
    \<and> length (ac_done (sy_c s)) \<le> 1
    \<and> (ac_closed (sy_c s) \<longrightarrow> length (ac_done (sy_c s)) = 1)
    \<and> (\<forall>r \<in> set (ac_done (sy_c s)).
         cp_Before r = before \<and> cp_Trigger r = trigger \<and> prefix (cp_After r) (added ls)
         \<and> (\<not> cp_TimedOut r \<longrightarrow> cc_After config \<le> int (length (cp_After r))))"
  using run_once [OF assms] run_capture [OF assms]
  by (auto simp: once_inv_def full_inv_def split: if_splits)

lemmas ac_run_step = run_step [where step = ac_step]
lemmas ac_run_start = run_start [where step = ac_step]

lemma finish_pending:
  assumes "once_inv s" and "t \<in> set (sy_calls s)" and "\<not> ac_finished (sy_c s)"
  shows "\<exists>s'. run ac_step s [LFinish t, LSend, LClose] s' \<and> ac_closed (sy_c s')"
proof -
  obtain c r where f: "finish_lock t (sy_c s) = (c, Some r)"
    using assms(3) by (simp add: finish_lock_def Let_def)
  let ?s1 = "s\<lparr>sy_c := c, sy_calls := remove1 t (sy_calls s), sy_phase := Sending r\<rparr>"
  let ?s2 = "?s1\<lparr>sy_c := send_done r (sy_c ?s1), sy_phase := Closing\<rparr>"
  let ?s3 = "?s2\<lparr>sy_c := close_done (sy_c ?s2), sy_phase := Idle\<rparr>"
  have h1: "ac_step (LFinish t) s ?s1" using ac_Finish [OF assms(2) f] by simp
  have h2: "ac_step LSend ?s1 ?s2" by (rule ac_Send) simp
  have h3: "ac_step LClose ?s2 ?s3" by (rule ac_Close) simp
  have "run ac_step s ((([] @ [LFinish t]) @ [LSend]) @ [LClose]) ?s3"
    by (rule ac_run_step [OF ac_run_step [OF ac_run_step [OF ac_run_start h1] h2] h3])
  then show ?thesis by (intro exI [of _ ?s3]) (simp add: close_done_def)
qed

lemma finish_under_way:
  assumes "once_inv s" and "ac_finished (sy_c s)"
  shows "\<exists>ls s'. run ac_step s ls s' \<and> ac_closed (sy_c s') \<and> length ls \<le> 2 \<and> added ls = [] \<and> LCancel \<notin> set ls"
proof -
  let ?close = "\<lambda>s. s\<lparr>sy_c := close_done (sy_c s), sy_phase := Idle\<rparr>"
  let ?send = "\<lambda>r. s\<lparr>sy_c := send_done r (sy_c s), sy_phase := Closing\<rparr>"
  consider r where "sy_phase s = Sending r" | "sy_phase s = Closing" | "ac_closed (sy_c s)"
    using assms by (auto simp: once_inv_def)
  then show ?thesis
  proof cases
    case (1 r)
    then have h1: "ac_step LSend s (?send r)" by (rule ac_Send)
    have h2: "ac_step LClose (?send r) (?close (?send r))" by (rule ac_Close) simp
    have "run ac_step s (([] @ [LSend]) @ [LClose]) (?close (?send r))"
      by (rule ac_run_step [OF ac_run_step [OF ac_run_start h1] h2])
    then show ?thesis
      by (intro exI [of _ "[LSend, LClose]"] exI [of _ "?close (?send r)"]) (simp add: close_done_def)
  next
    case 2
    then have "run ac_step s ([] @ [LClose]) (?close s)" by (rule ac_run_step [OF ac_run_start ac_Close])
    then show ?thesis
      by (intro exI [of _ "[LClose]"] exI [of _ "?close s"]) (simp add: close_done_def)
  next
    case 3
    then show ?thesis using run_start [of ac_step s] by (intro exI [of _ "[]"] exI [of _ s]) simp
  qed
qed

text \<open>
  The collector is never stuck: from every reachable state the result can be delivered
  and the channel closed within four steps of the goroutines that are already under way, the
  timer being one of them, with no further entry and no cancellation.
\<close>

theorem AfterCollector_can_finish:
  assumes "run ac_step (ac_start before trigger config) ls s"
  shows "\<exists>ls' s'. run ac_step s ls' s' \<and> ac_closed (sy_c s') \<and> length ls' \<le> 4
    \<and> added ls' = [] \<and> LCancel \<notin> set ls'"
proof -
  have inv: "once_inv s" by (rule run_once(1) [OF assms])
  show ?thesis
  proof (cases "ac_finished (sy_c s)")
    case False
    show ?thesis
    proof (cases "sy_calls s")
      case (Cons t ts)
      then obtain s' where "run ac_step s [LFinish t, LSend, LClose] s'" "ac_closed (sy_c s')"
        using finish_pending [OF inv, of t] False by auto
      then show ?thesis by (intro exI [of _ "[LFinish t, LSend, LClose]"] exI [of _ s']) simp
    next
      case Nil
      let ?s1 = "s\<lparr>sy_c := (sy_c s)\<lparr>ac_timer := Stopped\<rparr>, sy_calls := sy_calls s @ [True]\<rparr>"
      have step: "ac_step LTimer s ?s1" using inv Nil False by (intro ac_Timer) (simp add: once_inv_def)
      have inv1: "once_inv ?s1" by (rule collector_once.step_keeps [OF inv step])
      obtain s' where s': "run ac_step ?s1 [LFinish True, LSend, LClose] s'" "ac_closed (sy_c s')"
        using finish_pending [OF inv1, of True] False by auto
      have "run ac_step s ([] @ [LTimer]) ?s1" by (rule ac_run_step [OF ac_run_start step])
      from run_trans [OF s'(1) this] s'(2) show ?thesis
        by (intro exI [of _ "[LTimer, LFinish True, LSend, LClose]"] exI [of _ s']) simp
    qed
  next
    case True
    from finish_under_way [OF inv True] obtain ls' s' where
      "run ac_step s ls' s'" "ac_closed (sy_c s')" "length ls' \<le> 2" "added ls' = []" "LCancel \<notin> set ls'" by blast
    then show ?thesis by (intro exI [of _ ls'] exI [of _ s']) simp
  qed
qed

text \<open>
  Used by one goroutine, a collector with a positive limit delivers exactly the first
  \<open>After\<close> entries added, not marked as timed out, as soon as they are there, and nothing
  before.
\<close>

theorem AfterCollector_sequential:
  assumes "0 < cc_After config"
  shows "ac_done (fold collector_Add es (NewAfterCollector before trigger config)) =
     (if int (length es) < cc_After config then []
      else [\<lparr>cp_Before = before, cp_Trigger = trigger, cp_After = take (nat (cc_After config)) es,
              cp_TimedOut = False\<rparr>])"
  using fold_Add_open [of "NewAfterCollector before trigger config" es] assms
  by (simp add: NewAfterCollector_def Let_def)

definition example_cc :: CaptureConfig where
  "example_cc = \<lparr>cc_After = 1, cc_AfterWait = second, cc_MaxBytes = 100\<rparr>"

lemma example_ac_run:
  "\<exists>s. run ac_step (ac_start [] zero_LogEntry example_cc) [LTimer] s \<and> sy_calls s = [True]"
proof -
  let ?s = "ac_start [] zero_LogEntry example_cc"
  have "ac_step LTimer ?s (?s\<lparr>sy_c := (sy_c ?s)\<lparr>ac_timer := Stopped\<rparr>, sy_calls := sy_calls ?s @ [True]\<rparr>)"
    by (rule ac_Timer) (simp add: ac_start_def NewAfterCollector_def example_cc_def)
  from ac_run_step [OF ac_run_start this] show ?thesis by (fastforce simp: ac_start_def)
qed

theorem AfterCollector_exactly_once_witness:
  "\<exists>s. run ac_step (ac_start [] zero_LogEntry example_cc) [LTimer] s \<and> length (ac_done (sy_c s)) \<le> 1"
  using example_ac_run AfterCollector_exactly_once by blast

theorem AfterCollector_can_finish_witness:
  "\<exists>s ls' s'. run ac_step (ac_start [] zero_LogEntry example_cc) [LTimer] s
     \<and> run ac_step s ls' s' \<and> ac_closed (sy_c s')"
  using example_ac_run AfterCollector_can_finish by blast

theorem AfterCollector_sequential_witness:
  "map cp_After (ac_done (fold collector_Add [example_line ''a'' ''1'', example_line ''a'' ''2'']
     (NewAfterCollector [] zero_LogEntry example_cc))) = [[example_line ''a'' ''1'']]"
  using AfterCollector_sequential [of example_cc "[example_line ''a'' ''1'', example_line ''a'' ''2'']" "[]" zero_LogEntry]
  by (simp add: example_cc_def)

end
