(* ===== verification/Processor.thy ===== *)
theory Processor
  imports Graph_Node_Parser Redact Level_Router Aggregate Capture
begin

text \<open>
  The model of \<open>internal/processor\<close>: the detection pipeline that runs one raw record at a
  time through Parse, Redact, Route, Match, Fingerprint, Aggregate and Alert. A pending
  alert is shared between the map of pending alerts and the goroutine that waits for its
  context, so it lives in a store and both sides refer to it by address. What is handed to
  the sink and to the observer is kept as a log. The mutex makes \<open>Process\<close>, \<open>Close\<close>,
  \<open>RemoveContainer\<close> and the critical section of a waiting goroutine single steps; timers may
  fire between them.
\<close>

section \<open>State\<close>

record Alert =
  alt_RuleID :: string
  alt_Severity :: string
  alt_ContainerName :: string
  alt_ContainerID :: string
  alt_Level :: LogLevel
  alt_Component :: string
  alt_SubgraphID :: string
  alt_Fingerprint :: string
  alt_FirstSeen :: gotime
  alt_LastSeen :: gotime
  alt_Window :: duration
  alt_WindowCount :: int
  alt_TotalCount :: int
  alt_SuppressedCount :: int
  alt_Samples :: "string list"
  alt_Context :: "string list"

record Ack =
  ack_Raw :: RawLog

datatype observation =
    ObsParsed LogEntry | ObsRuleMatched string | ObsAggregated string Result

record pendingAlert =
  pa_collector :: AfterCollector
  pa_alert :: Alert
  pa_maxBytes :: int
  pa_discard :: bool

record 're Processor =
  p_parser :: "RawLog \<Rightarrow> LogEntry"
  p_redactor :: "'re Redactor option"
  p_context :: Store
  p_router :: Router
  p_rules :: "'re Engine"
  p_aggregator :: Aggregator
  p_sink :: "Alert list"
  p_observer :: "observation list option"
  p_pending :: "(string, nat list) gomap"
  p_heap :: "(nat, pendingAlert) gomap"
  p_fresh :: nat
  p_closed :: bool

datatype processor_error =
    ProcNoParser | ProcNoContext | ProcNoAggregator | ProcNoSink | ProcClosed
  | ProcRecord aggregate_error


section \<open>Operations\<close>

text \<open>
  Interfaces and pointers that may be nil are options; a sink or an observer that is there
  starts with an empty log.
\<close>

definition processor_New ::
    "(RawLog \<Rightarrow> LogEntry) option \<Rightarrow> 're Redactor option \<Rightarrow> Store option \<Rightarrow> Router \<Rightarrow> 're Engine \<Rightarrow>
       Aggregator option \<Rightarrow> Alert list option \<Rightarrow> observation list option \<Rightarrow> processor_error + 're Processor" where
  "processor_New parse redactor context router rules aggregator sink observer =
     (case parse of None \<Rightarrow> Inl ProcNoParser
      | Some parse \<Rightarrow> (case context of None \<Rightarrow> Inl ProcNoContext
      | Some context \<Rightarrow> (case aggregator of None \<Rightarrow> Inl ProcNoAggregator
      | Some aggregator \<Rightarrow> (case sink of None \<Rightarrow> Inl ProcNoSink
      | Some sink \<Rightarrow>
          Inr \<lparr>p_parser = parse, p_redactor = redactor, p_context = context, p_router = router,
               p_rules = rules, p_aggregator = aggregator, p_sink = sink, p_observer = observer,
               p_pending = [], p_heap = [], p_fresh = 0, p_closed = False\<rparr>))))"

definition observe :: "observation \<Rightarrow> 're Processor \<Rightarrow> 're Processor" where
  "observe ev p = p\<lparr>p_observer := map_option (\<lambda>log. log @ [ev]) (p_observer p)\<rparr>"

definition emit :: "Alert \<Rightarrow> 're Processor \<Rightarrow> 're Processor" where
  "emit alert p = p\<lparr>p_sink := p_sink p @ [alert]\<rparr>"

definition alert_of :: "'re Rule \<Rightarrow> LogEntry \<Rightarrow> string \<Rightarrow> Result \<Rightarrow> Alert" where
  "alert_of matched entry fingerprint result =
     (let state = rs_State result in
      \<lparr>alt_RuleID = r_ID matched, alt_Severity = r_Severity matched,
       alt_ContainerName = le_ContainerName entry, alt_ContainerID = le_ContainerID entry,
       alt_Level = le_Level entry, alt_Component = field_of entry ''component'',
       alt_SubgraphID = field_of entry ''subgraph_id'', alt_Fingerprint = fingerprint,
       alt_FirstSeen = es_FirstSeen state, alt_LastSeen = es_LastSeen state,
       alt_Window = r_Window matched, alt_WindowCount = es_WindowCount state,
       alt_TotalCount = es_TotalCount state, alt_SuppressedCount = rs_SuppressedCount result,
       alt_Samples = es_Samples state, alt_Context = []\<rparr>)"

definition queueAlert :: "'re Rule \<Rightarrow> LogEntry \<Rightarrow> string \<Rightarrow> Result \<Rightarrow> 're Processor \<Rightarrow> 're Processor" where
  "queueAlert matched entry fingerprint result p =
     (let alert = alert_of matched entry fingerprint result;
          before = store_Last (p_context p) (containerKey entry) (rk_Before (r_Context matched));
          collector = NewAfterCollector before entry
            \<lparr>cc_After = rk_After (r_Context matched), cc_AfterWait = rk_AfterWait (r_Context matched),
             cc_MaxBytes = rk_MaxBytes (r_Context matched)\<rparr>;
          maxBytes = rk_MaxBytes (r_Context matched)
      in if rk_After (r_Context matched) \<le> 0
         then emit (alert\<lparr>alt_Context := capture_Lines (hd (ac_done collector)) maxBytes\<rparr>) p
         else
           let key = containerKey entry;
               address = p_fresh p;
               items = (case gm_get (p_pending p) key of None \<Rightarrow> [] | Some items \<Rightarrow> items)
           in p\<lparr>p_heap := gm_set address
                  \<lparr>pa_collector = collector, pa_alert = alert, pa_maxBytes = maxBytes, pa_discard = False\<rparr>
                  (p_heap p),
                p_fresh := address + 1,
                p_pending := gm_set key (items @ [address]) (p_pending p)\<rparr>)"

text \<open>A change to the pending alert at an address.\<close>

definition heap_map :: "nat \<Rightarrow> (pendingAlert \<Rightarrow> pendingAlert) \<Rightarrow> 're Processor \<Rightarrow> 're Processor" where
  "heap_map address f p =
     (case gm_get (p_heap p) address of
        None \<Rightarrow> p
      | Some pending \<Rightarrow> p\<lparr>p_heap := gm_set address (f pending) (p_heap p)\<rparr>)"

definition pending_items :: "'re Processor \<Rightarrow> string \<Rightarrow> nat list" where
  "pending_items p key = (case gm_get (p_pending p) key of None \<Rightarrow> [] | Some items \<Rightarrow> items)"

definition pa_Add :: "LogEntry \<Rightarrow> pendingAlert \<Rightarrow> pendingAlert" where
  "pa_Add entry pending = pending\<lparr>pa_collector := collector_Add entry (pa_collector pending)\<rparr>"

definition pa_Cancel :: "pendingAlert \<Rightarrow> pendingAlert" where
  "pa_Cancel pending = pending\<lparr>pa_collector := collector_Cancel (pa_collector pending)\<rparr>"

definition addAfterContext :: "LogEntry \<Rightarrow> 're Processor \<Rightarrow> 're Processor" where
  "addAfterContext entry p =
     fold (\<lambda>address. heap_map address (pa_Add entry)) (pending_items p (containerKey entry)) p"

text \<open>The body of the loop over the matched rules; \<open>now\<close> is the reading of the clock.\<close>

definition handle_match ::
    "'re regex_lib \<Rightarrow> (string \<Rightarrow> string) \<Rightarrow> LogEntry \<Rightarrow> gotime \<times> 're Rule \<Rightarrow>
       're Processor \<times> aggregate_error option \<Rightarrow> 're Processor \<times> aggregate_error option" where
  "handle_match R sha entry match state =
     (let (now, matched) = match; (p, processErr) = state;
          p = observe (ObsRuleMatched (r_ID matched)) p;
          fingerprint = rule_Fingerprint R sha matched entry;
          (aggregator, outcome) = agg_Record (p_aggregator p) now
            \<lparr>ev_Rule = matched, ev_Fingerprint = fingerprint, ev_Entry = entry\<rparr>;
          p = p\<lparr>p_aggregator := aggregator\<rparr>
      in case outcome of
           Inl err \<Rightarrow> (p, Some err)
         | Inr result \<Rightarrow>
             (let p = observe (ObsAggregated (r_ID matched) result) p in
              if \<not> rs_Alert result then (p, processErr)
              else (queueAlert matched entry fingerprint result p, processErr)))"

definition sanitize :: "'re regex_lib \<Rightarrow> 're Processor \<Rightarrow> RawLog \<Rightarrow> LogEntry" where
  "sanitize R p raw =
     (let entry = p_parser p raw in
      case p_redactor p of None \<Rightarrow> entry | Some _ \<Rightarrow> redact_Redact R (p_redactor p) entry)"

definition matches_of :: "'re regex_lib \<Rightarrow> 're Processor \<Rightarrow> LogEntry \<Rightarrow> 're Rule list" where
  "matches_of R p entry =
     (if EntersRuleEngine (router_Route (p_router p) entry) \<or> le_Level entry = LevelUnknown
      then engine_Match R (p_rules p) entry else [])"

text \<open>The clock readings of one call are a function of the position of the matched rule.\<close>

definition processor_Process ::
    "'re regex_lib \<Rightarrow> (string \<Rightarrow> string) \<Rightarrow> (nat \<Rightarrow> gotime) \<Rightarrow> 're Processor \<Rightarrow> RawLog \<Rightarrow>
       're Processor \<times> Ack \<times> processor_error option" where
  "processor_Process R sha clock p raw =
     (let ack = \<lparr>ack_Raw = raw\<rparr> in
      if p_closed p then (p, ack, Some ProcClosed)
      else
        let entry = sanitize R p raw;
            p = observe (ObsParsed entry) p;
            matches = matches_of R p entry;
            keepsContext = (KeepsContext (router_Route (p_router p) entry) \<or> matches \<noteq> []);
            p = (if keepsContext then addAfterContext entry p else p);
            (p, processErr) = fold (handle_match R sha entry)
              (zip (map clock [0..<length matches]) matches) (p, None);
            p = (if keepsContext then p\<lparr>p_context := store_Append entry (p_context p)\<rparr> else p)
        in (p, ack, map_option ProcRecord processErr))"

text \<open>
  The critical section of \<open>awaitContext\<close>, entered when the collector has delivered; then the
  goroutine ends and its pending alert is garbage.
\<close>

definition awaitContext :: "string \<Rightarrow> nat \<Rightarrow> 're Processor \<Rightarrow> 're Processor" where
  "awaitContext key address p =
     (case gm_get (p_heap p) address of
        None \<Rightarrow> p
      | Some pending \<Rightarrow>
          let p = p\<lparr>p_heap := gm_del address (p_heap p)\<rparr> in
          if pa_discard pending then p
          else
            let p = (case gm_get (p_pending p) key of
                       None \<Rightarrow> p
                     | Some items \<Rightarrow>
                         let items = filter (\<lambda>a. a \<noteq> address) items in
                         if items = [] then p\<lparr>p_pending := gm_del key (p_pending p)\<rparr>
                         else p\<lparr>p_pending := gm_set key items (p_pending p)\<rparr>)
            in emit ((pa_alert pending)\<lparr>alt_Context :=
                 capture_Lines (hd (ac_done (pa_collector pending))) (pa_maxBytes pending)\<rparr>) p)"

text \<open>\<open>Close\<close> up to the point where it waits for the goroutines.\<close>

definition processor_Close :: "'re Processor \<Rightarrow> 're Processor" where
  "processor_Close p =
     (if p_closed p then p
      else fold (\<lambda>address. heap_map address pa_Cancel) (concat (map snd (p_pending p)))
             (p\<lparr>p_closed := True\<rparr>))"

definition RemoveContainer :: "string \<Rightarrow> 're Processor \<Rightarrow> 're Processor" where
  "RemoveContainer container p =
     (let p = (case gm_get (p_pending p) container of
                 None \<Rightarrow> p
               | Some items \<Rightarrow>
                   (fold (\<lambda>address. heap_map address (\<lambda>pending. pa_Cancel (pending\<lparr>pa_discard := True\<rparr>)))
                      items p)\<lparr>p_pending := gm_del container (p_pending p)\<rparr>)
      in p\<lparr>p_context := store_Remove container (p_context p)\<rparr>)"


section \<open>Steps\<close>

text \<open>
  What can happen to a processor: a call of \<open>Process\<close>, of \<open>Close\<close> or of \<open>RemoveContainer\<close>,
  a timer that fires, and a waiting goroutine that has received its capture and delivers or,
  when its container was removed, discards its alert.
\<close>

datatype proc_label =
    PProcess "nat \<Rightarrow> gotime" RawLog | PTimer nat | PAwait nat | PDiscard nat | PClose | PRemove string

inductive proc_step ::
    "'re regex_lib \<Rightarrow> (string \<Rightarrow> string) \<Rightarrow> proc_label \<Rightarrow> 're Processor \<Rightarrow> 're Processor \<Rightarrow> bool"
  for R sha where
  proc_Process: "processor_Process R sha clock p raw = (p', ack, err) \<Longrightarrow>
     proc_step R sha (PProcess clock raw) p p'"
| proc_Timer: "gm_get (p_heap p) address = Some pending \<Longrightarrow>
     ac_timer (pa_collector pending) = Running \<Longrightarrow>
     proc_step R sha (PTimer address) p (heap_map address pa_Cancel p)"
| proc_Await: "gm_get (p_heap p) address = Some pending \<Longrightarrow> ac_done (pa_collector pending) \<noteq> [] \<Longrightarrow>
     key = containerKey (cp_Trigger (ac_capture (pa_collector pending))) \<Longrightarrow>
     \<not> pa_discard pending \<Longrightarrow> proc_step R sha (PAwait address) p (awaitContext key address p)"
| proc_Discard: "gm_get (p_heap p) address = Some pending \<Longrightarrow> ac_done (pa_collector pending) \<noteq> [] \<Longrightarrow>
     key = containerKey (cp_Trigger (ac_capture (pa_collector pending))) \<Longrightarrow>
     pa_discard pending \<Longrightarrow> proc_step R sha (PDiscard address) p (awaitContext key address p)"
| proc_Close: "proc_step R sha PClose p (processor_Close p)"
| proc_Remove: "proc_step R sha (PRemove container) p (RemoveContainer container p)"

inductive_cases proc_stepE: "proc_step R sha l p p'"


section \<open>Sanitized data stays sanitized\<close>

definition safe :: "string \<Rightarrow> string \<Rightarrow> bool" where
  "safe secret t \<longleftrightarrow> \<not> contains_str t secret"

definition safe_entry :: "string \<Rightarrow> LogEntry \<Rightarrow> bool" where
  "safe_entry secret e \<longleftrightarrow> secret \<noteq> [] \<and> (\<forall>t \<in> entry_texts e. safe secret t)"

text \<open>The texts of an alert that come from log lines, and the samples that a group keeps.\<close>

definition alert_texts :: "Alert \<Rightarrow> string set" where
  "alert_texts a = {alt_Component a, alt_SubgraphID a} \<union> set (alt_Samples a) \<union> set (alt_Context a)"

definition state_samples :: "EventState \<Rightarrow> string list" where
  "state_samples s = es_FirstSample s # es_LatestSample s # es_Samples s"

definition safe_alert :: "string \<Rightarrow> Alert \<Rightarrow> bool" where
  "safe_alert secret a \<longleftrightarrow> safe secret (alt_Component a) \<and> safe secret (alt_SubgraphID a)
     \<and> list_all (safe secret) (alt_Samples a) \<and> list_all (safe secret) (alt_Context a)"

definition safe_capture :: "string \<Rightarrow> Capture \<Rightarrow> bool" where
  "safe_capture secret c \<longleftrightarrow> list_all (safe_entry secret) (capture_Entries c)"

definition safe_collector :: "string \<Rightarrow> AfterCollector \<Rightarrow> bool" where
  "safe_collector secret c \<longleftrightarrow>
     safe_capture secret (ac_capture c) \<and> list_all (safe_capture secret) (ac_done c)"

definition safe_pending :: "string \<Rightarrow> pendingAlert \<Rightarrow> bool" where
  "safe_pending secret pa \<longleftrightarrow> safe_alert secret (pa_alert pa) \<and> safe_collector secret (pa_collector pa)"

definition safe_aggregator :: "string \<Rightarrow> Aggregator \<Rightarrow> bool" where
  "safe_aggregator secret a \<longleftrightarrow> agg_ok a \<and>
     (\<forall>k g. gm_get (a_groups a) k = Some g \<longrightarrow> list_all (safe secret) (state_samples (g_state g)))"

definition safe_store :: "string \<Rightarrow> Store \<Rightarrow> bool" where
  "safe_store secret s \<longleftrightarrow> (\<exists>n. store_inv n s) \<and> (\<forall>c. list_all (safe_entry secret) (store_content s c))"

definition safe_processor :: "string \<Rightarrow> 're Redactor \<Rightarrow> 're Processor \<Rightarrow> bool" where
  "safe_processor secret rd p \<longleftrightarrow> p_redactor p = Some rd
     \<and> safe_store secret (p_context p) \<and> safe_aggregator secret (p_aggregator p)
     \<and> (\<forall>a pa. gm_get (p_heap p) a = Some pa \<longrightarrow> safe_pending secret pa)
     \<and> list_all (safe_alert secret) (p_sink p)"

lemma safe_sublist: "sublist s t \<Longrightarrow> safe secret t \<Longrightarrow> safe secret s"
  by (auto simp: safe_def contains_str_iff intro: sublist_order.order.trans)

lemma safe_entry_texts:
  assumes "safe_entry secret e"
  shows "safe secret (lineFor e)" and "safe secret (sampleOf e)" and "safe secret (field_of e k)"
proof -
  show "safe secret (lineFor e)" "safe secret (sampleOf e)"
    using assms by (auto simp: safe_entry_def lineFor_def sampleOf_def entry_texts_def)
  show "safe secret (field_of e k)"
    using assms field_of_text [of e k]
    by (cases "field_of e k = []") (auto simp: safe_entry_def safe_def contains_str_iff)
qed

lemma safe_sanitized:
  assumes "\<And>s. safe secret (RedactString R (Some rd) s)"
  shows "safe_entry secret (redact_Redact R (Some rd) e)"
proof -
  have clean: "\<not> sublist secret (RedactString R (Some rd) s)" for s
    using assms by (simp add: safe_def contains_str_iff)
  then have "secret \<noteq> []" by auto
  then show ?thesis using red.sanitize_no_leak [OF clean]
    by (auto simp: safe_entry_def safe_def contains_str_iff)
qed

lemma take_fitting_lines: "set (fst (take_fitting r es)) \<subseteq> lineFor ` set es"
  by (induction r es rule: take_fitting.induct) (auto simp: Let_def split: prod.splits)

lemma capture_Lines_prefix:
  assumes "l \<in> set (capture_Lines c n)"
  shows "\<exists>e \<in> set (capture_Entries c). prefix l (lineFor e)"
proof -
  obtain b r where b: "take_fitting (n - int (length (lineFor (cp_Trigger c)))) (rev (cp_Before c)) = (b, r)" by fastforce
  obtain a l' where a: "take_fitting r (cp_After c) = (a, l')" by fastforce
  have "set b \<subseteq> lineFor ` set (cp_Before c)" "set a \<subseteq> lineFor ` set (cp_After c)"
    using take_fitting_lines [of _ "rev (cp_Before c)"] take_fitting_lines [of r "cp_After c"] a b by (metis fst_conv set_rev)+
  then show ?thesis using assms a b
    by (force simp: capture_Lines_def Let_def capture_Entries_def truncateUTF8_prefix split: if_splits)
qed

lemma safe_Lines: "safe_capture secret c \<Longrightarrow> list_all (safe secret) (capture_Lines c n)"
  unfolding list_all_iff safe_capture_def
  by (auto dest!: capture_Lines_prefix) (meson safe_entry_texts(1) safe_sublist prefix_imp_sublist)


subsection \<open>Collectors\<close>

lemmas collector_defs = collector_Add_def collector_Cancel_def collector_finish_def ac_defs
  NewAfterCollector_def

lemma safe_collector_New:
  "list_all (safe_entry secret) before \<Longrightarrow> safe_entry secret e \<Longrightarrow>
   safe_collector secret (NewAfterCollector before e cc)"
  by (auto simp: safe_collector_def collector_defs safe_capture_def capture_Entries_def)

lemma safe_collector_Add:
  "safe_collector secret c \<Longrightarrow> safe_entry secret e \<Longrightarrow> safe_collector secret (collector_Add e c)"
  by (auto simp: safe_collector_def collector_defs safe_capture_def capture_Entries_def)

lemma safe_collector_Cancel:
  "safe_collector secret c \<Longrightarrow> safe_collector secret (collector_Cancel c)"
  by (auto simp: safe_collector_def collector_defs safe_capture_def capture_Entries_def)

lemma NewAfterCollector_done:
  "cc_After cc \<le> 0 \<Longrightarrow> ac_done (NewAfterCollector before e cc) = [ac_capture (NewAfterCollector before e cc)]"
  by (simp add: collector_defs)


subsection \<open>The aggregator\<close>

lemma decide_keeps_samples: "state_samples (fst (decide r t s)) = state_samples s"
  by (auto simp: decide_def raise_def state_samples_def Let_def)

lemma record_group_samples:
  assumes "record_group m now e g = (g', res)"
  shows "set (state_samples (rs_State res)) \<subseteq> insert (sampleOf (ev_Entry e)) (set (state_samples (g_state g)))"
proof -
  define s where "s = note_event m (event_time now e) (sampleOf (ev_Entry e))
    (length (g_timestamps (slide_window (r_Window (ev_Rule e)) (event_time now e) g))) (g_state g)"
  have "set (state_samples s) \<subseteq> insert (sampleOf (ev_Entry e)) (set (state_samples (g_state g)))"
    by (auto simp: s_def note_event_def addSample_def state_samples_def Let_def)
  moreover obtain s' where "decide (ev_Rule e) (event_time now e) s = (s', res)"
    using assms by (auto simp: record_group_def Let_def s_def split: prod.splits)
  then have "state_samples (rs_State res) = state_samples s"
    using decide_keeps_samples [of "ev_Rule e" "event_time now e" s]
      decide_table(3) [of "ev_Rule e" "event_time now e" s] by simp
  ultimately show ?thesis by simp
qed

lemma safe_Record:
  assumes "safe_aggregator secret a" and "safe secret (sampleOf (ev_Entry e))"
    and "agg_Record a now e = (a', outcome)"
  shows "safe_aggregator secret a'
    \<and> (\<forall>res. outcome = Inr res \<longrightarrow> list_all (safe secret) (state_samples (rs_State res)))"
proof (cases outcome)
  case (Inl err)
  then show ?thesis using assms by (auto dest: agg_Record_error)
next
  case (Inr res)
  have ok: "agg_ok a" using assms(1) by (simp add: safe_aggregator_def)
  have old: "list_all (safe secret) (state_samples (g_state g))"
    if "gm_get (a_groups (evictExpired now a)) k = Some g" for k g
    using that assms(1) by (auto simp: safe_aggregator_def gm_get_evictExpired split: option.splits if_splits)
  from agg_Record_success [OF ok assms(3) [unfolded Inr]] obtain item item' where
    it: "case gm_get (a_groups (evictExpired now a)) (ev_Fingerprint e) of
        None \<Rightarrow> item = new_group (ev_Fingerprint e) | Some g \<Rightarrow> item = g"
    and rg: "record_group (a_maxSamples a) now e item = (item', res)"
    and get: "gm_get (a_groups a') (ev_Fingerprint e) = Some item'"
    and others: "\<And>k. k \<noteq> ev_Fingerprint e \<Longrightarrow>
         gm_get (a_groups a') k = gm_get (a_groups (evictExpired now a)) k
         \<or> (gm_get (a_groups a') k = None \<and> is_oldest (a_groups (evictExpired now a)) k)"
    and ok': "agg_ok a'"
    by blast
  have "safe secret []" using assms(2) by (auto simp: safe_def contains_str_iff)
  then have "list_all (safe secret) (state_samples (g_state item))"
    using it old by (auto simp: new_group_def zero_EventState_def state_samples_def split: option.splits)
  then have res: "list_all (safe secret) (state_samples (rs_State res))"
    using record_group_samples [OF rg] assms(2) by (auto simp: list_all_iff)
  have "list_all (safe secret) (state_samples (g_state g))" if "gm_get (a_groups a') k = Some g" for k g
  proof (cases "k = ev_Fingerprint e")
    case True
    then show ?thesis using that get res record_group_basic(1) [OF rg] by simp
  next
    case False
    then show ?thesis using that others [OF False] old by auto
  qed
  with ok' res Inr show ?thesis by (simp add: safe_aggregator_def)
qed


subsection \<open>The steps\<close>

lemma safe_heap_map:
  assumes "safe_processor secret rd p" and "\<And>pa. safe_pending secret pa \<Longrightarrow> safe_pending secret (f pa)"
  shows "safe_processor secret rd (heap_map a f p)"
  using assms by (auto simp: safe_processor_def heap_map_def gm_get_set split: option.splits)

lemma safe_heap_fold:
  assumes "safe_processor secret rd p" and "\<And>pa. safe_pending secret pa \<Longrightarrow> safe_pending secret (f pa)"
  shows "safe_processor secret rd (fold (\<lambda>a. heap_map a f) as p)"
  using assms(1) by (induction as arbitrary: p) (auto intro: safe_heap_map assms(2))

lemma safe_alert_of:
  "safe_entry secret entry \<Longrightarrow> list_all (safe secret) (state_samples (rs_State result)) \<Longrightarrow>
   safe_alert secret (alert_of matched entry fp result)"
  by (simp add: safe_alert_def alert_of_def state_samples_def Let_def safe_entry_texts)

lemma safe_Last:
  assumes "safe_store secret s"
  shows "list_all (safe_entry secret) (store_Last s c n)"
proof -
  obtain m where "store_inv m s" using assms by (auto simp: safe_store_def)
  then have "store_Last s c n = lastn (nat n) (store_content s c)" by (rule store_Last_content)
  then show ?thesis using assms by (auto simp: safe_store_def lastn_def list_all_iff dest: in_set_dropD)
qed

lemma safe_Append: "safe_store secret s \<Longrightarrow> safe_entry secret e \<Longrightarrow> safe_store secret (store_Append e s)"
proof -
  assume s: "safe_store secret s" and e: "safe_entry secret e"
  obtain n where n: "store_inv n s" using s by (auto simp: safe_store_def)
  have "list_all (safe_entry secret) (store_content (store_Append e s) c)" for c
  proof -
    have "list_all (safe_entry secret) (store_content s c @ [e])" using s e by (simp add: safe_store_def)
    then show ?thesis using store_Append_spec [OF n, of e c] s
      by (auto simp: safe_store_def lastn_def list_all_iff dest: in_set_dropD)
  qed
  then show ?thesis using store_Append_spec [OF n] by (auto simp: safe_store_def)
qed

lemma safe_Remove: "safe_store secret s \<Longrightarrow> safe_store secret (store_Remove c s)"
  unfolding safe_store_def using store_Remove_spec [of _ s c] by (metis list.pred_inject(1))

lemma safe_emit:
  "safe_processor secret rd p \<Longrightarrow> safe_alert secret a \<Longrightarrow> safe_processor secret rd (emit a p)"
  by (simp add: safe_processor_def emit_def)

lemma safe_queueAlert:
  assumes "safe_processor secret rd p" and "safe_entry secret entry"
    and "list_all (safe secret) (state_samples (rs_State result))"
  shows "safe_processor secret rd (queueAlert matched entry fp result p)"
proof -
  define alert where "alert = alert_of matched entry fp result"
  define cc where "cc = \<lparr>cc_After = rk_After (r_Context matched), cc_AfterWait = rk_AfterWait (r_Context matched),
    cc_MaxBytes = rk_MaxBytes (r_Context matched)\<rparr>"
  define c where "c = NewAfterCollector
    (store_Last (p_context p) (containerKey entry) (rk_Before (r_Context matched))) entry cc"
  have alert: "safe_alert secret alert" unfolding alert_def by (rule safe_alert_of [OF assms(2,3)])
  have c: "safe_collector secret c" unfolding c_def
    using assms(1,2) by (intro safe_collector_New safe_Last) (simp_all add: safe_processor_def)
  show ?thesis
  proof (cases "rk_After (r_Context matched) \<le> 0")
    case True
    then have "ac_done c = [ac_capture c]" by (simp add: c_def cc_def NewAfterCollector_done)
    then have "safe_alert secret (alert\<lparr>alt_Context := capture_Lines (hd (ac_done c)) (rk_MaxBytes (r_Context matched))\<rparr>)"
      using alert c safe_Lines by (simp add: safe_alert_def safe_collector_def)
    then show ?thesis using True safe_emit [OF assms(1)]
      by (simp add: queueAlert_def Let_def alert_def c_def cc_def)
  next
    case False
    then show ?thesis using assms(1) alert c
      by (auto simp: queueAlert_def Let_def alert_def [symmetric] cc_def [symmetric] c_def [symmetric]
          safe_processor_def gm_get_set safe_pending_def)
  qed
qed

lemma safe_observe [simp]: "safe_processor secret rd (observe ev p) = safe_processor secret rd p"
  by (simp add: safe_processor_def observe_def)

lemma safe_handle_match:
  assumes "safe_processor secret rd (fst st)" and "safe_entry secret entry"
  shows "safe_processor secret rd (fst (handle_match R sha entry match st))"
proof -
  obtain now matched where m: "match = (now, matched)" by (cases match)
  obtain p err where st: "st = (p, err)" by (cases st)
  define q where "q = observe (ObsRuleMatched (r_ID matched)) p"
  define fp where "fp = rule_Fingerprint R sha matched entry"
  obtain a' outcome where rec: "agg_Record (p_aggregator q) now
      \<lparr>ev_Rule = matched, ev_Fingerprint = fp, ev_Entry = entry\<rparr> = (a', outcome)" by fastforce
  have q: "safe_processor secret rd q" using assms(1) by (simp add: q_def st)
  have sr: "safe_aggregator secret a'
      \<and> (\<forall>res. outcome = Inr res \<longrightarrow> list_all (safe secret) (state_samples (rs_State res)))"
    by (rule safe_Record [OF _ _ rec])
      (use q safe_entry_texts(2) [OF assms(2)] in \<open>simp_all add: safe_processor_def\<close>)
  have q': "safe_processor secret rd (q\<lparr>p_aggregator := a'\<rparr>)"
    using q sr by (simp add: safe_processor_def)
  show ?thesis
    unfolding handle_match_def m st Let_def prod.case q_def [symmetric] fp_def [symmetric] rec
    using q' sr assms(2) by (auto split: sum.splits intro!: safe_queueAlert)
qed


lemma safe_pa_Add: "safe_entry secret e \<Longrightarrow> safe_pending secret pa \<Longrightarrow> safe_pending secret (pa_Add e pa)"
  by (simp add: safe_pending_def pa_Add_def safe_collector_Add)

lemma safe_pa_Cancel: "safe_pending secret pa \<Longrightarrow> safe_pending secret (pa_Cancel pa)"
  by (simp add: safe_pending_def pa_Cancel_def safe_collector_Cancel)

lemma safe_pa_discard: "safe_pending secret pa \<Longrightarrow> safe_pending secret (pa_Cancel (pa\<lparr>pa_discard := True\<rparr>))"
  by (rule safe_pa_Cancel) (simp add: safe_pending_def)

lemma safe_Process:
  assumes p: "safe_processor secret rd p" and rd: "\<And>s. safe secret (RedactString R (Some rd) s)"
    and "processor_Process R sha clock p raw = (p', ack, err)"
  shows "safe_processor secret rd p'"
proof (cases "p_closed p")
  case True
  then show ?thesis using assms by (simp add: processor_Process_def)
next
  case False
  define entry where "entry = sanitize R p raw"
  have entry: "safe_entry secret entry"
    using p safe_sanitized [OF rd] by (simp add: entry_def sanitize_def safe_processor_def)
  define q where "q = observe (ObsParsed entry) p"
  define ms where "ms = matches_of R q entry"
  define keeps where "keeps = (KeepsContext (router_Route (p_router q) entry) \<or> ms \<noteq> [])"
  define q1 where "q1 = (if keeps then addAfterContext entry q else q)"
  obtain q2 e2 where f: "fold (handle_match R sha entry) (zip (map clock [0..<length ms]) ms) (q1, None) = (q2, e2)"
    by fastforce
  have q: "safe_processor secret rd q" using p by (simp add: q_def)
  have q1: "safe_processor secret rd q1"
    using q by (simp add: q1_def addAfterContext_def safe_heap_fold safe_pa_Add entry)
  have "safe_processor secret rd (fst (fold (handle_match R sha entry)
      (zip (map clock [0..<length ms]) ms) (q1, None)))"
    by (rule fold_invariant [where Q = "\<lambda>_. True"]) (simp_all add: q1 safe_handle_match entry)
  then have q2: "safe_processor secret rd q2" by (simp add: f)
  have "p' = (if keeps then q2\<lparr>p_context := store_Append entry (p_context q2)\<rparr> else q2)"
    using assms(3) False
    unfolding processor_Process_def Let_def entry_def [symmetric] q_def [symmetric] ms_def [symmetric]
      keeps_def [symmetric] q1_def [symmetric] f
    by simp
  then show ?thesis using q2 entry by (auto simp: safe_processor_def safe_Append)
qed

lemma awaitContext_eq:
  assumes "gm_get (p_heap p) address = Some pending"
  shows "\<exists>x. awaitContext key address p =
    (if pa_discard pending then p\<lparr>p_heap := gm_del address (p_heap p)\<rparr>
     else emit ((pa_alert pending)\<lparr>alt_Context :=
            capture_Lines (hd (ac_done (pa_collector pending))) (pa_maxBytes pending)\<rparr>)
          (p\<lparr>p_heap := gm_del address (p_heap p), p_pending := x\<rparr>))"
proof (cases "gm_get (p_pending p) key")
  case None
  then show ?thesis using assms
    by (intro exI [of _ "p_pending p"]) (cases p, simp add: awaitContext_def)
next
  case (Some items)
  let ?items = "filter (\<lambda>a. a \<noteq> address) items"
  show ?thesis using assms Some
    by (intro exI [of _ "if ?items = [] then gm_del key (p_pending p) else gm_set key ?items (p_pending p)"])
      (simp add: awaitContext_def Let_def)
qed

lemma safe_await:
  assumes p: "safe_processor secret rd p" and "gm_get (p_heap p) address = Some pending"
    and "ac_done (pa_collector pending) \<noteq> []"
  shows "safe_processor secret rd (awaitContext key address p)"
proof -
  have pa: "safe_pending secret pending" using assms by (simp add: safe_processor_def)
  then have "safe_capture secret (hd (ac_done (pa_collector pending)))"
    using assms(3) by (simp add: safe_pending_def safe_collector_def list_all_iff)
  then have al: "safe_alert secret ((pa_alert pending)\<lparr>alt_Context :=
      capture_Lines (hd (ac_done (pa_collector pending))) (pa_maxBytes pending)\<rparr>)"
    using pa safe_Lines by (simp add: safe_pending_def safe_alert_def)
  have "safe_processor secret rd (p\<lparr>p_heap := gm_del address (p_heap p), p_pending := x\<rparr>)" for x
    using p by (auto simp: safe_processor_def gm_get_del)
  moreover have "safe_processor secret rd (p\<lparr>p_heap := gm_del address (p_heap p)\<rparr>)"
    using p by (auto simp: safe_processor_def gm_get_del)
  moreover obtain x where "awaitContext key address p =
    (if pa_discard pending then p\<lparr>p_heap := gm_del address (p_heap p)\<rparr>
     else emit ((pa_alert pending)\<lparr>alt_Context :=
            capture_Lines (hd (ac_done (pa_collector pending))) (pa_maxBytes pending)\<rparr>)
          (p\<lparr>p_heap := gm_del address (p_heap p), p_pending := x\<rparr>))"
    using awaitContext_eq [OF assms(2)] by blast
  ultimately show ?thesis by (simp add: safe_emit al)
qed

lemma safe_Close: "safe_processor secret rd p \<Longrightarrow> safe_processor secret rd (processor_Close p)"
  by (simp add: processor_Close_def safe_heap_fold safe_pa_Cancel)
     (intro impI safe_heap_fold safe_pa_Cancel, simp_all add: safe_processor_def)

lemma safe_RemoveContainer:
  assumes "safe_processor secret rd p"
  shows "safe_processor secret rd (RemoveContainer c p)"
proof -
  have "safe_processor secret rd (fold (\<lambda>a. heap_map a (\<lambda>pa. pa_Cancel (pa\<lparr>pa_discard := True\<rparr>))) as p)" for as
    by (rule safe_heap_fold [OF assms safe_pa_discard])
  then show ?thesis using assms safe_Remove
    by (auto simp: RemoveContainer_def Let_def safe_processor_def split: option.splits)
qed

lemma safe_step:
  assumes "safe_processor secret rd p" and "\<And>s. safe secret (RedactString R (Some rd) s)"
    and "proc_step R sha l p p'"
  shows "safe_processor secret rd p'"
  using assms(3)
proof cases
  case (proc_Process clock raw ack err)
  then show ?thesis using safe_Process [OF assms(1,2)] by simp
next
  case (proc_Timer address pending)
  then show ?thesis using safe_heap_map [OF assms(1) safe_pa_Cancel] by simp
next
  case (proc_Await address pending key)
  then show ?thesis using safe_await [OF assms(1)] by simp
next
  case (proc_Discard address pending key)
  then show ?thesis using safe_await [OF assms(1)] by simp
next
  case proc_Close
  then show ?thesis using safe_Close [OF assms(1)] by simp
next
  case (proc_Remove container)
  then show ?thesis using safe_RemoveContainer [OF assms(1)] by simp
qed

interpretation confidential: step_invariant "proc_step R sha"
  "\<lambda>p. (\<forall>s. safe secret (RedactString R (Some rd) s)) \<and> safe_processor secret rd p" for R sha secret rd
  by unfold_locales (auto intro: safe_step)

text \<open>A processor as the runtime makes it.\<close>

definition fresh_processor ::
    "'re Redactor \<Rightarrow> int \<Rightarrow> int \<times> duration \<times> int \<Rightarrow> 're Processor \<Rightarrow> bool" where
  "fresh_processor rd lines agg p \<longleftrightarrow>
     (\<exists>parse st router rules a observer.
        NewStore lines = Inr st \<and> aggregate_New (fst agg) (fst (snd agg)) (snd (snd agg)) = Inr a \<and>
        processor_New (Some parse) (Some rd) (Some st) router rules (Some a) (Some []) observer = Inr p)"

lemma fresh_safe: "fresh_processor rd n agg p \<Longrightarrow> safe_processor secret rd p"
proof -
  assume "fresh_processor rd n agg p"
  then obtain st a where st: "NewStore n = Inr st" and a: "aggregate_New (fst agg) (fst (snd agg)) (snd (snd agg)) = Inr a"
    and p: "p_redactor p = Some rd" "p_context p = st" "p_aggregator p = a" "p_heap p = []" "p_sink p = []"
    by (auto simp: fresh_processor_def processor_New_def)
  have "a_groups a = []" using a by (auto simp: aggregate_New_def split: if_splits)
  then show ?thesis
    using p NewStore_inv [OF st] aggregate_New_ok [OF a]
    by (auto simp: safe_processor_def safe_store_def safe_aggregator_def)
qed

lemma safe_processorD:
  assumes "safe_processor secret rd p"
  shows "a \<in> set (p_sink p) \<Longrightarrow> t \<in> alert_texts a \<Longrightarrow> \<not> contains_str t secret"
    and "gm_get (p_heap p) k = Some pa \<Longrightarrow> t \<in> alert_texts (pa_alert pa) \<Longrightarrow> \<not> contains_str t secret"
    and "gm_get (p_heap p) k = Some pa \<Longrightarrow> cp \<in> set (ac_capture (pa_collector pa) # ac_done (pa_collector pa)) \<Longrightarrow>
      e \<in> set (capture_Entries cp) \<Longrightarrow> t \<in> entry_texts e \<Longrightarrow> \<not> contains_str t secret"
    and "e \<in> set (store_Last (p_context p) c limit) \<Longrightarrow> t \<in> entry_texts e \<Longrightarrow> \<not> contains_str t secret"
    and "gm_get (a_groups (p_aggregator p)) f = Some g \<Longrightarrow> t \<in> set (state_samples (g_state g)) \<Longrightarrow>
      \<not> contains_str t secret"
proof -
  have alert: "safe_alert secret x \<Longrightarrow> t \<in> alert_texts x \<Longrightarrow> \<not> contains_str t secret" for x
    by (auto simp: safe_alert_def alert_texts_def safe_def list_all_iff)
  show "a \<in> set (p_sink p) \<Longrightarrow> t \<in> alert_texts a \<Longrightarrow> \<not> contains_str t secret"
    "gm_get (p_heap p) k = Some pa \<Longrightarrow> t \<in> alert_texts (pa_alert pa) \<Longrightarrow> \<not> contains_str t secret"
    using assms alert by (auto simp: safe_processor_def safe_pending_def list_all_iff)
  show "gm_get (p_heap p) k = Some pa \<Longrightarrow> cp \<in> set (ac_capture (pa_collector pa) # ac_done (pa_collector pa)) \<Longrightarrow>
      e \<in> set (capture_Entries cp) \<Longrightarrow> t \<in> entry_texts e \<Longrightarrow> \<not> contains_str t secret"
    using assms by (auto simp: safe_processor_def safe_pending_def safe_collector_def safe_capture_def
        safe_entry_def safe_def list_all_iff)
  have "list_all (safe_entry secret) (store_Last (p_context p) c limit)"
    using assms by (intro safe_Last) (simp add: safe_processor_def)
  then show "e \<in> set (store_Last (p_context p) c limit) \<Longrightarrow> t \<in> entry_texts e \<Longrightarrow> \<not> contains_str t secret"
    by (auto simp: safe_entry_def safe_def list_all_iff)
  show "gm_get (a_groups (p_aggregator p)) f = Some g \<Longrightarrow> t \<in> set (state_samples (g_state g)) \<Longrightarrow>
      \<not> contains_str t secret"
    using assms by (auto simp: safe_processor_def safe_aggregator_def safe_def list_all_iff)
qed

text \<open>
  C6. Redaction covers the texts of log lines in the whole pipeline. If the configured redaction
  removes a secret from every string, then along every run of the processor, with any
  interleaving of records, timers, waiting goroutines, container removals and shutdown, the
  secret occurs in no component, subgraph, sample or context line of an alert that was handed to
  the sink or waits for its context; in no raw line, message or field value of an entry that is
  kept as context or was captured for a waiting alert; and in no first, latest or other sample
  that the aggregator keeps. Truncated context lines are covered as well. The keys of fields are
  not covered: \<open>Redact\<close> copies them as they are (see \<open>Redact_keeps_secret_keys\<close>), so they
  stay in the kept entries, though they enter no text of an alert.
\<close>

theorem Processor_confidential:
  assumes "\<And>s. \<not> contains_str (RedactString R (Some rd) s) secret"
    and "fresh_processor rd lines agg p0"
    and "run (proc_step R sha) p0 ls p"
  shows "(\<forall>a \<in> set (p_sink p). \<forall>t \<in> alert_texts a. \<not> contains_str t secret)
    \<and> (\<forall>k pa. gm_get (p_heap p) k = Some pa \<longrightarrow>
         (\<forall>t \<in> alert_texts (pa_alert pa). \<not> contains_str t secret)
         \<and> (\<forall>cp \<in> set (ac_capture (pa_collector pa) # ac_done (pa_collector pa)).
              \<forall>e \<in> set (capture_Entries cp). \<forall>t \<in> entry_texts e. \<not> contains_str t secret))
    \<and> (\<forall>c limit. \<forall>e \<in> set (store_Last (p_context p) c limit).
         \<forall>t \<in> entry_texts e. \<not> contains_str t secret)
    \<and> (\<forall>k g. gm_get (a_groups (p_aggregator p)) k = Some g \<longrightarrow>
         (\<forall>t \<in> set (state_samples (g_state g)). \<not> contains_str t secret))"
proof -
  have "\<forall>s. safe secret (RedactString R (Some rd) s)" using assms(1) by (simp add: safe_def)
  then have "safe_processor secret rd p"
    using confidential.run_keeps [OF assms(3), of secret rd] fresh_safe [OF assms(2)] by blast
  note safe_processorD [OF this]
  then show ?thesis by blast
qed


section \<open>Every alert is delivered\<close>

abbreviation pa_key :: "pendingAlert \<Rightarrow> string" where
  "pa_key pa \<equiv> containerKey (cp_Trigger (ac_capture (pa_collector pa)))"

abbreviation pa_finished :: "pendingAlert \<Rightarrow> bool" where
  "pa_finished pa \<equiv> ac_finished (pa_collector pa)"

text \<open>
  A pending alert is either waiting, with its timer running, or its collector has
  delivered; a discarded one has been cancelled.
\<close>

definition pa_ok :: "pendingAlert \<Rightarrow> bool" where
  "pa_ok pa \<longleftrightarrow> (pa_finished pa \<longleftrightarrow> ac_done (pa_collector pa) \<noteq> [])
     \<and> (\<not> pa_finished pa \<longrightarrow> ac_timer (pa_collector pa) = Running)
     \<and> (pa_discard pa \<longrightarrow> pa_finished pa)"

definition flight_ok :: "'re Processor \<Rightarrow> bool" where
  "flight_ok p \<longleftrightarrow> gm_wf (p_heap p) \<and>
     (\<forall>a pa. gm_get (p_heap p) a = Some pa \<longrightarrow>
        a < p_fresh p \<and> pa_ok pa
        \<and> (\<not> pa_discard pa \<longrightarrow> a \<in> set (pending_items p (pa_key pa)))
        \<and> (p_closed p \<longrightarrow> pa_finished pa))"

lemma flight_okD:
  assumes "flight_ok p" and "gm_get (p_heap p) a = Some pa"
  shows "a < p_fresh p" and "pa_ok pa" and "\<not> pa_discard pa \<Longrightarrow> a \<in> set (pending_items p (pa_key pa))"
    and "p_closed p \<Longrightarrow> pa_finished pa"
  using assms unfolding flight_ok_def by blast+

text \<open>Updates that keep a pending alert in order.\<close>

definition pa_le :: "pendingAlert \<Rightarrow> pendingAlert \<Rightarrow> bool" where
  "pa_le pa pa' \<longleftrightarrow> (pa_ok pa \<longrightarrow> pa_ok pa' \<and> pa_key pa' = pa_key pa
     \<and> (pa_finished pa \<longrightarrow> pa_finished pa') \<and> (\<not> pa_discard pa' \<longrightarrow> \<not> pa_discard pa))"

definition pa_update :: "(pendingAlert \<Rightarrow> pendingAlert) \<Rightarrow> bool" where
  "pa_update f \<longleftrightarrow> (\<forall>pa. pa_le pa (f pa))"

lemma pa_le_refl [simp]: "pa_le pa pa"
  by (simp add: pa_le_def)

lemma pa_le_trans: "pa_le a b \<Longrightarrow> pa_le b c \<Longrightarrow> pa_le a c"
  by (auto simp: pa_le_def)

lemma pa_update_Add: "pa_update (pa_Add e)"
  by (auto simp: pa_update_def pa_le_def pa_ok_def pa_Add_def collector_defs)

lemma pa_update_Cancel: "pa_update pa_Cancel" "pa_update (\<lambda>pa. pa_Cancel (pa\<lparr>pa_discard := True\<rparr>))"
  by (auto simp: pa_update_def pa_le_def pa_ok_def pa_Cancel_def collector_defs)

lemma pa_Cancel_finished: "pa_finished (pa_Cancel pa)"
  by (simp add: pa_Cancel_def collector_defs)

definition same_frame :: "'re Processor \<Rightarrow> 're Processor \<Rightarrow> bool" where
  "same_frame p q \<longleftrightarrow> p_fresh p = p_fresh q \<and> p_pending p = p_pending q \<and> p_closed p = p_closed q
     \<and> p_observer p = p_observer q \<and> p_sink p = p_sink q
     \<and> map fst (p_heap p) = map fst (p_heap q)"

lemma same_frame_refl [simp]: "same_frame p p"
  by (simp add: same_frame_def)

lemma same_frame_trans: "same_frame p q \<Longrightarrow> same_frame q r \<Longrightarrow> same_frame p r"
  by (simp add: same_frame_def)

lemma same_frame_length: "same_frame p q \<Longrightarrow> length (p_heap p) = length (p_heap q)"
  unfolding same_frame_def by (metis length_map)

lemma heap_map_frame: "same_frame (heap_map a f p) p"
  by (auto simp: heap_map_def same_frame_def split: option.splits)
     (metis keys_gm_set gm_get_None option.distinct(1))

lemma heap_map_get:
  "gm_get (p_heap (heap_map a f p)) b = (if b = a then map_option f (gm_get (p_heap p) b) else gm_get (p_heap p) b)"
  by (auto simp: heap_map_def gm_get_set split: option.splits)

lemma heap_fold_frame: "same_frame (fold (\<lambda>a. heap_map a f) as p) p"
  by (induction as arbitrary: p) (auto intro: same_frame_trans heap_map_frame)

lemma heap_fold_get:
  assumes "gm_get (p_heap (fold (\<lambda>a. heap_map a f) as p)) b = Some pa'" and "pa_update f"
  shows "\<exists>pa. gm_get (p_heap p) b = Some pa \<and> pa_le pa pa' \<and> (b \<in> set as \<longrightarrow> (\<exists>pa0. pa' = f pa0))"
  using assms(1)
proof (induction as arbitrary: pa' rule: rev_induct)
  case Nil
  then show ?case by simp
next
  case (snoc a as)
  show ?case
  proof (cases "a = b")
    case False
    then have "gm_get (p_heap (fold (\<lambda>a. heap_map a f) as p)) b = Some pa'"
      using snoc.prems by (simp add: heap_map_get)
    from snoc.IH [OF this] False show ?thesis by auto
  next
    case True
    then obtain pa0 where pa0: "gm_get (p_heap (fold (\<lambda>a. heap_map a f) as p)) b = Some pa0" "pa' = f pa0"
      using snoc.prems by (auto simp: heap_map_get)
    from snoc.IH [OF pa0(1)] obtain pa where pa: "gm_get (p_heap p) b = Some pa" "pa_le pa pa0" by blast
    have "pa_le pa pa'" using assms(2) pa(2) pa0(2) pa_le_trans unfolding pa_update_def by blast
    with pa(1) pa0(2) show ?thesis by blast
  qed
qed

lemma flight_fold:
  assumes "flight_ok p" and "pa_update f"
  shows "flight_ok (fold (\<lambda>a. heap_map a f) as p)"
proof -
  let ?q = "fold (\<lambda>a. heap_map a f) as p"
  have fr: "same_frame ?q p" by (rule heap_fold_frame)
  have "a < p_fresh ?q \<and> pa_ok pa' \<and> (\<not> pa_discard pa' \<longrightarrow> a \<in> set (pending_items ?q (pa_key pa')))
      \<and> (p_closed ?q \<longrightarrow> pa_finished pa')" if get: "gm_get (p_heap ?q) a = Some pa'" for a pa'
  proof -
    obtain pa where pa: "gm_get (p_heap p) a = Some pa" "pa_le pa pa'"
      using heap_fold_get [OF get assms(2)] by blast
    note old = flight_okD [OF assms(1) pa(1)]
    have "pa_ok pa' \<and> pa_key pa' = pa_key pa \<and> (pa_finished pa \<longrightarrow> pa_finished pa')
        \<and> (\<not> pa_discard pa' \<longrightarrow> \<not> pa_discard pa)"
      using pa(2) old(2) by (simp add: pa_le_def)
    moreover have "p_fresh ?q = p_fresh p" "p_closed ?q = p_closed p" "pending_items ?q = pending_items p"
      using fr by (simp_all add: same_frame_def pending_items_def fun_eq_iff)
    ultimately show ?thesis using old by metis
  qed
  then show ?thesis using assms(1) fr by (simp add: flight_ok_def same_frame_def)
qed

lemma flight_heap_map: "flight_ok p \<Longrightarrow> pa_update f \<Longrightarrow> flight_ok (heap_map a f p)"
  using flight_fold [of p f "[a]"] by simp


lemma pending_items_update:
  "pending_items (p\<lparr>p_pending := gm_set k items (p_pending p)\<rparr>) k' = (if k' = k then items else pending_items p k')"
  "pending_items (p\<lparr>p_pending := gm_del k (p_pending p)\<rparr>) k' = (if k' = k then [] else pending_items p k')"
  by (auto simp: pending_items_def gm_get_set gm_get_del)

lemma flight_cong:
  assumes "flight_ok p" and "p_heap q = p_heap p" and "p_fresh q = p_fresh p"
    and "p_pending q = p_pending p" and "p_closed q = p_closed p"
  shows "flight_ok q"
  using assms by (simp add: flight_ok_def pending_items_def)

lemma heap_map_closed: "heap_map a f (p\<lparr>p_closed := b\<rparr>) = (heap_map a f p)\<lparr>p_closed := b\<rparr>"
  by (cases p) (simp add: heap_map_def split: option.splits)

lemma flight_Close:
  assumes "flight_ok p"
  shows "flight_ok (processor_Close p)"
proof (cases "p_closed p")
  case True
  then show ?thesis using assms by (simp add: processor_Close_def)
next
  case False
  let ?as = "concat (map snd (p_pending p))"
  define q where "q = fold (\<lambda>a. heap_map a pa_Cancel) ?as p"
  have frame: "same_frame q p" unfolding q_def by (rule heap_fold_frame)
  have q: "flight_ok q" unfolding q_def by (rule flight_fold [OF assms pa_update_Cancel(1)])
  have fin: "pa_finished pa'" if get: "gm_get (p_heap q) a = Some pa'" for a pa'
  proof -
    obtain pa where pa: "gm_get (p_heap p) a = Some pa" "pa_le pa pa'" "a \<in> set ?as \<longrightarrow> (\<exists>pa0. pa' = pa_Cancel pa0)"
      using heap_fold_get [OF get [unfolded q_def] pa_update_Cancel(1)] by blast
    show ?thesis
    proof (cases "pa_discard pa")
      case True
      then show ?thesis using flight_okD(2) [OF assms pa(1)] pa(2) by (auto simp: pa_le_def pa_ok_def)
    next
      case False
      from flight_okD(3) [OF assms pa(1) this] obtain items where
        "gm_get (p_pending p) (pa_key pa) = Some items" "a \<in> set items"
        by (cases "gm_get (p_pending p) (pa_key pa)") (auto simp: pending_items_def)
      then have "a \<in> set ?as" by (force dest: map_of_SomeD)
      with pa(3) show ?thesis using pa_Cancel_finished by blast
    qed
  qed
  have comm: "fold (\<lambda>a. heap_map a pa_Cancel) as (p\<lparr>p_closed := True\<rparr>)
      = (fold (\<lambda>a. heap_map a pa_Cancel) as p)\<lparr>p_closed := True\<rparr>" for as
    by (induction as arbitrary: p) (simp_all add: heap_map_closed)
  have "processor_Close p = q\<lparr>p_closed := True\<rparr>" using False comm by (simp add: processor_Close_def q_def)
  moreover have "flight_ok (q\<lparr>p_closed := True\<rparr>)"
    using q fin by (simp add: flight_ok_def pending_items_def)
  ultimately show ?thesis by simp
qed

lemma flight_Remove:
  assumes "flight_ok p"
  shows "flight_ok (RemoveContainer c p)"
proof (cases "gm_get (p_pending p) c")
  case None
  then show ?thesis using assms by (simp add: RemoveContainer_def flight_cong [OF assms])
next
  case (Some items)
  let ?f = "\<lambda>pa. pa_Cancel (pa\<lparr>pa_discard := True\<rparr>)"
  define q where "q = fold (\<lambda>a. heap_map a ?f) items p"
  have frame: "same_frame q p" unfolding q_def by (rule heap_fold_frame)
  have q: "flight_ok q" unfolding q_def by (rule flight_fold [OF assms pa_update_Cancel(2)])
  have disc: "pa_discard pa'" if get: "gm_get (p_heap q) a = Some pa'" and key: "pa_key pa' = c" for a pa'
  proof (rule ccontr)
    assume nd: "\<not> pa_discard pa'"
    then have "a \<in> set (pending_items q c)" using flight_okD(3) [OF q get] key by simp
    then have "a \<in> set items" using Some frame by (simp add: pending_items_def same_frame_def)
    then obtain pa0 where "pa' = ?f pa0" using heap_fold_get [OF get [unfolded q_def] pa_update_Cancel(2)] by blast
    with nd show False by (simp add: pa_Cancel_def)
  qed
  have pq: "p_pending q = p_pending p" using frame by (simp add: same_frame_def)
  have eq: "RemoveContainer c p = q\<lparr>p_pending := gm_del c (p_pending q), p_context := store_Remove c (p_context q)\<rparr>"
    using Some by (simp add: RemoveContainer_def Let_def q_def [symmetric] pq)
  have "flight_ok (q\<lparr>p_pending := gm_del c (p_pending q)\<rparr>)"
    using q disc unfolding flight_ok_def pending_items_update by auto
  then show ?thesis unfolding eq by (rule flight_cong) simp_all
qed


lemma flight_await:
  assumes "flight_ok p" and "gm_get (p_heap p) address = Some pending"
  shows "flight_ok (awaitContext (pa_key pending) address p)"
proof -
  let ?k = "pa_key pending"
  define q where "q = awaitContext ?k address p"
  have heap: "p_heap q = gm_del address (p_heap p)" and fr: "p_fresh q = p_fresh p" "p_closed q = p_closed p"
    using assms(2) by (auto simp: q_def awaitContext_def emit_def Let_def split: option.splits)
  have items: "a \<in> set (pending_items q k)" if "a \<in> set (pending_items p k)" "a \<noteq> address" for a k
    using that assms(2)
    by (auto simp: q_def awaitContext_def emit_def Let_def pending_items_def gm_get_set gm_get_del
        filter_empty_conv split: option.splits)
  have "flight_ok q"
    unfolding flight_ok_def heap fr gm_get_del
    using assms(1) items flight_okD [OF assms(1)] by (auto simp: flight_ok_def)
  then show ?thesis by (simp add: q_def)
qed

lemma flight_queueAlert:
  assumes "flight_ok p" and "\<not> p_closed p"
  shows "flight_ok (queueAlert matched entry fp result p)
    \<and> p_closed (queueAlert matched entry fp result p) = p_closed p
    \<and> p_observer (queueAlert matched entry fp result p) = p_observer p
    \<and> length (p_sink (queueAlert matched entry fp result p)) + length (p_heap (queueAlert matched entry fp result p))
        = Suc (length (p_sink p) + length (p_heap p))"
proof (cases "rk_After (r_Context matched) \<le> 0")
  case True
  then show ?thesis using assms(1)
    by (auto simp: queueAlert_def Let_def emit_def intro: flight_cong)
next
  case False
  have fresh: "p_fresh p \<notin> fst ` set (p_heap p)"
    using flight_okD(1) [OF assms(1), of "p_fresh p"] by (metis gm_get_None less_irrefl not_None_eq)
  define c where "c = NewAfterCollector (store_Last (p_context p) (containerKey entry) (rk_Before (r_Context matched)))
    entry \<lparr>cc_After = rk_After (r_Context matched), cc_AfterWait = rk_AfterWait (r_Context matched),
      cc_MaxBytes = rk_MaxBytes (r_Context matched)\<rparr>"
  define pa where "pa = \<lparr>pa_collector = c, pa_alert = alert_of matched entry fp result,
    pa_maxBytes = rk_MaxBytes (r_Context matched), pa_discard = False\<rparr>"
  define q where "q = p\<lparr>p_heap := gm_set (p_fresh p) pa (p_heap p), p_fresh := p_fresh p + 1,
    p_pending := gm_set (containerKey entry) (pending_items p (containerKey entry) @ [p_fresh p]) (p_pending p)\<rparr>"
  have eq: "queueAlert matched entry fp result p = q"
    using False by (simp add: queueAlert_def Let_def q_def pa_def c_def pending_items_def)
  have pa: "pa_ok pa" "pa_key pa = containerKey entry" "\<not> pa_discard pa"
    using False by (simp_all add: pa_def c_def pa_ok_def collector_defs)
  have items: "pending_items q k = (if k = containerKey entry
      then pending_items p k @ [p_fresh p] else pending_items p k)" for k
    by (simp add: q_def pending_items_def gm_get_set)
  have "a < p_fresh q \<and> pa_ok x \<and> (\<not> pa_discard x \<longrightarrow> a \<in> set (pending_items q (pa_key x)))
      \<and> (p_closed q \<longrightarrow> pa_finished x)" if get: "gm_get (p_heap q) a = Some x" for a x
  proof (cases "a = p_fresh p")
    case True
    then have "x = pa" using get by (simp add: q_def gm_get_set)
    with True pa items assms(2) show ?thesis by (simp add: q_def)
  next
    case False
    then have "gm_get (p_heap p) a = Some x" using get by (simp add: q_def gm_get_set)
    from flight_okD [OF assms(1) this] items assms(2) show ?thesis by (auto simp: q_def)
  qed
  moreover have "gm_wf (p_heap q)" using assms(1) by (simp add: q_def flight_ok_def)
  ultimately have "flight_ok q" unfolding flight_ok_def by blast
  with fresh show ?thesis unfolding eq by (simp add: q_def length_gm_set)
qed


subsection \<open>Conservation of alerts\<close>

text \<open>The alerts that the aggregator has decided on, as the observer saw them.\<close>

definition raised :: "'re Processor \<Rightarrow> nat" where
  "raised p = (case p_observer p of None \<Rightarrow> 0
     | Some log \<Rightarrow> length (filter (\<lambda>ev. case ev of ObsAggregated _ r \<Rightarrow> rs_Alert r | _ \<Rightarrow> False) log))"

definition balance_ok :: "nat \<Rightarrow> 're Processor \<Rightarrow> bool" where
  "balance_ok n p \<longleftrightarrow> flight_ok p \<and> p_observer p \<noteq> None
     \<and> raised p = length (p_sink p) + length (p_heap p) + n"

lemma balance_observe:
  "balance_ok n p \<Longrightarrow> (\<And>i r. ev = ObsAggregated i r \<Longrightarrow> \<not> rs_Alert r) \<Longrightarrow> balance_ok n (observe ev p)"
  by (cases ev) (auto simp: balance_ok_def raised_def observe_def intro: flight_cong)

lemma balance_frame:
  assumes "balance_ok n p" and "same_frame q p" and "flight_ok q"
  shows "balance_ok n q"
  using assms same_frame_length [OF assms(2)] by (simp add: balance_ok_def raised_def same_frame_def)

text \<open>The body of the loop over the matches, with the answer of the aggregator named.\<close>

lemma handle_match_outcome:
  obtains a' outcome fp where "handle_match R sha entry (now, matched) (p, err) =
     (let q = (observe (ObsRuleMatched (r_ID matched)) p)\<lparr>p_aggregator := a'\<rparr> in
      case outcome of
        Inl err \<Rightarrow> (q, Some err)
      | Inr result \<Rightarrow> if \<not> rs_Alert result then (observe (ObsAggregated (r_ID matched) result) q, err)
          else (queueAlert matched entry fp result (observe (ObsAggregated (r_ID matched) result) q), err))"
proof -
  define fp where "fp = rule_Fingerprint R sha matched entry"
  obtain a' outcome where rec: "agg_Record (p_aggregator (observe (ObsRuleMatched (r_ID matched)) p)) now
      \<lparr>ev_Rule = matched, ev_Fingerprint = fp, ev_Entry = entry\<rparr> = (a', outcome)" by fastforce
  show ?thesis
    by (rule that [of a' fp outcome]) (unfold handle_match_def Let_def prod.case fp_def [symmetric] rec, rule refl)
qed

lemma balance_handle_match:
  assumes "balance_ok n (fst st)" and "\<not> p_closed (fst st)"
  shows "balance_ok n (fst (handle_match R sha entry match st)) \<and> \<not> p_closed (fst (handle_match R sha entry match st))"
proof -
  obtain now matched p err where st: "match = (now, matched)" "st = (p, err)" by (cases match; cases st)
  obtain a' outcome fp where eq: "handle_match R sha entry match st =
     (let q = (observe (ObsRuleMatched (r_ID matched)) p)\<lparr>p_aggregator := a'\<rparr> in
      case outcome of
        Inl err \<Rightarrow> (q, Some err)
      | Inr result \<Rightarrow> if \<not> rs_Alert result then (observe (ObsAggregated (r_ID matched) result) q, err)
          else (queueAlert matched entry fp result (observe (ObsAggregated (r_ID matched) result) q), err))"
    unfolding st by (rule handle_match_outcome)
  define q' where "q' = (observe (ObsRuleMatched (r_ID matched)) p)\<lparr>p_aggregator := a'\<rparr>"
  note eq = eq [unfolded Let_def, folded q'_def]
  have "balance_ok n (observe (ObsRuleMatched (r_ID matched)) p)"
    by (rule balance_observe) (use assms(1) st in simp_all)
  then have q': "balance_ok n q'"
    by (auto simp: balance_ok_def raised_def q'_def intro: flight_cong)
  have opn: "\<not> p_closed q'" using assms(2) by (simp add: q'_def observe_def st)
  show ?thesis
  proof (cases outcome)
    case (Inl e)
    then show ?thesis using q' opn by (simp add: eq)
  next
    case (Inr res)
    define r where "r = observe (ObsAggregated (r_ID matched) res) q'"
    have r: "flight_ok r" "\<not> p_closed r" "p_observer r \<noteq> None"
      using q' opn by (auto simp: r_def balance_ok_def observe_def intro: flight_cong)
    show ?thesis
    proof (cases "rs_Alert res")
      case False
      then have "balance_ok n r" unfolding r_def by (intro balance_observe [OF q']) auto
      then show ?thesis using False Inr r(2) by (simp add: eq r_def)
    next
      case True
      have "raised r = Suc (raised q')" using q' True by (auto simp: r_def raised_def observe_def balance_ok_def)
      moreover have "p_sink r = p_sink q'" "p_heap r = p_heap q'" by (simp_all add: r_def observe_def)
      moreover have "raised (queueAlert matched entry fp res r) = raised r"
        using flight_queueAlert [OF r(1,2), of matched entry fp res] by (simp add: raised_def)
      ultimately have "balance_ok n (queueAlert matched entry fp res r)"
        using flight_queueAlert [OF r(1,2), of matched entry fp res] q' r(3) by (simp add: balance_ok_def)
      then show ?thesis using True Inr flight_queueAlert [OF r(1,2), of matched entry fp res] r(2)
        by (simp add: eq r_def)
    qed
  qed
qed


lemma balance_Process:
  assumes "balance_ok n p" and "processor_Process R sha clock p raw = (p', ack, err)"
  shows "balance_ok n p'"
proof (cases "p_closed p")
  case True
  then show ?thesis using assms by (simp add: processor_Process_def)
next
  case False
  define entry where "entry = sanitize R p raw"
  define q where "q = observe (ObsParsed entry) p"
  define ms where "ms = matches_of R q entry"
  define keeps where "keeps = (KeepsContext (router_Route (p_router q) entry) \<or> ms \<noteq> [])"
  define q1 where "q1 = (if keeps then addAfterContext entry q else q)"
  obtain q2 e2 where f: "fold (handle_match R sha entry) (zip (map clock [0..<length ms]) ms) (q1, None) = (q2, e2)"
    by fastforce
  have q: "balance_ok n q" unfolding q_def by (rule balance_observe [OF assms(1)]) simp
  have frame: "same_frame q1 q" by (simp add: q1_def addAfterContext_def heap_fold_frame)
  have "flight_ok q1" using q by (simp add: q1_def addAfterContext_def balance_ok_def flight_fold pa_update_Add)
  then have q1: "balance_ok n q1" by (rule balance_frame [OF q frame])
  have opn: "\<not> p_closed q1" using frame False by (simp add: same_frame_def q_def observe_def)
  have "balance_ok n (fst (fold (handle_match R sha entry) (zip (map clock [0..<length ms]) ms) (q1, None)))
      \<and> \<not> p_closed (fst (fold (handle_match R sha entry) (zip (map clock [0..<length ms]) ms) (q1, None)))"
    by (rule fold_invariant [where Q = "\<lambda>_. True"])
      (use q1 opn in simp, use q1 opn in simp, rule balance_handle_match, simp_all)
  then have q2: "balance_ok n q2" by (simp add: f)
  have "p' = (if keeps then q2\<lparr>p_context := store_Append entry (p_context q2)\<rparr> else q2)"
    using assms(2) False
    unfolding processor_Process_def Let_def entry_def [symmetric] q_def [symmetric] ms_def [symmetric]
      keeps_def [symmetric] q1_def [symmetric] f
    by simp
  then show ?thesis using q2 by (auto simp: balance_ok_def raised_def intro: flight_cong)
qed

lemma balance_await:
  assumes "balance_ok n p" and "gm_get (p_heap p) address = Some pending"
  shows "balance_ok (if pa_discard pending then Suc n else n) (awaitContext (pa_key pending) address p)"
proof -
  let ?q = "awaitContext (pa_key pending) address p"
  have fl: "flight_ok p" using assms(1) by (simp add: balance_ok_def)
  have "address \<in> fst ` set (p_heap p)" using assms(2) by (metis gm_get_None option.distinct(1))
  then have "0 < length (p_heap p) \<and> length (gm_del address (p_heap p)) = length (p_heap p) - 1"
    using fl by (auto simp: flight_ok_def length_gm_del)
  then have len: "length (p_heap p) = Suc (length (gm_del address (p_heap p)))" by simp
  obtain x where eq: "?q = (if pa_discard pending then p\<lparr>p_heap := gm_del address (p_heap p)\<rparr>
     else emit ((pa_alert pending)\<lparr>alt_Context :=
            capture_Lines (hd (ac_done (pa_collector pending))) (pa_maxBytes pending)\<rparr>)
          (p\<lparr>p_heap := gm_del address (p_heap p), p_pending := x\<rparr>))"
    using awaitContext_eq [OF assms(2)] by blast
  show ?thesis
    using flight_await [OF fl assms(2)] assms(1) len
    by (simp add: balance_ok_def raised_def eq emit_def split: if_splits)
qed

definition is_discard :: "proc_label \<Rightarrow> bool" where
  "is_discard l = (case l of PDiscard _ \<Rightarrow> True | _ \<Rightarrow> False)"

lemma balance_step:
  assumes "balance_ok n p" and "proc_step R sha l p p'"
  shows "balance_ok (if is_discard l then Suc n else n) p'"
  using assms(2)
proof cases
  case (proc_Process clock raw ack err)
  then show ?thesis using balance_Process [OF assms(1)] by (simp add: is_discard_def)
next
  case (proc_Timer address pending)
  have "balance_ok n (heap_map address pa_Cancel p)"
    using assms(1) by (intro balance_frame [OF assms(1) heap_map_frame] flight_heap_map pa_update_Cancel)
      (simp add: balance_ok_def)
  then show ?thesis using proc_Timer by (simp add: is_discard_def)
next
  case (proc_Await address pending key)
  then show ?thesis using balance_await [OF assms(1), of address pending] by (simp add: is_discard_def)
next
  case (proc_Discard address pending key)
  then show ?thesis using balance_await [OF assms(1), of address pending] by (simp add: is_discard_def)
next
  case proc_Close
  have "same_frame (processor_Close p) (p\<lparr>p_closed := True\<rparr>) \<or> processor_Close p = p"
    by (auto simp: processor_Close_def heap_fold_frame)
  then have "p_observer (processor_Close p) = p_observer p" "p_sink (processor_Close p) = p_sink p"
    "length (p_heap (processor_Close p)) = length (p_heap p)"
    using same_frame_length [of "processor_Close p" "p\<lparr>p_closed := True\<rparr>"]
    by (auto simp: same_frame_def)
  then show ?thesis using proc_Close assms(1) flight_Close [of p]
    by (simp add: is_discard_def balance_ok_def raised_def)
next
  case (proc_Remove container)
  have fl: "flight_ok (RemoveContainer container p)" using assms(1) by (simp add: balance_ok_def flight_Remove)
  let ?f = "\<lambda>pa. pa_Cancel (pa\<lparr>pa_discard := True\<rparr>)"
  define q where "q = (case gm_get (p_pending p) container of None \<Rightarrow> p
    | Some items \<Rightarrow> fold (\<lambda>a. heap_map a ?f) items p)"
  have frame: "same_frame q p" by (auto simp: q_def heap_fold_frame split: option.splits)
  then have "p_observer q = p_observer p" "p_sink q = p_sink p" by (simp_all add: same_frame_def)
  moreover have "length (p_heap q) = length (p_heap p)" by (rule same_frame_length [OF frame])
  moreover have "p_observer (RemoveContainer container p) = p_observer q"
    "p_sink (RemoveContainer container p) = p_sink q" "p_heap (RemoveContainer container p) = p_heap q"
    by (auto simp: RemoveContainer_def q_def Let_def split: option.splits)
  ultimately show ?thesis using proc_Remove fl assms(1) by (simp add: is_discard_def balance_ok_def raised_def)
qed

lemma balance_run:
  assumes "run (proc_step R sha) p0 ls p" and "balance_ok 0 p0"
  shows "balance_ok (length (filter is_discard ls)) p"
  using assms
proof (induction rule: run.induct)
  case run_start
  then show ?case by simp
next
  case (run_step ls p l p')
  from balance_step [OF run_step.IH [OF run_step.prems] run_step.hyps(2)] show ?case by (simp split: if_splits)
qed

interpretation flights: step_invariant "proc_step R sha" "\<lambda>p. \<exists>n. balance_ok n p" for R sha
  by unfold_locales (blast dest: balance_step)

text \<open>
  Alerts are neither lost nor duplicated by the pipeline. Along every run of a processor
  with an observer, the number of alert decisions of the aggregator is the number of alerts
  handed to the sink, plus those still waiting for their context, plus those discarded
  because their container was removed.
\<close>

theorem Processor_alert_accounting:
  assumes "processor_New parse redactor context router rules aggregator (Some []) (Some []) = Inr p0"
    and "run (proc_step R sha) p0 ls p"
  shows "raised p = length (p_sink p) + length (p_heap p) + length (filter is_discard ls)"
proof -
  have "balance_ok 0 p0"
    using assms(1) by (auto simp: processor_New_def balance_ok_def flight_ok_def raised_def split: option.splits)
  from balance_run [OF assms(2) this] show ?thesis by (simp add: balance_ok_def)
qed

lemma drain:
  assumes "flight_ok p" and "p_closed p" and "length (p_heap p) = n"
  shows "\<exists>ls p'. run (proc_step R sha) p ls p' \<and> p_heap p' = [] \<and> length ls = n
    \<and> list_all (\<lambda>l. \<exists>a. l = PAwait a \<or> l = PDiscard a) ls"
  using assms
proof (induction n arbitrary: p)
  case 0
  then show ?case using run_start [of "proc_step R sha" p] by (intro exI [of _ "[]"] exI [of _ p]) simp
next
  case (Suc n)
  then obtain a pa rest where heap: "p_heap p = (a, pa) # rest" by (cases "p_heap p") auto
  then have get: "gm_get (p_heap p) a = Some pa" by simp
  have d: "ac_done (pa_collector pa) \<noteq> []"
    using flight_okD(2,4) [OF Suc.prems(1) get] Suc.prems(2) by (simp add: pa_ok_def)
  define l where "l = (if pa_discard pa then PDiscard a else PAwait a)"
  let ?q = "awaitContext (pa_key pa) a p"
  have step: "proc_step R sha l p ?q" using get d by (simp add: l_def proc_Await proc_Discard)
  have "p_heap ?q = gm_del a (p_heap p)" "p_closed ?q"
    using get Suc.prems(2) by (auto simp: awaitContext_def emit_def Let_def split: option.splits)
  moreover have "length (gm_del a (p_heap p)) = n"
    using Suc.prems(1,3) heap by (simp add: flight_ok_def length_gm_del)
  ultimately obtain ls p' where r: "run (proc_step R sha) ?q ls p'" "p_heap p' = []" "length ls = n"
      "list_all (\<lambda>l. \<exists>a. l = PAwait a \<or> l = PDiscard a) ls"
    using Suc.IH [of ?q] flight_await [OF Suc.prems(1) get] by auto
  have "run (proc_step R sha) p ([] @ [l]) ?q"
    by (rule run_step [where step = "proc_step R sha", OF run_start step])
  from run_trans [OF r(1) this] r(2-4) show ?case
    by (intro exI [of _ "l # ls"] exI [of _ p']) (simp add: l_def)
qed

text \<open>
  \<open>Close\<close> terminates: once the processor is closed, every goroutine that waits for
  context has a capture to receive, so the waiting ends after as many steps as there are
  pending alerts, with no further event from outside, and none is left.
\<close>

theorem Processor_Close_drains:
  assumes "processor_New parse redactor context router rules aggregator (Some []) (Some []) = Inr p0"
    and "run (proc_step R sha) p0 ls p" and "p_closed p"
  shows "(\<forall>a pa. gm_get (p_heap p) a = Some pa \<longrightarrow> ac_done (pa_collector pa) \<noteq> [])
    \<and> (\<exists>ls' p'. run (proc_step R sha) p ls' p' \<and> p_heap p' = [] \<and> length ls' = length (p_heap p)
        \<and> list_all (\<lambda>l. \<exists>a. l = PAwait a \<or> l = PDiscard a) ls')"
proof -
  have "balance_ok 0 p0"
    using assms(1) by (auto simp: processor_New_def balance_ok_def flight_ok_def raised_def split: option.splits)
  then have fl: "flight_ok p" using flights.run_keeps [OF assms(2)] by (auto simp: balance_ok_def)
  show ?thesis using flight_okD(2,4) [OF fl] assms(3) drain [OF fl assms(3) refl] by (auto simp: pa_ok_def)
qed


subsection \<open>Examples\<close>

definition example_redactor :: "(bool \<times> string) Redactor" where
  "example_redactor = \<lparr>rd_rules = [\<lparr>cr_pattern = (False, ''x''), cr_replace = ''*''\<rparr>]\<rparr>"

lemma example_redactor_clean: "\<not> contains_str (RedactString literal_lib (Some example_redactor) s) ''tok-x9''"
  using literal_replace_gone [of "CHR ''x''" "''*''" s]
  by (auto simp: contains_str_iff RedactString_def literal_lib_def example_redactor_def dest: set_mono_sublist)

definition example_processor :: "(bool \<times> string) Processor" where
  "example_processor =
     \<lparr>p_parser = Parse, p_redactor = Some example_redactor,
      p_context = \<lparr>s_capacity = 3, s_buffers = []\<rparr>, p_router = router_Default,
      p_rules = NewEngine [example_rule\<lparr>r_Threshold := 1\<rparr>], p_aggregator = example_agg, p_sink = [],
      p_observer = Some [], p_pending = [], p_heap = [], p_fresh = 0, p_closed = False\<rparr>"

lemma example_processor_New:
  "processor_New (Some Parse) (Some example_redactor) (Some \<lparr>s_capacity = 3, s_buffers = []\<rparr>) router_Default
     (NewEngine [example_rule\<lparr>r_Threshold := 1\<rparr>]) (Some example_agg) (Some []) (Some []) = Inr example_processor"
  by (simp add: processor_New_def example_processor_def)

lemma example_processor_fresh: "fresh_processor example_redactor 3 (2, hour, 3) example_processor"
proof -
  have "NewStore 3 = Inr \<lparr>s_capacity = 3, s_buffers = []\<rparr>" by (simp add: NewStore_def)
  with example_agg_New example_processor_New show ?thesis
    unfolding fresh_processor_def fst_conv snd_conv by blast
qed

lemma example_processor_run:
  "\<exists>p ack err. processor_Process literal_lib id (\<lambda>_. 100) example_processor
       (example_raw ''ERROR call with tok-x9 failed'') = (p, ack, err)
     \<and> run (proc_step literal_lib id) example_processor
         [PProcess (\<lambda>_. 100) (example_raw ''ERROR call with tok-x9 failed''), PClose] (processor_Close p)"
proof -
  obtain p ack err where pr: "processor_Process literal_lib id (\<lambda>_. 100) example_processor
      (example_raw ''ERROR call with tok-x9 failed'') = (p, ack, err)" by (metis prod_cases3)
  note r1 = run_step [where step = "proc_step literal_lib id", OF run_start proc_Process [OF pr]]
  from run_step [where step = "proc_step literal_lib id", OF r1 proc_Close] pr show ?thesis by auto
qed

text \<open>
  Field keys are not redacted: the rules remove the token from every string, and the key of the
  parsed field keeps it in the entry that \<open>Process\<close> hands to context, aggregation and alerts.
\<close>

lemma Redact_keeps_secret_keys:
  "(\<forall>s. \<not> contains_str (RedactString literal_lib (Some example_redactor) s) ''tok-x9'')
    \<and> le_Fields (sanitize literal_lib example_processor (example_raw ''ERROR failed, tok-x9: 1''))
         = Some [(''tok-x9'', ''1'')]"
proof
  show "\<forall>s. \<not> contains_str (RedactString literal_lib (Some example_redactor) s) ''tok-x9''"
    using example_redactor_clean by blast
  show "le_Fields (sanitize literal_lib example_processor (example_raw ''ERROR failed, tok-x9: 1''))
         = Some [(''tok-x9'', ''1'')]"
    by code_simp
qed

theorem Processor_confidential_witness:
  "\<exists>p ack err. processor_Process literal_lib id (\<lambda>_. 100) example_processor
       (example_raw ''ERROR call with tok-x9 failed'') = (p, ack, err)
     \<and> (\<forall>a \<in> set (p_sink (processor_Close p)). \<forall>t \<in> alert_texts a. \<not> contains_str t ''tok-x9'')
     \<and> (\<forall>c limit. \<forall>e \<in> set (store_Last (p_context (processor_Close p)) c limit).
          \<forall>t \<in> entry_texts e. \<not> contains_str t ''tok-x9'')"
proof -
  obtain p ack err where pr: "processor_Process literal_lib id (\<lambda>_. 100) example_processor
       (example_raw ''ERROR call with tok-x9 failed'') = (p, ack, err)"
    and r: "run (proc_step literal_lib id) example_processor
         [PProcess (\<lambda>_. 100) (example_raw ''ERROR call with tok-x9 failed''), PClose] (processor_Close p)"
    using example_processor_run by blast
  from Processor_confidential [OF example_redactor_clean example_processor_fresh r] pr show ?thesis by blast
qed

theorem Processor_alert_accounting_witness:
  "\<exists>p ack err. processor_Process literal_lib id (\<lambda>_. 100) example_processor
       (example_raw ''ERROR call with tok-x9 failed'') = (p, ack, err)
     \<and> raised (processor_Close p) = length (p_sink (processor_Close p)) + length (p_heap (processor_Close p))"
proof -
  obtain p ack err where pr: "processor_Process literal_lib id (\<lambda>_. 100) example_processor
       (example_raw ''ERROR call with tok-x9 failed'') = (p, ack, err)"
    and r: "run (proc_step literal_lib id) example_processor
         [PProcess (\<lambda>_. 100) (example_raw ''ERROR call with tok-x9 failed''), PClose] (processor_Close p)"
    using example_processor_run by blast
  from Processor_alert_accounting [OF example_processor_New r] pr show ?thesis by (simp add: is_discard_def)
qed

theorem Processor_Close_drains_witness:
  "\<exists>p ls' p'. run (proc_step literal_lib id) (processor_Close p) ls' p' \<and> p_closed (processor_Close p)
     \<and> p_heap p' = []"
proof -
  obtain p where r: "run (proc_step literal_lib id) example_processor
         [PProcess (\<lambda>_. 100) (example_raw ''ERROR call with tok-x9 failed''), PClose] (processor_Close p)"
    using example_processor_run by blast
  have "p_closed (processor_Close p)"
    using heap_fold_frame [of pa_Cancel "concat (map snd (p_pending p))" "p\<lparr>p_closed := True\<rparr>"]
    by (simp add: processor_Close_def same_frame_def)
  with Processor_Close_drains [OF example_processor_New r] show ?thesis by blast
qed

end
