(* ===== verification/Duration_Text.thy ===== *)
theory Duration_Text
  imports Glw_Prelude
begin

text \<open>
  The text form of durations: \<open>internal/config/duration.go\<close>, with \<open>String\<close> and \<open>ParseDuration\<close> of
  package \<open>time\<close>, which it calls. The fraction of a number is scaled in floating point; this one
  expression is the parameter \<open>frac\<close> of the parser, and \<open>float_exact\<close> says that it is exact where
  the operands and the result are integers of at most 53 bits.
\<close>

section \<open>Printing\<close>

text \<open>\<open>fmtFrac\<close> writes from the right: \<open>acc\<close> is what the buffer holds.\<close>

fun fmtFrac_loop :: "nat \<Rightarrow> nat \<Rightarrow> bool \<Rightarrow> string \<Rightarrow> string \<times> nat" where
  "fmtFrac_loop 0 v print acc = (if print then CHR ''.'' # acc else acc, v)"
| "fmtFrac_loop (Suc n) v print acc =
     (let digit = v mod 10;
          print = (print \<or> digit \<noteq> 0);
          acc = (if print then char_of (48 + digit) # acc else acc)
      in fmtFrac_loop n (v div 10) print acc)"

definition fmtFrac :: "nat \<Rightarrow> nat \<Rightarrow> string \<times> nat" where
  "fmtFrac prec v = fmtFrac_loop prec v False []"

definition micros :: string where
  "micros = [CHR 0xC2, CHR 0xB5, CHR ''s'']"

definition small_unit :: "nat \<Rightarrow> nat \<times> string" where
  "small_unit u = (if u < 1000 then (0, ''ns'') else if u < 1000000 then (3, micros) else (6, ''ms''))"

definition format_small :: "nat \<Rightarrow> string" where
  "format_small u =
     (if u = 0 then ''0s''
      else let (prec, unit) = small_unit u; (fr, v) = fmtFrac prec u in digits v @ fr @ unit)"

definition format_large :: "nat \<Rightarrow> string" where
  "format_large u =
     (let (fr, secs) = fmtFrac 9 u;
          text = digits (secs mod 60) @ fr @ ''s'';
          mins = secs div 60
      in if mins = 0 then text
         else let text = digits (mins mod 60) @ ''m'' @ text; hours = mins div 60
              in if hours = 0 then text else digits hours @ ''h'' @ text)"

definition Duration_String :: "duration \<Rightarrow> string" where
  "Duration_String d =
     (let u = nat \<bar>d\<bar>;
          text = (if u < 1000000000 then format_small u else format_large u)
      in if d < 0 then CHR ''-'' # text else text)"

definition MarshalYAML :: "duration \<Rightarrow> string" where
  "MarshalYAML d = Duration_String d"


section \<open>Parsing\<close>

datatype dur_error = DurInvalid | DurMissingUnit | DurUnknownUnit string

definition dec_digit :: "char \<Rightarrow> bool" where
  "dec_digit c \<longleftrightarrow> 48 \<le> (of_char c :: nat) \<and> (of_char c :: nat) \<le> 57"

definition dec_value :: "char \<Rightarrow> nat" where
  "dec_value c = of_char c - 48"

fun leadingInt :: "nat \<Rightarrow> string \<Rightarrow> (nat \<times> string) option" where
  "leadingInt x [] = Some (x, [])"
| "leadingInt x (c # s) =
     (if \<not> dec_digit c then Some (x, c # s)
      else if 2 ^ 63 div 10 < x then None
      else let x = x * 10 + dec_value c in if 2 ^ 63 < x then None else leadingInt x s)"

fun leadingFraction :: "nat \<Rightarrow> nat \<Rightarrow> bool \<Rightarrow> string \<Rightarrow> nat \<times> nat \<times> string" where
  "leadingFraction x scale overflow [] = (x, scale, [])"
| "leadingFraction x scale overflow (c # s) =
     (if \<not> dec_digit c then (x, scale, c # s)
      else if overflow then leadingFraction x scale overflow s
      else if (2 ^ 63 - 1) div 10 < x then leadingFraction x scale True s
      else let y = x * 10 + dec_value c in
        if 2 ^ 63 < y then leadingFraction x scale True s else leadingFraction y (scale * 10) overflow s)"

definition unitMap :: "string \<Rightarrow> nat option" where
  "unitMap u = map_of [(''ns'', 1), (''us'', 1000), (micros, 1000), ([CHR 0xCE, CHR 0xBC, CHR ''s''], 1000),
     (''ms'', 1000000), (''s'', 1000000000), (''m'', 60000000000), (''h'', 3600000000000)] u"

definition unit_char :: "char \<Rightarrow> bool" where
  "unit_char c \<longleftrightarrow> c \<noteq> CHR ''.'' \<and> \<not> dec_digit c"

text \<open>One turn of the loop: a number with a unit, as nanoseconds, and what is left of the text.\<close>

definition parse_unit :: "(nat \<Rightarrow> nat \<Rightarrow> nat \<Rightarrow> nat) \<Rightarrow> nat \<Rightarrow> nat \<Rightarrow> nat \<Rightarrow> string \<Rightarrow> dur_error + (nat \<times> string)" where
  "parse_unit frac v f scale s =
     (let u = takeWhile unit_char s; rest = dropWhile unit_char s in
      if u = [] then Inl DurMissingUnit
      else case unitMap u of
        None \<Rightarrow> Inl (DurUnknownUnit u)
      | Some unit \<Rightarrow>
          if 2 ^ 63 div unit < v then Inl DurInvalid
          else let v = v * unit in
            if 0 < f then
              let v = v + frac f unit scale in if 2 ^ 63 < v then Inl DurInvalid else Inr (v, rest)
            else Inr (v, rest))"

definition parse_number :: "(nat \<Rightarrow> nat \<Rightarrow> nat \<Rightarrow> nat) \<Rightarrow> string \<Rightarrow> dur_error + (nat \<times> string)" where
  "parse_number frac s =
     (if s = [] \<or> \<not> (hd s = CHR ''.'' \<or> dec_digit (hd s)) then Inl DurInvalid
      else case leadingInt 0 s of
        None \<Rightarrow> Inl DurInvalid
      | Some (v, s1) \<Rightarrow>
          let pre = (length s1 \<noteq> length s);
              (f, scale, s2, post) =
                (if s1 \<noteq> [] \<and> hd s1 = CHR ''.''
                 then case leadingFraction 0 1 False (tl s1) of (f, scale, s2) \<Rightarrow> (f, scale, s2, length s2 \<noteq> length (tl s1))
                 else (0, 1, s1, False))
          in if \<not> pre \<and> \<not> post then Inl DurInvalid else parse_unit frac v f scale s2)"

lemma leadingInt_length: "leadingInt x s = Some (v, rest) \<Longrightarrow> length rest \<le> length s"
  by (induction x s rule: leadingInt.induct) (auto simp: Let_def split: if_splits)

lemma leadingFraction_length: "leadingFraction x scale ov s = (f, sc, rest) \<Longrightarrow> length rest \<le> length s"
  by (induction x scale ov s rule: leadingFraction.induct) (fastforce simp: Let_def split: if_splits)+

lemma parse_unit_length:
  assumes "parse_unit frac v f scale s = Inr (w, rest)"
  shows "length rest < length s"
proof -
  have "takeWhile unit_char s \<noteq> []" "rest = dropWhile unit_char s"
    using assms by (auto simp: parse_unit_def Let_def split: if_splits option.splits)
  moreover have "length s = length (takeWhile unit_char s) + length (dropWhile unit_char s)"
    by (metis length_append takeWhile_dropWhile_id)
  ultimately show ?thesis by simp
qed

lemma parse_number_length: "parse_number frac s = Inr (w, rest) \<Longrightarrow> length rest < length s"
  by (auto simp: parse_number_def Let_def split: if_splits option.splits prod.splits
      dest!: leadingInt_length leadingFraction_length parse_unit_length)

function parse_loop :: "(nat \<Rightarrow> nat \<Rightarrow> nat \<Rightarrow> nat) \<Rightarrow> nat \<Rightarrow> string \<Rightarrow> dur_error + nat" where
  "parse_loop frac d s =
     (if s = [] then Inr d
      else case parse_number frac s of
        Inl err \<Rightarrow> Inl err
      | Inr (v, rest) \<Rightarrow>
          let d = (d + v) mod 2 ^ 64 in
          if 2 ^ 63 < d then Inl DurInvalid else parse_loop frac d rest)"
  by pat_completeness auto
termination
  by (relation "measure (\<lambda>(frac, d, s). length s)") (auto dest: parse_number_length)

declare parse_loop.simps [simp del]

definition ParseDuration :: "(nat \<Rightarrow> nat \<Rightarrow> nat \<Rightarrow> nat) \<Rightarrow> string \<Rightarrow> dur_error + duration" where
  "ParseDuration frac s =
     (let neg = (s \<noteq> [] \<and> hd s = CHR ''-'');
          s = (if s \<noteq> [] \<and> (hd s = CHR ''-'' \<or> hd s = CHR ''+'') then tl s else s)
      in if s = ''0'' then Inr 0
         else if s = [] then Inl DurInvalid
         else case parse_loop frac 0 s of
           Inl err \<Rightarrow> Inl err
         | Inr d \<Rightarrow>
             if neg then Inr (- int d)
             else if 2 ^ 63 - 1 < d then Inl DurInvalid
             else Inr (int d))"


section \<open>YAML nodes\<close>

datatype yaml_kind = DocumentNode | SequenceNode | MappingNode | ScalarNode | AliasNode

record yaml_Node =
  yn_Kind :: yaml_kind
  yn_Tag :: string
  yn_Value :: string

datatype duration_error = DurationNotString | InvalidDuration string dur_error

definition UnmarshalYAML :: "(nat \<Rightarrow> nat \<Rightarrow> nat \<Rightarrow> nat) \<Rightarrow> yaml_Node \<Rightarrow> duration_error + duration" where
  "UnmarshalYAML frac node =
     (if yn_Kind node \<noteq> ScalarNode \<or> yn_Tag node \<noteq> ''!!str'' then Inl DurationNotString
      else case ParseDuration frac (yn_Value node) of
        Inl err \<Rightarrow> Inl (InvalidDuration (yn_Value node) err)
      | Inr parsed \<Rightarrow> Inr parsed)"

section \<open>Reading decimal digits\<close>

definition dec_val :: "nat \<Rightarrow> string \<Rightarrow> nat" where
  "dec_val x ds = fold (\<lambda>c x. x * 10 + dec_value c) ds x"

lemma dec_val_simps [simp]:
  "dec_val x [] = x" "dec_val x (c # ds) = dec_val (x * 10 + dec_value c) ds"
  "dec_val x (ds @ es) = dec_val (dec_val x ds) es"
  by (simp_all add: dec_val_def)

lemma dec_char [simp]: "n < 10 \<Longrightarrow> dec_digit (char_of (48 + n))" "n < 10 \<Longrightarrow> dec_value (char_of (48 + n)) = n"
  by (simp_all add: dec_digit_def dec_value_def)

lemma digits_read: "list_all dec_digit (digits n) \<and> dec_val 0 (digits n) = n \<and> digits n \<noteq> []"
proof (induction n rule: digits.induct)
  case (1 n)
  show ?case
  proof (cases "n < 10")
    case True
    then show ?thesis by (subst (1 2 3) digits.simps) simp
  next
    case False
    then show ?thesis using 1 by (subst (1 2 3) digits.simps) simp
  qed
qed

lemma dec_val_mono: "x * 10 ^ length ds \<le> dec_val x ds"
proof (induction ds arbitrary: x)
  case (Cons c ds)
  have "x * 10 ^ length (c # ds) \<le> (x * 10 + dec_value c) * 10 ^ length ds" by (simp add: algebra_simps)
  also have "\<dots> \<le> dec_val x (c # ds)" using Cons by simp
  finally show ?case .
qed simp

lemma dec_val_ge: "x \<le> dec_val x ds"
  using dec_val_mono [of x ds] by (metis le_trans mult_le_mono2 nat_mult_1_right one_le_numeral one_le_power)

definition no_digit :: "string \<Rightarrow> bool" where
  "no_digit s \<longleftrightarrow> (case s of [] \<Rightarrow> True | c # _ \<Rightarrow> \<not> dec_digit c)"

lemma leadingInt_digits:
  "list_all dec_digit ds \<Longrightarrow> dec_val x ds \<le> 2 ^ 63 \<Longrightarrow> no_digit rest \<Longrightarrow> leadingInt x (ds @ rest) = Some (dec_val x ds, rest)"
proof (induction ds arbitrary: x)
  case Nil
  then show ?case by (cases rest) (simp_all add: no_digit_def)
next
  case (Cons c ds)
  have "x * 10 + dec_value c \<le> 2 ^ 63" using dec_val_ge [of "x * 10 + dec_value c" ds] Cons.prems(2) by simp
  then show ?case using Cons by simp
qed

lemma leadingFraction_digits:
  "list_all dec_digit ds \<Longrightarrow> dec_val x ds < 2 ^ 63 \<Longrightarrow> no_digit rest \<Longrightarrow>
   leadingFraction x scale False (ds @ rest) = (dec_val x ds, scale * 10 ^ length ds, rest)"
proof (induction ds arbitrary: x scale)
  case Nil
  then show ?case by (cases rest) (simp_all add: no_digit_def)
next
  case (Cons c ds)
  have "x * 10 + dec_value c < 2 ^ 63" using dec_val_ge [of "x * 10 + dec_value c" ds] Cons.prems(2) by simp
  moreover from this have "\<not> (2 ^ 63 - 1) div 10 < x" by simp
  moreover note Cons.IH [of "x * 10 + dec_value c" "scale * 10"] Cons.prems
  ultimately show ?case by (simp add: mult.assoc)
qed


section \<open>The fraction\<close>

lemma fmtFrac_digits:
  "\<exists>ds. fmtFrac_loop n v True acc = (CHR ''.'' # ds @ acc, v div 10 ^ n) \<and> list_all dec_digit ds
     \<and> length ds = n \<and> dec_val 0 ds = v mod 10 ^ n"
proof (induction n arbitrary: v acc)
  case (Suc n)
  from Suc [of "v div 10" "char_of (48 + v mod 10) # acc"] obtain ds where
    ds: "fmtFrac_loop n (v div 10) True (char_of (48 + v mod 10) # acc)
          = (CHR ''.'' # ds @ char_of (48 + v mod 10) # acc, v div 10 div 10 ^ n)"
      "list_all dec_digit ds" "length ds = n" "dec_val 0 ds = v div 10 mod 10 ^ n" by blast
  have "v mod 10 ^ Suc n = (v div 10 mod 10 ^ n) * 10 + v mod 10"
    using mod_mult2_eq [of v 10 "10 ^ n"] by simp
  then show ?case using ds
    by (intro exI [of _ "ds @ [char_of (48 + v mod 10)]"]) (simp add: Let_def div_mult2_eq)
qed simp

definition fraction :: "nat \<Rightarrow> nat \<Rightarrow> string \<Rightarrow> bool" where
  "fraction prec r fr \<longleftrightarrow> (r = 0 \<and> fr = [])
     \<or> (\<exists>ds. fr = CHR ''.'' # ds \<and> list_all dec_digit ds \<and> ds \<noteq> [] \<and> length ds \<le> prec
          \<and> 0 < dec_val 0 ds \<and> dec_val 0 ds * 10 ^ (prec - length ds) = r)"

lemma fmtFrac_fraction: "\<exists>fr. fmtFrac prec v = (fr, v div 10 ^ prec) \<and> fraction prec (v mod 10 ^ prec) fr"
  unfolding fmtFrac_def
proof (induction prec arbitrary: v)
  case (Suc n)
  have split: "v mod 10 ^ Suc n = (v div 10 mod 10 ^ n) * 10 + v mod 10"
    using mod_mult2_eq [of v 10 "10 ^ n"] by simp
  show ?case
  proof (cases "v mod 10 = 0")
    case True
    from Suc [of "v div 10"] obtain fr where fr: "fmtFrac_loop n (v div 10) False [] = (fr, v div 10 div 10 ^ n)"
      "fraction n (v div 10 mod 10 ^ n) fr" by blast
    have "fraction (Suc n) (v mod 10 ^ Suc n) fr"
      using fr(2) True unfolding split by (auto simp: fraction_def Suc_diff_le)
    with fr(1) True show ?thesis by (simp add: div_mult2_eq)
  next
    case False
    from fmtFrac_digits [of n "v div 10" "[char_of (48 + v mod 10)]"] obtain ds where
      ds: "fmtFrac_loop n (v div 10) True [char_of (48 + v mod 10)]
            = (CHR ''.'' # ds @ [char_of (48 + v mod 10)], v div 10 div 10 ^ n)"
        "list_all dec_digit ds" "length ds = n" "dec_val 0 ds = v div 10 mod 10 ^ n" by blast
    have "fraction (Suc n) (v mod 10 ^ Suc n) (CHR ''.'' # ds @ [char_of (48 + v mod 10)])"
      unfolding fraction_def split
      by (intro disjI2 exI [of _ "ds @ [char_of (48 + v mod 10)]"]) (use ds False in simp)
    with ds(1) False show ?thesis by (simp add: Let_def div_mult2_eq)
  qed
qed (simp add: fraction_def)


section \<open>Reading what was printed\<close>

definition float_exact :: "(nat \<Rightarrow> nat \<Rightarrow> nat \<Rightarrow> nat) \<Rightarrow> bool" where
  "float_exact frac \<longleftrightarrow> (\<forall>f unit k. 10 ^ k dvd unit \<and> f * (unit div 10 ^ k) < 2 ^ 53 \<longrightarrow>
     frac f unit (10 ^ k) = f * (unit div 10 ^ k))"

text \<open>What may follow a unit: nothing, or the next number.\<close>

definition next_number :: "string \<Rightarrow> bool" where
  "next_number s \<longleftrightarrow> (case s of [] \<Rightarrow> True | c # _ \<Rightarrow> dec_digit c)"

lemma next_number_digits [simp]: "next_number []" "next_number (digits n @ s)"
  using digits_read [of n] by (cases "digits n"; auto simp: next_number_def)+

lemma take_unit:
  assumes "list_all unit_char u" and "next_number rest"
  shows "takeWhile unit_char (u @ rest) = u" "dropWhile unit_char (u @ rest) = rest"
proof -
  have "takeWhile unit_char rest = []" "dropWhile unit_char rest = rest"
    using assms(2) by (auto simp: next_number_def unit_char_def split: list.splits)
  then show "takeWhile unit_char (u @ rest) = u" "dropWhile unit_char (u @ rest) = rest"
    using assms(1) by (simp_all add: takeWhile_append dropWhile_append list_all_iff)
qed

lemma parse_unit_spec:
  assumes "unitMap u = Some unit" "list_all unit_char u" "u \<noteq> []" "next_number rest"
    and "v * unit + x \<le> 2 ^ 63" "0 < unit" "x = (if 0 < f then frac f unit scale else 0)"
  shows "parse_unit frac v f scale (u @ rest) = Inr (v * unit + x, rest)"
proof -
  have "v * unit \<le> 2 ^ 63" using assms(5) by simp
  then have "\<not> 2 ^ 63 div unit < v" using assms(6) by (simp add: div_less_iff_less_mult not_less less_eq_div_iff_mult_less_eq)
  then show ?thesis using assms by (cases "0 < f") (simp_all add: parse_unit_def take_unit Let_def)
qed

lemma fraction_value:
  assumes "float_exact frac" and "fraction prec r fr" and "fr = CHR ''.'' # ds"
    and "m * 10 ^ prec \<le> 3600000000000" and "r < 10 ^ prec" and "0 < m"
  shows "frac (dec_val 0 ds) (m * 10 ^ prec) (10 ^ length ds) = m * r"
proof -
  have ds: "length ds \<le> prec" "dec_val 0 ds * 10 ^ (prec - length ds) = r" using assms(2,3) by (auto simp: fraction_def)
  have unit: "m * 10 ^ prec = m * 10 ^ (prec - length ds) * 10 ^ length ds"
    using ds(1) by (simp add: mult.assoc flip: power_add)
  have val: "dec_val 0 ds * (m * 10 ^ prec div 10 ^ length ds) = m * r"
    unfolding unit using ds(2) by (simp add: ac_simps)
  have "m * r \<le> m * 10 ^ prec" using assms(5) by simp
  also note assms(4)
  finally have "m * r < 2 ^ 53" by simp
  with assms(1) val unit show ?thesis unfolding float_exact_def by (metis dvd_triv_right)
qed

lemma parse_number_spec:
  assumes "float_exact frac" and "unitMap u = Some (m * 10 ^ prec)" "list_all unit_char u" "u \<noteq> []" "next_number rest"
    and "fraction prec r fr" "r < 10 ^ prec" "0 < m" "m * 10 ^ prec \<le> 3600000000000"
    and "v * (m * 10 ^ prec) + m * r \<le> 2 ^ 63"
  shows "parse_number frac (digits v @ fr @ u @ rest) = Inr (v * (m * 10 ^ prec) + m * r, rest)"
proof -
  note dv = digits_read [of v]
  obtain c s where s: "digits v = c # s" "dec_digit c" using dv by (cases "digits v") auto
  have nd: "no_digit (u @ rest)" using assms(3,4) by (cases u) (auto simp: no_digit_def unit_char_def)
  have dot: "u \<noteq> CHR ''.'' # t" for t using assms(3) by (auto simp: unit_char_def)
  have "v \<le> v * (m * 10 ^ prec)" using assms(8) by simp
  then have le: "v \<le> 2 ^ 63" using assms(10) by linarith
  show ?thesis
  proof (cases fr)
    case Nil
    then have "r = 0" using assms(6) by (simp add: fraction_def)
    then have "parse_unit frac v 0 1 (u @ rest) = Inr (v * (m * 10 ^ prec) + m * r, rest)"
      using parse_unit_spec [OF assms(2,3,4,5), of v 0 0 frac 1] assms(8,10) by simp
    then show ?thesis
      using leadingInt_digits [of "digits v" 0 "u @ rest"] dv nd le s Nil assms(4) dot [of "tl u"]
      by (cases u) (auto simp: parse_number_def Let_def)
  next
    case (Cons c' ds)
    then have ds: "c' = CHR ''.''" "list_all dec_digit ds" "ds \<noteq> []" "0 < dec_val 0 ds" "length ds \<le> prec"
      and r: "dec_val 0 ds * 10 ^ (prec - length ds) = r"
      using assms(6) by (auto simp: fraction_def)
    have "dec_val 0 ds \<le> r" using r by (metis le_add1 mult_le_mono2 nat_mult_1_right one_le_numeral one_le_power)
    also note assms(7)
    also have "10 ^ prec \<le> m * 10 ^ prec" using assms(8) by simp
    also note assms(9)
    finally have lt: "dec_val 0 ds < 2 ^ 63" by simp
    have fv: "frac (dec_val 0 ds) (m * 10 ^ prec) (10 ^ length ds) = m * r"
      by (rule fraction_value [OF assms(1,6) _ assms(9,7,8)]) (simp add: Cons ds(1))
    have "0 < m * 10 ^ prec" using assms(8) by simp
    from parse_unit_spec [OF assms(2-5,10) this, of "dec_val 0 ds" frac "10 ^ length ds"]
    have "parse_unit frac v (dec_val 0 ds) (10 ^ length ds) (u @ rest) = Inr (v * (m * 10 ^ prec) + m * r, rest)"
      unfolding fv using ds(4) by (simp only: if_True)
    moreover have "leadingInt 0 (digits v @ CHR ''.'' # ds @ u @ rest) = Some (v, CHR ''.'' # ds @ u @ rest)"
      using leadingInt_digits [of "digits v" 0 "CHR ''.'' # ds @ u @ rest"] dv le by (simp add: no_digit_def dec_digit_def)
    moreover note leadingFraction_digits [OF ds(2) lt nd, of 1]
    ultimately show ?thesis using s Cons ds by (simp add: parse_number_def Let_def)
  qed
qed

lemma parse_loop_number:
  assumes "float_exact frac" and "unitMap u = Some (m * 10 ^ prec)" "list_all unit_char u" "u \<noteq> []" "next_number rest"
    and "fraction prec r fr" "r < 10 ^ prec" "0 < m" "m * 10 ^ prec \<le> 3600000000000"
    and "d + (v * (m * 10 ^ prec) + m * r) \<le> 2 ^ 63"
  shows "parse_loop frac d (digits v @ fr @ u @ rest) = parse_loop frac (d + (v * (m * 10 ^ prec) + m * r)) rest"
proof -
  have "v * (m * 10 ^ prec) + m * r \<le> 2 ^ 63" using assms(10) by linarith
  note parse_number_spec [OF assms(1-9) this]
  moreover have "digits v @ fr @ u @ rest \<noteq> []" using digits_read [of v] by simp
  moreover have "(d + (v * (m * 10 ^ prec) + m * r)) mod 2 ^ 64 = d + (v * (m * 10 ^ prec) + m * r)"
    by (rule mod_less, rule le_less_trans [OF assms(10)]) simp
  moreover have "\<not> 2 ^ 63 < d + (v * (m * 10 ^ prec) + m * r)" using assms(10) by linarith
  ultimately show ?thesis by (subst parse_loop.simps) (simp only: if_False sum.case prod.case Let_def)
qed

lemma units:
  "unitMap ''ns'' = Some 1" "unitMap micros = Some 1000" "unitMap ''ms'' = Some 1000000"
  "unitMap ''s'' = Some 1000000000" "unitMap ''m'' = Some 60000000000" "unitMap ''h'' = Some 3600000000000"
  "list_all unit_char ''ns''" "list_all unit_char micros" "list_all unit_char ''ms''"
  "list_all unit_char ''s''" "list_all unit_char ''m''" "list_all unit_char ''h''"
  by (simp_all add: unitMap_def micros_def unit_char_def dec_digit_def)

text \<open>A number without a fraction, and a last number with one.\<close>

lemma parse_loop_whole:
  assumes "float_exact frac" "unitMap u = Some unit" "list_all unit_char u" "u \<noteq> []" "next_number rest"
    and "0 < unit" "unit \<le> 3600000000000" "d + v * unit \<le> 2 ^ 63"
  shows "parse_loop frac d (digits v @ u @ rest) = parse_loop frac (d + v * unit) rest"
  using parse_loop_number [of frac u unit 0 rest 0 "[]" d v] assms by (simp add: fraction_def)

lemma parse_loop_last:
  assumes "float_exact frac" "unitMap u = Some (10 ^ prec)" "list_all unit_char u" "u \<noteq> []" "prec \<le> 9"
    and "fmtFrac prec w = (fr, v)" "d + (x * 10 ^ prec + w mod 10 ^ prec) \<le> 2 ^ 63"
  shows "parse_loop frac d (digits x @ fr @ u) = Inr (d + (x * 10 ^ prec + w mod 10 ^ prec))"
proof -
  have fr: "fraction prec (w mod 10 ^ prec) fr" using fmtFrac_fraction [of prec w] assms(6) by auto
  have "(10::nat) ^ prec \<le> 10 ^ 9" using assms(5) by (intro power_increasing) simp_all
  then have "1 * 10 ^ prec \<le> (3600000000000::nat)" by simp
  moreover have "w mod 10 ^ prec < 10 ^ prec" by simp
  ultimately show ?thesis
    using parse_loop_number [OF assms(1) _ assms(3,4) _ fr, of 1 "[]" d x] assms(2,7)
    by (simp add: parse_loop.simps [of frac _ "[]"])
qed

lemma digits_zero: "digits 0 = ''0''"
  by code_simp

lemma format_small_parse:
  assumes "float_exact frac" and "u < 1000000000"
  shows "parse_loop frac 0 (format_small u) = Inr u"
proof (cases "u = 0")
  case True
  then show ?thesis
    using parse_loop_whole [OF assms(1) units(4,10), of "[]" 0 0] digits_zero
    by (simp add: format_small_def parse_loop.simps [of frac 0 "[]"])
next
  case False
  obtain prec unit where su: "small_unit u = (prec, unit)" by fastforce
  then have unit: "unitMap unit = Some (10 ^ prec)" "list_all unit_char unit" "unit \<noteq> []" "prec \<le> 9"
    by (auto simp: small_unit_def unitMap_def micros_def unit_char_def dec_digit_def split: if_splits)
  obtain fr v where fr: "fmtFrac prec u = (fr, v)" by fastforce
  have v: "v = u div 10 ^ prec" using fmtFrac_fraction [of prec u] fr by auto
  have "v * 10 ^ prec + u mod 10 ^ prec = u" unfolding v by (rule div_mult_mod_eq)
  with parse_loop_last [OF assms(1) unit fr, of 0 v] assms(2) show ?thesis
    using False by (simp add: format_small_def su fr)
qed

text \<open>Hours and minutes are there only when they are needed; the parser adds up what is there.\<close>

lemma format_large_parse:
  assumes "float_exact frac" and "1000000000 \<le> u" and "u \<le> 2 ^ 63"
  shows "parse_loop frac 0 (format_large u) = Inr u"
proof -
  obtain fr secs where fr: "fmtFrac 9 u = (fr, secs)" by fastforce
  then have secs: "secs = u div 10 ^ 9" using fmtFrac_fraction [of 9 u] by auto
  define mins where "mins = secs div 60"
  define hours where "hours = mins div 60"
  define r where "r = u mod 10 ^ 9"
  have u: "u = hours * 3600000000000 + mins mod 60 * 60000000000 + secs mod 60 * 10 ^ 9 + r"
  proof -
    have "u = secs * 10 ^ 9 + r" "secs = mins * 60 + secs mod 60" "mins = hours * 60 + mins mod 60"
      by (simp_all add: secs r_def mins_def hours_def)
    then show ?thesis by simp
  qed
  have last: "parse_loop frac d (digits (secs mod 60) @ fr @ ''s'') = Inr (d + (secs mod 60 * 10 ^ 9 + r))"
    if "d + (secs mod 60 * 10 ^ 9 + r) \<le> 2 ^ 63" for d
    using parse_loop_last [OF assms(1) _ units(10) _ _ fr, of d "secs mod 60"] that by (simp add: units r_def)
  have mid: "parse_loop frac d (digits (mins mod 60) @ ''m'' @ digits (secs mod 60) @ fr @ ''s'')
      = Inr (d + mins mod 60 * 60000000000 + (secs mod 60 * 10 ^ 9 + r))"
    if "d + mins mod 60 * 60000000000 + (secs mod 60 * 10 ^ 9 + r) \<le> 2 ^ 63" for d
    using parse_loop_whole [OF assms(1) units(5,11), of "digits (secs mod 60) @ fr @ ''s''" d "mins mod 60"] last that by simp
  have fl: "format_large u = (if mins = 0 then digits (secs mod 60) @ fr @ ''s''
      else if hours = 0 then digits (mins mod 60) @ ''m'' @ digits (secs mod 60) @ fr @ ''s''
      else digits hours @ ''h'' @ digits (mins mod 60) @ ''m'' @ digits (secs mod 60) @ fr @ ''s'')"
    by (simp add: format_large_def fr Let_def mins_def hours_def)
  consider "mins = 0" "hours = 0" | "mins \<noteq> 0" "hours = 0" | "mins \<noteq> 0" "hours \<noteq> 0" unfolding hours_def by fastforce
  then show ?thesis
  proof cases
    case 1
    then have "0 + (secs mod 60 * 10 ^ 9 + r) = u" using u by simp
    with last [of 0] assms(3) 1 show ?thesis by (simp only: fl if_True simp_thms)
  next
    case 2
    then have "0 + mins mod 60 * 60000000000 + (secs mod 60 * 10 ^ 9 + r) = u" using u by simp
    with mid [of 0] assms(3) 2 show ?thesis by (simp only: fl if_True if_False simp_thms)
  next
    case 3
    let ?rest = "digits (mins mod 60) @ ''m'' @ digits (secs mod 60) @ fr @ ''s''"
    have le: "0 + hours * 3600000000000 \<le> 2 ^ 63" using u assms(3) by linarith
    have "parse_loop frac 0 (digits hours @ ''h'' @ ?rest) = parse_loop frac (0 + hours * 3600000000000) ?rest"
      by (rule parse_loop_whole [OF assms(1) units(6,12) _ _ _ _ le]) simp_all
    moreover have "0 + hours * 3600000000000 + mins mod 60 * 60000000000 + (secs mod 60 * 10 ^ 9 + r) = u" using u by simp
    ultimately show ?thesis using mid [of "0 + hours * 3600000000000"] assms(3) 3 by (simp only: fl if_False simp_thms)
  qed
qed


section \<open>The round trip\<close>

lemma format_head: "\<exists>c s. (if u < 1000000000 then format_small u else format_large u) = c # s \<and> dec_digit c \<and> s \<noteq> []"
proof -
  have head: "\<exists>c s. digits n @ fr @ t = c # s \<and> dec_digit c \<and> s \<noteq> []" if "t \<noteq> []" for n fr t
    using digits_read [of n] that by (cases "digits n") auto
  have "\<exists>c s. format_small u = c # s \<and> dec_digit c \<and> s \<noteq> []" if "u < 1000000000"
  proof (cases "u = 0")
    case True
    then show ?thesis by (simp add: format_small_def dec_digit_def)
  next
    case False
    then show ?thesis
      by (auto simp: format_small_def small_unit_def micros_def split: prod.splits intro!: head)
  qed
  moreover have "\<exists>c s. format_large u = c # s \<and> dec_digit c \<and> s \<noteq> []"
    by (auto simp only: format_large_def Let_def intro!: head split: prod.splits if_splits)
  ultimately show ?thesis by simp
qed

text \<open>
  C37. The text of a duration is read back. For every 64-bit duration, the least one
  included, the string that \<open>MarshalYAML\<close> writes is accepted by \<open>UnmarshalYAML\<close> and gives the same
  duration, if the floating point step of the parser is exact on integers of at most 53 bits.
\<close>

theorem Duration_roundtrip:
  assumes "float_exact frac" and "- (2 ^ 63) \<le> d" and "d < 2 ^ 63"
  shows "UnmarshalYAML frac \<lparr>yn_Kind = ScalarNode, yn_Tag = ''!!str'', yn_Value = MarshalYAML d\<rparr> = Inr d"
proof -
  define u where "u = nat \<bar>d\<bar>"
  define str where "str = (if u < 1000000000 then format_small u else format_large u)"
  have u: "u \<le> 2 ^ 63" "\<not> d < 0 \<Longrightarrow> u < 2 ^ 63" using assms(2,3) by (simp_all add: u_def)
  obtain c s where st: "str = c # s" "dec_digit c" "s \<noteq> []" using format_head [of u] by (auto simp: str_def)
  have "parse_loop frac 0 str = Inr u"
    using format_small_parse [OF assms(1), of u] format_large_parse [OF assms(1), of u] u(1) by (simp add: str_def)
  moreover have "c \<noteq> CHR ''-''" "c \<noteq> CHR ''+''" using st(2) by (auto simp: dec_digit_def)
  moreover have "MarshalYAML d = (if d < 0 then CHR ''-'' # str else str)"
    by (simp add: MarshalYAML_def Duration_String_def Let_def u_def str_def)
  moreover have "int u = \<bar>d\<bar>" by (simp add: u_def)
  ultimately show ?thesis using st u(2)
    by (cases "d < 0") (simp_all add: UnmarshalYAML_def ParseDuration_def Let_def)
qed

text \<open>
  What \<open>UnmarshalYAML\<close> accepts: only string scalars, and a duration that fits in 64 bits.
\<close>

theorem UnmarshalYAML_accepts:
  assumes "UnmarshalYAML frac node = Inr d"
  shows "yn_Kind node = ScalarNode \<and> yn_Tag node = ''!!str'' \<and> - (2 ^ 63) \<le> d \<and> d < 2 ^ 63"
proof -
  have bound: "parse_loop frac x s = Inr n \<Longrightarrow> x \<le> 2 ^ 63 \<Longrightarrow> n \<le> 2 ^ 63" for x s n
    by (induction frac x s rule: parse_loop.induct)
       (subst (asm) (2) parse_loop.simps, auto simp: Let_def split: if_splits sum.splits)
  show ?thesis using assms
    by (auto simp: UnmarshalYAML_def ParseDuration_def Let_def split: if_splits sum.splits dest: bound)
qed


subsection \<open>Examples\<close>

text \<open>Exact arithmetic in place of the floating point step.\<close>

lemma exact_frac: "float_exact (\<lambda>f unit scale. f * unit div scale)"
  by (auto simp: float_exact_def div_mult_swap)

lemma fmtFrac_loop_numeral:
  "fmtFrac_loop (numeral k) v print acc =
     (let digit = v mod 10; print = (print \<or> digit \<noteq> 0); acc = (if print then char_of (48 + digit) # acc else acc)
      in fmtFrac_loop (pred_numeral k) (v div 10) print acc)"
  by (simp only: numeral_eq_Suc [of k] fmtFrac_loop.simps)

lemmas digits_eval = digits.simps [of 0] digits.simps [of "Suc 0"] digits.simps [of "numeral k" for k]

theorem Duration_roundtrip_witness:
  "MarshalYAML (- 5400250000000) = ''-1h30m0.25s''
   \<and> UnmarshalYAML (\<lambda>f unit scale. f * unit div scale)
       \<lparr>yn_Kind = ScalarNode, yn_Tag = ''!!str'', yn_Value = ''-1h30m0.25s''\<rparr> = Inr (- 5400250000000)"
proof -
  have "MarshalYAML (- 5400250000000) = ''-1h30m0.25s''"
    by (simp add: MarshalYAML_def Duration_String_def format_large_def fmtFrac_def fmtFrac_loop_numeral digits_eval
        char_of_def bit_0 Let_def)
  with Duration_roundtrip [OF exact_frac, of "- 5400250000000"] show ?thesis by simp
qed

theorem UnmarshalYAML_accepts_witness:
  "UnmarshalYAML (\<lambda>f unit scale. f * unit div scale)
     \<lparr>yn_Kind = ScalarNode, yn_Tag = ''!!str'', yn_Value = ''10m''\<rparr> = Inr 600000000000 \<and> (600000000000 :: int) < 2 ^ 63"
proof -
  have ok: "UnmarshalYAML (\<lambda>f unit scale. f * unit div scale)
     \<lparr>yn_Kind = ScalarNode, yn_Tag = ''!!str'', yn_Value = ''10m''\<rparr> = Inr 600000000000"
    by (simp add: UnmarshalYAML_def ParseDuration_def parse_loop.simps parse_number_def parse_unit_def unit_char_def
        dec_digit_def dec_value_def unitMap_def micros_def Let_def)
  from UnmarshalYAML_accepts [OF ok] ok show ?thesis by blast
qed

end
