(* ===== verification/Notify.thy ===== *)
theory Notify
  imports Processor Duration_Text "HOL-Library.Word"
begin

text \<open>
  The model of \<open>internal/notify\<close>: retries, the fan-out over channels, and the worker with its
  bounded queue, its rate limit and its storm alerts. The counters are 64-bit words. The
  outcome of a delivery attempt and of a sleep is an argument; a goroutine that sends is a
  part of the state until its outcome is known. The upstream DingTalk channel is a
  parameter.
\<close>

section \<open>Retries\<close>

text \<open>
  \<open>outcome i\<close> is the error of attempt \<open>i\<close>, \<open>None\<close> for success; \<open>slept i\<close> says whether the
  pause after attempt \<open>i\<close> ended before the context did. The result is the error and the
  number of attempts made. The last argument is the part of the delays not used yet.
\<close>

fun notify_loop ::
    "(nat \<Rightarrow> string option) \<Rightarrow> (nat \<Rightarrow> duration \<Rightarrow> bool) \<Rightarrow> string \<Rightarrow> nat \<Rightarrow> duration list \<Rightarrow> string option \<times> nat" where
  "notify_loop outcome slept ctxErr attempt [] = (outcome attempt, Suc attempt)"
| "notify_loop outcome slept ctxErr attempt (delay # delays) =
     (case outcome attempt of
        None \<Rightarrow> (None, Suc attempt)
      | Some err \<Rightarrow>
          if \<not> slept attempt delay then (Some ctxErr, Suc attempt)
          else notify_loop outcome slept ctxErr (Suc attempt) delays)"

definition notifyWithRetries ::
    "(nat \<Rightarrow> string option) \<Rightarrow> (nat \<Rightarrow> duration \<Rightarrow> bool) \<Rightarrow> string \<Rightarrow> duration list \<Rightarrow> string option \<times> nat" where
  "notifyWithRetries outcome slept ctxErr retries = notify_loop outcome slept ctxErr 0 retries"

text \<open>\<open>errors.Join\<close>: the list of the errors that are not nil; nil when there is none.\<close>

definition multi_NotifyWithRetries ::
    "((nat \<Rightarrow> string option) \<times> (nat \<Rightarrow> duration \<Rightarrow> bool) \<times> string) list \<Rightarrow> duration list \<Rightarrow> string list \<times> nat list" where
  "multi_NotifyWithRetries channels retries =
     (let results = map (\<lambda>(outcome, slept, ctxErr). notifyWithRetries outcome slept ctxErr retries) channels
      in (List.map_filter fst results, map snd results))"

definition multi_Notify :: "string option list \<Rightarrow> string list" where
  "multi_Notify outcomes = List.map_filter id outcomes"

text \<open>\<open>sleep\<close>: a zero delay only asks whether the context is done.\<close>

definition sleep :: "bool \<Rightarrow> bool \<Rightarrow> duration \<Rightarrow> bool" where
  "sleep ctxDone timerFirst delay = (if delay = 0 then \<not> ctxDone else timerFirst)"

text \<open>
  \<open>send\<close> of the worker: a notifier that retries by itself, such as \<open>MultiNotifier\<close>, is called once,
  any other in a loop of its own. The result is whether the alert was delivered and the number of
  attempts on each channel.
\<close>

fun send_loop :: "(nat \<Rightarrow> string option) \<Rightarrow> (nat \<Rightarrow> duration \<Rightarrow> bool) \<Rightarrow> nat \<Rightarrow> duration list \<Rightarrow> bool \<times> nat" where
  "send_loop outcome slept attempt [] = (outcome attempt = None, Suc attempt)"
| "send_loop outcome slept attempt (delay # delays) =
     (if outcome attempt = None then (True, Suc attempt)
      else if \<not> slept attempt delay then (False, Suc attempt)
      else send_loop outcome slept (Suc attempt) delays)"

fun worker_send ::
    "((nat \<Rightarrow> string option) \<times> (nat \<Rightarrow> duration \<Rightarrow> bool) \<times> string) list
       + (nat \<Rightarrow> string option) \<times> (nat \<Rightarrow> duration \<Rightarrow> bool) \<Rightarrow> duration list \<Rightarrow> bool \<times> nat list" where
  "worker_send (Inl channels) retries =
     (let (errs, attempts) = multi_NotifyWithRetries channels retries in (errs = [], attempts))"
| "worker_send (Inr (outcome, slept)) retries =
     (let (ok, n) = send_loop outcome slept 0 retries in (ok, [n]))"


section \<open>The worker\<close>

record Stats =
  sn_Sent :: "64 word"
  sn_Failed :: "64 word"
  sn_Dropped :: "64 word"
  sn_StormAlerts :: "64 word"

text \<open>
  \<open>w_sending\<close> is the alert of the worker goroutine between the rate limit and the outcome of
  its delivery, \<open>w_storms\<close> are the source alerts of the storm alerts under way, \<open>w_cancelled\<close> says that the context
  of the worker is done.
\<close>

record Worker =
  w_queue :: "Alert list"
  w_queueSize :: int
  w_retries :: "duration list"
  w_limit :: int
  w_stormFor :: duration
  w_closed :: bool
  w_stats :: Stats
  w_recent :: "gotime list"
  w_stormAt :: gotime
  w_cancelled :: bool
  w_sending :: "Alert option"
  w_storms :: "Alert list"

datatype notify_error =
  NotifyNoNotifier | NotifyQueueSize | NotifyMaxAlerts | NotifyStormCooldown | NotifyRetryDelay

definition defaultRetryDelays :: "duration list" where
  "defaultRetryDelays = [second, 2 * second, 5 * second, 10 * second]"

definition NewWorker :: "bool \<Rightarrow> int \<Rightarrow> int \<Rightarrow> duration \<Rightarrow> duration list \<Rightarrow> notify_error + Worker" where
  "NewWorker has_notifier queueSize maxAlertsPerMinute stormCooldown retryDelays =
     (if \<not> has_notifier then Inl NotifyNoNotifier
      else if queueSize \<le> 0 then Inl NotifyQueueSize
      else if maxAlertsPerMinute \<le> 0 then Inl NotifyMaxAlerts
      else if stormCooldown < 0 then Inl NotifyStormCooldown
      else let delays = (if retryDelays = [] then defaultRetryDelays else retryDelays) in
        if list_ex (\<lambda>d. d < 0) delays then Inl NotifyRetryDelay
        else Inr \<lparr>w_queue = [], w_queueSize = queueSize, w_retries = delays, w_limit = maxAlertsPerMinute,
                  w_stormFor = stormCooldown, w_closed = False,
                  w_stats = \<lparr>sn_Sent = 0, sn_Failed = 0, sn_Dropped = 0, sn_StormAlerts = 0\<rparr>,
                  w_recent = [], w_stormAt = zero_time, w_cancelled = False, w_sending = None,
                  w_storms = []\<rparr>)"

definition count_dropped :: "Worker \<Rightarrow> Worker" where
  "count_dropped w = w\<lparr>w_stats := (w_stats w)\<lparr>sn_Dropped := sn_Dropped (w_stats w) + 1\<rparr>\<rparr>"

definition count_result :: "bool \<Rightarrow> Worker \<Rightarrow> Worker" where
  "count_result ok w =
     (if ok then w\<lparr>w_stats := (w_stats w)\<lparr>sn_Sent := sn_Sent (w_stats w) + 1\<rparr>\<rparr>
      else w\<lparr>w_stats := (w_stats w)\<lparr>sn_Failed := sn_Failed (w_stats w) + 1\<rparr>\<rparr>)"

definition Submit :: "Alert \<Rightarrow> Worker \<Rightarrow> Worker \<times> bool" where
  "Submit alert w =
     (if w_closed w then (count_dropped w, False)
      else if int (length (w_queue w)) < w_queueSize w then (w\<lparr>w_queue := w_queue w @ [alert]\<rparr>, True)
      else (count_dropped w, False))"

definition worker_Alert :: "Alert \<Rightarrow> Worker \<Rightarrow> Worker" where
  "worker_Alert alert w = fst (Submit alert w)"

definition worker_Stats :: "Worker \<Rightarrow> Stats" where
  "worker_Stats w = w_stats w"

text \<open>The storm alert that \<open>sendStorm\<close> sends; it reads the clock twice.\<close>

definition storm_alert :: "gotime \<Rightarrow> gotime \<Rightarrow> Alert \<Rightarrow> Alert" where
  "storm_alert firstSeen lastSeen source =
     \<lparr>alt_RuleID = ''alert-storm'', alt_Severity = ''high'', alt_ContainerName = alt_ContainerName source,
      alt_ContainerID = [], alt_Level = LevelUnknown, alt_Component = [], alt_SubgraphID = [],
      alt_Fingerprint = [], alt_FirstSeen = firstSeen, alt_LastSeen = lastSeen, alt_Window = 0,
      alt_WindowCount = 0, alt_TotalCount = 0, alt_SuppressedCount = 0,
      alt_Samples = [''Alert storm detected: normal alerts are rate limited.''], alt_Context = []\<rparr>"

text \<open>
  \<open>allow\<close>: the loop that compacts \<open>recent\<close> in place keeps the times since the cutoff. The
  storm alert is handed to a goroutine of its own.
\<close>

definition allow :: "gotime \<Rightarrow> Alert \<Rightarrow> Worker \<Rightarrow> Worker \<times> bool" where
  "allow now alert w =
     (let cutoff = now + dur_neg minute;
          w = w\<lparr>w_recent := filter (\<lambda>at. \<not> at < cutoff) (w_recent w)\<rparr>
      in if int (length (w_recent w)) < w_limit w then (w\<lparr>w_recent := w_recent w @ [now]\<rparr>, True)
         else
           let w = count_dropped w in
           if alt_RuleID alert = ''alert-storm''
              \<or> (0 < w_stormFor w \<and> now < w_stormAt w + w_stormFor w) then (w, False)
           else (w\<lparr>w_stormAt := now,
                   w_stats := (w_stats w)\<lparr>sn_StormAlerts := sn_StormAlerts (w_stats w) + 1\<rparr>,
                   w_storms := w_storms w @ [alert]\<rparr>, False))"

text \<open>One turn of \<open>run\<close>: the next alert is dropped, rate limited or about to be sent.\<close>

definition run_turn :: "gotime \<Rightarrow> Worker \<Rightarrow> Worker" where
  "run_turn now w =
     (case w_queue w of
        [] \<Rightarrow> w
      | alert # rest \<Rightarrow>
          let w = w\<lparr>w_queue := rest\<rparr> in
          if w_cancelled w then count_dropped w
          else case allow now alert w of
            (w, False) \<Rightarrow> w
          | (w, True) \<Rightarrow> w\<lparr>w_sending := Some alert\<rparr>)"

definition send_result :: "bool \<Rightarrow> Worker \<Rightarrow> Worker" where
  "send_result ok w = (count_result ok w)\<lparr>w_sending := None\<rparr>"

definition sendStorm_result :: "nat \<Rightarrow> bool \<Rightarrow> Worker \<Rightarrow> Worker" where
  "sendStorm_result i ok w =
     (count_result ok w)\<lparr>w_storms := take i (w_storms w) @ drop (Suc i) (w_storms w)\<rparr>"

text \<open>\<open>Close\<close> first closes the queue; when its context ends it cancels the worker.\<close>

definition close_queue :: "Worker \<Rightarrow> Worker" where
  "close_queue w = w\<lparr>w_closed := True\<rparr>"

definition cancel_worker :: "Worker \<Rightarrow> Worker" where
  "cancel_worker w = w\<lparr>w_cancelled := True\<rparr>"

text \<open>\<open>run\<close> returns and closes \<open>done\<close> in these states.\<close>

definition worker_done :: "Worker \<Rightarrow> bool" where
  "worker_done w \<longleftrightarrow> w_closed w \<and> w_queue w = [] \<and> w_sending w = None \<and> w_storms w = []"


section \<open>The message\<close>

definition format_d :: "int \<Rightarrow> string" where
  "format_d n = (if n < 0 then CHR ''-'' # digits (nat (- n)) else digits (nat n))"

definition FormatMarkdown :: "Alert \<Rightarrow> string" where
  "FormatMarkdown alert =
     (let nl = [CHR 0x0A];
          fence = replicate 3 (CHR 0x60);
          ls = [''**Node:** '' @ alt_ContainerName alert, ''**Rule:** '' @ alt_RuleID alert];
          ls = ls @ (if alt_Component alert \<noteq> [] then [''**Component:** '' @ alt_Component alert] else []);
          ls = ls @ (if alt_SubgraphID alert \<noteq> [] then [''**Subgraph:** '' @ alt_SubgraphID alert] else []);
          ls = ls @ [''**Count:** '' @ format_d (alt_WindowCount alert) @ '' / '' @ Duration_String (alt_Window alert),
                     ''**Total:** '' @ format_d (alt_TotalCount alert)];
          ls = ls @ (if alt_SuppressedCount alert > 0
                     then [''**Suppressed since previous alert:** '' @ format_d (alt_SuppressedCount alert)] else []);
          ls = ls @ (if alt_Samples alert \<noteq> [] then [''**Samples:**'' @ nl @ join nl (alt_Samples alert)] else []);
          ls = ls @ (if alt_Context alert \<noteq> []
                     then [''**Context:**'' @ nl @ fence @ nl @ join nl (alt_Context alert) @ nl @ fence] else []);
          ls = ls @ [''**Fingerprint:** '' @ [CHR 0x60] @ alt_Fingerprint alert @ [CHR 0x60]]
      in join (nl @ nl) ls)"

datatype Severity = SeverityLow | SeverityMedium | SeverityHigh | SeverityCritical

definition mapSeverity :: "string \<Rightarrow> Severity" where
  "mapSeverity value =
     (let v = to_lower value in
      if v = ''low'' then SeverityLow
      else if v = ''medium'' then SeverityMedium
      else if v = ''critical'' then SeverityCritical
      else SeverityHigh)"

record DingTalkConfig =
  dt_ID :: string
  dt_Webhook :: string
  dt_Secret :: string
  dt_AtMobiles :: "string list"
  dt_IsAtAll :: bool
  dt_CustomTags :: "string list"

text \<open>\<open>fmtErr\<close> is the error of the upstream formatter; the channel is made from the settings.\<close>

definition NewDingTalkNotifier :: "string option \<Rightarrow> DingTalkConfig \<Rightarrow> string option + DingTalkConfig" where
  "NewDingTalkNotifier fmtErr config =
     (if dt_ID config = [] \<or> dt_Webhook config = [] then Inl None
      else case fmtErr of Some err \<Rightarrow> Inl (Some err) | None \<Rightarrow> Inr config)"

text \<open>The notification that \<open>Notify\<close> hands to the channel: title, content and severity.\<close>

definition dingtalk_notification :: "Alert \<Rightarrow> string \<times> string \<times> Severity" where
  "dingtalk_notification alert =
     (''['' @ to_upper (alt_Severity alert) @ ''] graph-node log alert'', FormatMarkdown alert,
      mapSeverity (alt_Severity alert))"



section \<open>Retries stop at the first success\<close>

lemma notify_loop_spec:
  assumes "notify_loop outcome slept ctxErr attempt delays = (err, n)"
  shows "attempt < n \<and> n \<le> attempt + length delays + 1
    \<and> (\<forall>i. attempt \<le> i \<and> i < n - 1 \<longrightarrow> outcome i \<noteq> None)
    \<and> (err = None \<longleftrightarrow> outcome (n - 1) = None)
    \<and> (err = None \<or> n = attempt + length delays + 1 \<or> \<not> slept (n - 1) (delays ! (n - 1 - attempt)))"
  using assms
proof (induction delays arbitrary: attempt)
  case Nil
  then show ?case by auto
next
  case (Cons d ds)
  show ?case
  proof (cases "outcome attempt = None \<or> \<not> slept attempt d")
    case True
    then show ?thesis using Cons.prems by (auto split: option.splits)
  next
    case False
    then have "notify_loop outcome slept ctxErr (Suc attempt) ds = (err, n)"
      using Cons.prems by (auto split: option.splits)
    from Cons.IH [OF this] have ih: "Suc attempt < n" "n \<le> Suc attempt + length ds + 1"
      "\<forall>i. Suc attempt \<le> i \<and> i < n - 1 \<longrightarrow> outcome i \<noteq> None" "err = None \<longleftrightarrow> outcome (n - 1) = None"
      "err = None \<or> n = Suc attempt + length ds + 1 \<or> \<not> slept (n - 1) (ds ! (n - 1 - Suc attempt))"
      by blast+
    have "outcome i \<noteq> None" if "attempt \<le> i" "i < n - 1" for i
      using that ih(3) False by (cases "i = attempt") auto
    moreover have "n - 1 - attempt = Suc (n - 1 - Suc attempt)" using ih(1) by simp
    then have "(d # ds) ! (n - 1 - attempt) = ds ! (n - 1 - Suc attempt)" by simp
    ultimately show ?thesis using ih by auto
  qed
qed

lemma send_loop_notify:
  "send_loop outcome slept attempt delays =
     (fst (notify_loop outcome slept ctxErr attempt delays) = None, snd (notify_loop outcome slept ctxErr attempt delays))"
  by (induction outcome slept attempt delays rule: send_loop.induct) (auto split: option.splits)

text \<open>
  C36. Delivery with retries. Every channel is tried at least once and at most once more than
  there are delays, it is never called again after it accepted the alert, and success is
  reported exactly when the last call succeeded; with no cancellation it is reported exactly
  when one of the allowed attempts succeeds. Channels do not influence each other: the
  attempts on a channel among others are those it would get alone, and the fan-out reports an
  error exactly when some channel failed. \<open>send\<close> of the worker treats a notifier without
  retries of its own in the same way, and reports a fan-out as delivered exactly when every
  channel took the alert.
\<close>

theorem NotifyWithRetries_spec:
  assumes "notifyWithRetries outcome slept ctxErr retries = (err, n)"
  shows "1 \<le> n \<and> n \<le> length retries + 1 \<and> (\<forall>i < n - 1. outcome i \<noteq> None)
    \<and> (err = None \<longleftrightarrow> outcome (n - 1) = None)
    \<and> ((\<forall>i d. slept i d) \<longrightarrow> (err = None \<longleftrightarrow> (\<exists>i \<le> length retries. outcome i = None)))
    \<and> snd (multi_NotifyWithRetries (before @ (outcome, slept, ctxErr) # after) retries) ! length before = n
    \<and> (fst (multi_NotifyWithRetries channels retries) = [] \<longleftrightarrow>
        (\<forall>(out, sl, ce) \<in> set channels. fst (notifyWithRetries out sl ce retries) = None))
    \<and> worker_send (Inr (outcome, slept)) retries = (err = None, [n])
    \<and> (fst (worker_send (Inl channels) retries) \<longleftrightarrow>
        (\<forall>(out, sl, ce) \<in> set channels. fst (notifyWithRetries out sl ce retries) = None))"
proof -
  have loop: "notify_loop outcome slept ctxErr 0 retries = (err, n)"
    using assms by (simp add: notifyWithRetries_def)
  note spec = notify_loop_spec [OF loop]
  have "err = None \<longleftrightarrow> (\<exists>i \<le> length retries. outcome i = None)" if "\<forall>i d. slept i d"
  proof
    assume "err = None"
    then show "\<exists>i \<le> length retries. outcome i = None" using spec by (intro exI [of _ "n - 1"]) auto
  next
    assume "\<exists>i \<le> length retries. outcome i = None"
    then obtain i where i: "i \<le> length retries" "outcome i = None" by blast
    show "err = None"
    proof (rule ccontr)
      assume "err \<noteq> None"
      then have "n = length retries + 1" "outcome (n - 1) \<noteq> None" using spec that by auto
      then show False using i spec by (cases "i = n - 1") auto
    qed
  qed
  moreover have "snd (multi_NotifyWithRetries (before @ (outcome, slept, ctxErr) # after) retries) ! length before = n"
    using assms by (simp add: multi_NotifyWithRetries_def Let_def nth_append)
  moreover have "fst (multi_NotifyWithRetries channels retries) = [] \<longleftrightarrow>
      (\<forall>(out, sl, ce) \<in> set channels. fst (notifyWithRetries out sl ce retries) = None)"
    by (auto simp: multi_NotifyWithRetries_def Let_def map_filter_def filter_empty_conv)
  moreover have "worker_send (Inr (outcome, slept)) retries = (err = None, [n])"
    using loop by (simp add: send_loop_notify [of _ _ _ _ ctxErr])
  moreover have "fst (worker_send (Inl channels) retries) \<longleftrightarrow> fst (multi_NotifyWithRetries channels retries) = []"
    by (simp split: prod.splits)
  ultimately show ?thesis using spec by auto
qed

theorem NotifyWithRetries_spec_witness:
  "notifyWithRetries (\<lambda>i. if i = 1 then None else Some ''busy'') (\<lambda>_ _. True) ''cancelled'' [1, 2, 5] = (None, 2)
   \<and> fst (multi_NotifyWithRetries [(\<lambda>_. Some ''down'', \<lambda>_ _. True, ''cancelled'')] [1]) \<noteq> []"
proof -
  have "notifyWithRetries (\<lambda>i. if i = 1 then None else Some ''busy'') (\<lambda>_ _. True) ''cancelled'' [1, 2, 5] = (None, 2)"
    by (simp add: notifyWithRetries_def)
  with NotifyWithRetries_spec [OF this, of "[]" "[]" "[(\<lambda>_. Some ''down'', \<lambda>_ _. True, ''cancelled'')]"]
  show ?thesis by (simp add: multi_NotifyWithRetries_def notifyWithRetries_def map_filter_def)
qed


section \<open>The worker loses no alert silently\<close>

datatype worker_label =
    WSubmit Alert | WTurn gotime | WSent bool | WStorm nat bool | WClose | WCancel

inductive worker_step :: "worker_label \<Rightarrow> Worker \<Rightarrow> Worker \<Rightarrow> bool" where
  worker_Submit: "Submit alert w = (w', ok) \<Longrightarrow> worker_step (WSubmit alert) w w'"
| worker_Turn: "w_queue w \<noteq> [] \<Longrightarrow> w_sending w = None \<Longrightarrow> worker_step (WTurn now) w (run_turn now w)"
| worker_Sent: "w_sending w = Some alert \<Longrightarrow> worker_step (WSent ok) w (send_result ok w)"
| worker_Storm: "i < length (w_storms w) \<Longrightarrow> worker_step (WStorm i ok) w (sendStorm_result i ok w)"
| worker_Close: "worker_step WClose w (close_queue w)"
| worker_Cancel: "worker_step WCancel w (cancel_worker w)"

definition is_submit :: "worker_label \<Rightarrow> bool" where
  "is_submit l = (case l of WSubmit _ \<Rightarrow> True | _ \<Rightarrow> False)"

text \<open>The alerts inside the worker: queued, being sent, and storm alerts under way.\<close>

definition inside :: "Worker \<Rightarrow> nat" where
  "inside w = length (w_queue w) + (case w_sending w of None \<Rightarrow> 0 | Some _ \<Rightarrow> 1) + length (w_storms w)"

definition outcomes :: "Worker \<Rightarrow> 64 word" where
  "outcomes w = sn_Sent (w_stats w) + sn_Failed (w_stats w) + sn_Dropped (w_stats w)"

definition worker_inv :: "nat \<Rightarrow> Worker \<Rightarrow> bool" where
  "worker_inv submitted w \<longleftrightarrow>
     outcomes w + of_nat (inside w) = of_nat submitted + sn_StormAlerts (w_stats w)
     \<and> int (length (w_queue w)) \<le> w_queueSize w"

lemmas worker_defs = count_dropped_def count_result_def inside_def outcomes_def worker_inv_def Let_def

lemma worker_inv_step:
  assumes "worker_inv n w" and "worker_step l w w'"
  shows "worker_inv (if is_submit l then Suc n else n) w'"
  using assms(2)
proof cases
  case (worker_Submit alert ok)
  then show ?thesis using assms(1)
    by (auto simp: Submit_def worker_defs is_submit_def algebra_simps split: if_splits)
next
  case (worker_Turn now)
  then obtain alert rest where q: "w_queue w = alert # rest" by (cases "w_queue w") auto
  show ?thesis using assms(1) worker_Turn q
    by (auto simp: run_turn_def allow_def worker_defs is_submit_def algebra_simps split: if_splits)
next
  case (worker_Sent alert ok)
  then show ?thesis using assms(1)
    by (auto simp: send_result_def worker_defs is_submit_def algebra_simps)
next
  case (worker_Storm i ok)
  then obtain k where k: "length (w_storms w) = Suc k" "length (take i (w_storms w) @ drop (Suc i) (w_storms w)) = k"
    by (cases "length (w_storms w)") auto
  then show ?thesis using assms(1) worker_Storm
    by (auto simp: sendStorm_result_def worker_defs is_submit_def algebra_simps)
next
  case worker_Close
  then show ?thesis using assms(1) by (simp add: close_queue_def worker_defs is_submit_def)
next
  case worker_Cancel
  then show ?thesis using assms(1) by (simp add: cancel_worker_def worker_defs is_submit_def)
qed


lemma worker_inv_run:
  assumes "run worker_step w0 ls w" and "worker_inv 0 w0"
  shows "worker_inv (length (filter is_submit ls)) w"
  using assms
proof (induction rule: run.induct)
  case run_start
  then show ?case by simp
next
  case (run_step ls w l w')
  from worker_inv_step [OF run_step.IH [OF run_step.prems] run_step.hyps(2)] show ?case by (simp split: if_splits)
qed

lemma NewWorker_inv: "NewWorker b n m c ds = Inr w \<Longrightarrow> worker_inv 0 w"
  by (auto simp: NewWorker_def worker_defs split: if_splits)

lemma queueSize_step: "worker_step l w w' \<Longrightarrow> w_queueSize w' = w_queueSize w \<and> w_limit w' = w_limit w
    \<and> w_stormFor w' = w_stormFor w"
  by (erule worker_step.cases) (auto simp: Submit_def run_turn_def allow_def send_result_def sendStorm_result_def
      close_queue_def cancel_worker_def count_dropped_def count_result_def Let_def split: if_splits list.splits)

interpretation worker_settings: step_invariant worker_step
  "\<lambda>w. w_queueSize w = n \<and> w_limit w = m \<and> w_stormFor w = c" for n m c
  by unfold_locales (auto dest: queueSize_step)

text \<open>
  C19. The books of the worker balance. After any interleaving of submissions, turns of the
  worker, deliveries, storm alerts, shutdown and cancellation, the counters for sent, failed
  and dropped alerts, as 64-bit words, together with the alerts still inside, add up to the
  submissions and the storm alerts: no alert vanishes without being counted. The queue never
  exceeds its size. When the worker is done, everything is accounted for by the counters.
\<close>

theorem Worker_accounting:
  assumes "NewWorker has_notifier queueSize maxAlerts stormCooldown delays = Inr w0"
    and "run worker_step w0 ls w"
  shows "outcomes w + of_nat (inside w) = of_nat (length (filter is_submit ls)) + sn_StormAlerts (worker_Stats w)
    \<and> int (length (w_queue w)) \<le> queueSize
    \<and> (worker_done w \<longrightarrow> outcomes w = of_nat (length (filter is_submit ls)) + sn_StormAlerts (worker_Stats w))"
proof -
  have "worker_inv (length (filter is_submit ls)) w"
    by (rule worker_inv_run [OF assms(2) NewWorker_inv [OF assms(1)]])
  moreover have "w_queueSize w0 = queueSize"
    using assms(1) by (auto simp: NewWorker_def Let_def split: if_splits)
  then have "w_queueSize w = queueSize"
    using worker_settings.run_keeps [OF assms(2)] by blast
  ultimately show ?thesis by (auto simp: worker_inv_def worker_Stats_def worker_done_def inside_def)
qed

lemma worker_finish:
  assumes "w_closed w" and "2 * length (w_queue w) + (case w_sending w of None \<Rightarrow> 0 | Some _ \<Rightarrow> 1) + length (w_storms w) = n"
  shows "\<exists>ls w'. run worker_step w ls w' \<and> worker_done w' \<and> length ls \<le> n
    \<and> list_all (\<lambda>l. \<not> is_submit l \<and> l \<noteq> WCancel) ls"
  using assms
proof (induction n arbitrary: w rule: less_induct)
  case (less n)
  have go: ?case if step: "worker_step l w w1" and l: "\<not> is_submit l" "l \<noteq> WCancel" and closed: "w_closed w1"
    and m: "2 * length (w_queue w1) + (case w_sending w1 of None \<Rightarrow> 0 | Some _ \<Rightarrow> 1) + length (w_storms w1) < n"
    for l w1
  proof -
    from less.IH [OF m closed refl] obtain ls w' where r: "run worker_step w1 ls w'" "worker_done w'"
      "length ls \<le> 2 * length (w_queue w1) + (case w_sending w1 of None \<Rightarrow> 0 | Some _ \<Rightarrow> 1) + length (w_storms w1)"
      "list_all (\<lambda>l. \<not> is_submit l \<and> l \<noteq> WCancel) ls" by blast
    have "run worker_step w ([] @ [l]) w1" by (rule run_step [where step = worker_step, OF run_start step])
    from run_trans [OF r(1) this] r m l show ?thesis by (intro exI [of _ "l # ls"] exI [of _ w']) simp
  qed
  show ?case
  proof (cases "w_sending w")
    case (Some alert)
    show ?thesis by (rule go [OF worker_Sent [OF Some, of True]])
      (use less.prems Some in \<open>auto simp: is_submit_def send_result_def count_result_def\<close>)
  next
    case None
    show ?thesis
    proof (cases "w_storms w")
      case (Cons a as)
      show ?thesis by (rule go [OF worker_Storm [of 0 w True]])
        (use less.prems None Cons in \<open>auto simp: is_submit_def sendStorm_result_def count_result_def\<close>)
    next
      case Nil
      show ?thesis
      proof (cases "w_queue w")
        case (Cons a as)
        show ?thesis by (rule go [OF worker_Turn [of w 0]])
          (use less.prems None Nil Cons in \<open>auto simp: is_submit_def run_turn_def allow_def count_dropped_def Let_def split: if_splits\<close>)
      next
        case (Nil)
        then show ?thesis using less.prems None \<open>w_storms w = []\<close> run_start [of worker_step w]
          by (intro exI [of _ "[]"] exI [of _ w]) (simp add: worker_done_def)
      qed
    qed
  qed
qed

text \<open>
  Shutdown of the worker terminates: after the queue is closed, the worker can finish in
  a number of its own steps that is bounded by twice the queue length plus what is under way.
\<close>

theorem Worker_can_finish:
  assumes "NewWorker has_notifier queueSize maxAlerts stormCooldown delays = Inr w0"
    and "run worker_step w0 ls w" and "w_closed w"
  shows "\<exists>ls' w'. run worker_step w ls' w' \<and> worker_done w' \<and> length ls' \<le> 2 * inside w
    \<and> list_all (\<lambda>l. \<not> is_submit l \<and> l \<noteq> WCancel) ls'"
proof -
  obtain ls' w' where "run worker_step w ls' w'" "worker_done w'"
    "length ls' \<le> 2 * length (w_queue w) + (case w_sending w of None \<Rightarrow> 0 | Some _ \<Rightarrow> 1) + length (w_storms w)"
    "list_all (\<lambda>l. \<not> is_submit l \<and> l \<noteq> WCancel) ls'"
    using worker_finish [OF assms(3) refl] by blast
  then show ?thesis by (intro exI [of _ ls'] exI [of _ w']) (auto simp: inside_def split: option.splits)
qed



section \<open>The rate limit\<close>

text \<open>
  A trace of the worker with a clock that does not go back: the clock readings of its turns,
  the times at which an alert passed the rate limit, and the times at which a storm alert
  was started.
\<close>

inductive worker_trace :: "Worker \<Rightarrow> gotime list \<Rightarrow> gotime list \<Rightarrow> gotime list \<Rightarrow> Worker \<Rightarrow> bool" for w0 where
  trace_start: "worker_trace w0 [] [] [] w0"
| trace_turn: "worker_trace w0 ts passed storms w \<Longrightarrow> worker_step (WTurn now) w w' \<Longrightarrow>
     \<forall>t \<in> set ts. t \<le> now \<Longrightarrow>
     worker_trace w0 (ts @ [now])
       (if w_sending w' \<noteq> None then passed @ [now] else passed)
       (if length (w_storms w') \<noteq> length (w_storms w) then storms @ [now] else storms) w'"
| trace_other: "worker_trace w0 ts passed storms w \<Longrightarrow> worker_step l w w' \<Longrightarrow> (\<forall>now. l \<noteq> WTurn now) \<Longrightarrow>
     worker_trace w0 ts passed storms w'"

lemma turn_eq:
  assumes "worker_step (WTurn now) w w'"
  obtains (cancelled) "w_recent w' = w_recent w" "w_sending w' = None" "w_storms w' = w_storms w" "w_stormAt w' = w_stormAt w"
    | (passed) "w_recent w' = filter (\<lambda>at. now - minute \<le> at) (w_recent w) @ [now]" "w_sending w' \<noteq> None"
        "int (length (filter (\<lambda>at. now - minute \<le> at) (w_recent w))) < w_limit w"
        "w_storms w' = w_storms w" "w_stormAt w' = w_stormAt w"
    | (limited) "w_recent w' = filter (\<lambda>at. now - minute \<le> at) (w_recent w)" "w_sending w' = None"
        "w_storms w' = w_storms w" "w_stormAt w' = w_stormAt w"
    | (storm) a where "w_recent w' = filter (\<lambda>at. now - minute \<le> at) (w_recent w)" "w_sending w' = None"
        "w_storms w' = w_storms w @ [a]" "w_stormAt w' = now" "w_stormFor w \<le> 0 \<or> w_stormAt w + w_stormFor w \<le> now"
proof -
  from assms obtain alert rest where q: "w_queue w = alert # rest" and n: "w_sending w = None"
    and w': "w' = run_turn now w" by (cases rule: worker_step.cases) (auto simp: neq_Nil_conv)
  show ?thesis
  proof (cases "w_cancelled w")
    case True
    then show ?thesis using q n by (intro cancelled) (simp_all add: w' run_turn_def count_dropped_def)
  next
    case opn: False
    show ?thesis
    proof (cases "int (length (filter (\<lambda>at. now - minute \<le> at) (w_recent w))) < w_limit w")
      case True
      then show ?thesis using q n opn
        by (intro passed) (simp_all add: w' run_turn_def allow_def not_less Let_def)
    next
      case False
      then have full: "\<not> int (length (filter (\<lambda>at. \<not> at < now - minute) (w_recent w))) < w_limit w"
        by (simp add: not_less)
      show ?thesis
      proof (cases "alt_RuleID alert = ''alert-storm'' \<or> (0 < w_stormFor w \<and> now < w_stormAt w + w_stormFor w)")
        case True
        then show ?thesis using q n opn full
          by (intro limited) (auto simp: w' run_turn_def allow_def Let_def count_dropped_def not_less)
      next
        case False
        then show ?thesis using q n opn full
          by (intro storm) (auto simp: w' run_turn_def allow_def Let_def count_dropped_def not_less)
      qed
    qed
  qed
qed

definition rate_inv :: "gotime list \<Rightarrow> gotime list \<Rightarrow> gotime list \<Rightarrow> Worker \<Rightarrow> bool" where
  "rate_inv ts passed storms w \<longleftrightarrow>
     (\<forall>now. (\<forall>t \<in> set ts. t \<le> now) \<longrightarrow>
        filter (\<lambda>t. now - minute \<le> t) (w_recent w) = filter (\<lambda>t. now - minute \<le> t) passed)
     \<and> (\<forall>xs t ys. passed = xs @ t # ys \<longrightarrow>
          int (length (filter (\<lambda>x. t - minute \<le> x) (xs @ [t]))) \<le> w_limit w)
     \<and> (0 < w_stormFor w \<longrightarrow> sorted_wrt (\<lambda>x y. x + w_stormFor w \<le> y) storms)
     \<and> (storms \<noteq> [] \<longrightarrow> w_stormAt w = last storms)"

lemma snoc_split: "xs @ [x] = as @ t # bs \<Longrightarrow> (bs = [] \<and> as = xs \<and> t = x) \<or> (\<exists>bs'. xs = as @ t # bs')"
  by (cases bs rule: rev_cases) auto

lemma rate_turn:
  assumes inv: "rate_inv ts passed storms w" and step: "worker_step (WTurn now) w w'"
    and mono: "\<forall>t \<in> set ts. t \<le> now"
  shows "rate_inv (ts @ [now]) (if w_sending w' \<noteq> None then passed @ [now] else passed)
      (if length (w_storms w') \<noteq> length (w_storms w) then storms @ [now] else storms) w'"
proof -
  have set': "w_limit w' = w_limit w" "w_stormFor w' = w_stormFor w" using queueSize_step [OF step] by simp_all
  have cut: "filter (\<lambda>t. now - minute \<le> t) (w_recent w) = filter (\<lambda>t. now - minute \<le> t) passed"
    using inv mono by (simp add: rate_inv_def)
  have later: "filter (\<lambda>t. n - minute \<le> t) (filter (\<lambda>t. now - minute \<le> t) passed) = filter (\<lambda>t. n - minute \<le> t) passed"
    if "now \<le> n" for n using that by (auto intro!: filter_cong)
  from step show ?thesis
  proof (cases rule: turn_eq)
    case cancelled
    then show ?thesis using inv set' by (simp add: rate_inv_def)
  next
    case passed
    have "int (length (filter (\<lambda>x. t - minute \<le> x) (xs @ [t]))) \<le> w_limit w"
      if "passed @ [now] = xs @ t # ys" for xs t ys
      using snoc_split [OF that] inv passed(3) cut by (auto simp: rate_inv_def)
    moreover have "filter (\<lambda>t. n - minute \<le> t) (w_recent w') = filter (\<lambda>t. n - minute \<le> t) (passed @ [now])"
      if "now \<le> n" for n using later [OF that] by (simp add: passed(1) cut)
    ultimately show ?thesis using inv passed set' by (simp add: rate_inv_def)
  next
    case limited
    then show ?thesis using inv set' later by (simp add: rate_inv_def cut)
  next
    case (storm a)
    have "sorted_wrt (\<lambda>x y. x + w_stormFor w \<le> y) (storms @ [now])" if "0 < w_stormFor w"
      using inv storm(5) that by (intro sorted_wrt_snoc_last) (auto simp: rate_inv_def)
    then show ?thesis using inv storm set' later by (simp add: rate_inv_def cut)
  qed
qed

lemma rate_other:
  assumes "rate_inv ts passed storms w" and "worker_step l w w'" and "\<forall>now. l \<noteq> WTurn now"
  shows "rate_inv ts passed storms w'"
  using assms(2,3,1)
  by cases (auto simp: rate_inv_def Submit_def send_result_def sendStorm_result_def close_queue_def
      cancel_worker_def count_dropped_def count_result_def split: if_splits)

lemma trace_inv:
  assumes "worker_trace w0 ts passed storms w" and "w_recent w0 = []"
  shows "rate_inv ts passed storms w \<and> w_limit w = w_limit w0 \<and> w_stormFor w = w_stormFor w0"
  using assms
proof (induction rule: worker_trace.induct)
  case trace_start
  then show ?case by (simp add: rate_inv_def)
next
  case (trace_turn ts passed storms w now w')
  then show ?case using rate_turn [of ts passed storms w now w'] queueSize_step [of "WTurn now" w w'] by simp
next
  case (trace_other ts passed storms w l w')
  then show ?case using rate_other [of ts passed storms w l w'] queueSize_step [of l w w'] by simp
qed

lemma interval_bound:
  assumes "\<forall>xs t ys. passed = xs @ t # ys \<longrightarrow> int (length (filter (\<lambda>x. t - minute \<le> x) (xs @ [t]))) \<le> m"
    and "0 \<le> m"
  shows "int (length (filter (\<lambda>x. s \<le> x \<and> x \<le> s + minute) passed)) \<le> m"
  using assms(1)
proof (induction passed rule: rev_induct)
  case Nil
  then show ?case using assms(2) by simp
next
  case (snoc t xs)
  show ?case
  proof (cases "s \<le> t \<and> t \<le> s + minute")
    case True
    have "length (filter (\<lambda>x. s \<le> x \<and> x \<le> s + minute) (xs @ [t])) \<le> length (filter (\<lambda>x. t - minute \<le> x) (xs @ [t]))"
      using True by (intro length_filter_mono) auto
    then show ?thesis using snoc.prems [rule_format, of xs t "[]"] by simp
  next
    case False
    have "\<forall>ys u zs. xs = ys @ u # zs \<longrightarrow> int (length (filter (\<lambda>x. u - minute \<le> x) (ys @ [u]))) \<le> m"
      using snoc.prems by (metis append_Cons append_assoc)
    from snoc.IH [OF this] False show ?thesis by auto
  qed
qed


text \<open>
  C17. The rate limit holds in every minute, not only in calendar minutes: along any trace of
  the worker with a clock that does not go back, at most \<open>max_alerts_per_minute\<close> alerts pass
  the limit within any sixty seconds; and with a positive storm cooldown the storm alerts are
  started at least that cooldown apart.
\<close>

theorem Worker_rate_limit:
  assumes "NewWorker has_notifier queueSize maxAlerts stormCooldown delays = Inr w0"
    and "worker_trace w0 ts passed storms w"
  shows "int (length (filter (\<lambda>x. s \<le> x \<and> x \<le> s + minute) passed)) \<le> maxAlerts
    \<and> (0 < stormCooldown \<longrightarrow> sorted_wrt (\<lambda>x y. x + stormCooldown \<le> y) storms)"
proof -
  have w0: "w_recent w0 = []" "w_limit w0 = maxAlerts" "w_stormFor w0 = stormCooldown" "0 \<le> maxAlerts"
    using assms(1) by (auto simp: NewWorker_def Let_def split: if_splits)
  have "rate_inv ts passed storms w" "w_limit w = maxAlerts" "w_stormFor w = stormCooldown"
    using trace_inv [OF assms(2) w0(1)] w0 by simp_all
  then show ?thesis using interval_bound [of passed maxAlerts s] w0(4) by (simp add: rate_inv_def)
qed


subsection \<open>Examples\<close>

definition example_worker :: Worker where
  "example_worker = \<lparr>w_queue = [], w_queueSize = 2, w_retries = [1], w_limit = 1, w_stormFor = second, w_closed = False,
     w_stats = \<lparr>sn_Sent = 0, sn_Failed = 0, sn_Dropped = 0, sn_StormAlerts = 0\<rparr>, w_recent = [],
     w_stormAt = zero_time, w_cancelled = False, w_sending = None, w_storms = []\<rparr>"

lemma example_worker_New: "NewWorker True 2 1 second [1] = Inr example_worker"
  by (simp add: NewWorker_def example_worker_def)

definition example_alert :: Alert where
  "example_alert = alert_of example_rule example_error ''fp'' example_result1"

lemma example_worker_run:
  "run worker_step example_worker [WSubmit example_alert, WClose] (close_queue (fst (Submit example_alert example_worker)))"
proof -
  have s1: "worker_step (WSubmit example_alert) example_worker (fst (Submit example_alert example_worker))"
    by (rule worker_Submit [where ok = "snd (Submit example_alert example_worker)"]) simp
  note r1 = run_step [where step = worker_step, OF run_start s1]
  from run_step [where step = worker_step, OF r1 worker_Close] show ?thesis by simp
qed

theorem Worker_accounting_witness:
  "outcomes (close_queue (fst (Submit example_alert example_worker)))
     + of_nat (inside (close_queue (fst (Submit example_alert example_worker)))) = 1"
  using Worker_accounting [OF example_worker_New example_worker_run]
  by (simp add: is_submit_def worker_Stats_def close_queue_def Submit_def example_worker_def)

theorem Worker_can_finish_witness:
  "\<exists>ls w. run worker_step (close_queue (fst (Submit example_alert example_worker))) ls w \<and> worker_done w"
proof -
  have "w_closed (close_queue (fst (Submit example_alert example_worker)))" by (simp add: close_queue_def)
  from Worker_can_finish [OF example_worker_New example_worker_run this] show ?thesis by blast
qed

theorem Worker_rate_limit_witness:
  "\<exists>passed storms w. worker_trace example_worker [7] passed storms w \<and> passed = [7]
     \<and> int (length (filter (\<lambda>x. 0 \<le> x \<and> x \<le> 0 + minute) passed)) \<le> 1"
proof -
  define w1 where "w1 = fst (Submit example_alert example_worker)"
  have s1: "worker_step (WSubmit example_alert) example_worker w1"
    unfolding w1_def by (rule worker_Submit [where ok = "snd (Submit example_alert example_worker)"]) simp
  have t1: "worker_trace example_worker [] [] [] w1"
    by (rule trace_other [OF trace_start s1]) simp
  have q: "w_queue w1 = [example_alert]" "w_sending w1 = None"
    by (simp_all add: w1_def Submit_def example_worker_def)
  have s2: "worker_step (WTurn 7) w1 (run_turn 7 w1)" by (rule worker_Turn) (simp_all add: q)
  have "w_sending (run_turn 7 w1) \<noteq> None"
    by (simp add: run_turn_def q allow_def Let_def w1_def Submit_def example_worker_def)
  with trace_turn [OF t1 s2] have t2: "\<exists>storms. worker_trace example_worker [7] [7] storms (run_turn 7 w1)" by auto
  then show ?thesis using Worker_rate_limit [OF example_worker_New, of "[7]" "[7]" _ _ 0] by blast
qed

end
