(* ===== verification/Time_Format.thy ===== *)
theory Time_Format
  imports Duration_Text
begin

text \<open>
  Times as text: \<open>Format\<close> of package \<open>time\<close> with the layout \<open>RFC3339Nano\<close> for a time in UTC, and the
  parser for this layout. The source uses them for event hashes, for the timestamps of Docker
  log lines and for the start of a log request. A \<open>gotime\<close> counts nanoseconds from
  January 1 of year 1.
\<close>

section \<open>The calendar\<close>

definition isLeap :: "int \<Rightarrow> bool" where
  "isLeap year \<longleftrightarrow> year mod 4 = 0 \<and> (year mod 100 \<noteq> 0 \<or> year mod 400 = 0)"

definition days_before :: "int \<Rightarrow> int" where
  "days_before month = [0, 31, 59, 90, 120, 151, 181, 212, 243, 273, 304, 334, 365] ! nat month"

definition daysIn :: "int \<Rightarrow> int \<Rightarrow> int" where
  "daysIn month year =
     (if month = 2 \<and> isLeap year then 29 else days_before month - days_before (month - 1))"

text \<open>The year and the day of the year, counted from zero, of a day counted from January 1 of year 1.\<close>

definition year_yday :: "int \<Rightarrow> int \<times> int" where
  "year_yday days =
     (let y = 400 * (days div 146097); d = days mod 146097;
          n = d div 36524; n = n - n div 4; y = y + 100 * n; d = d - 36524 * n;
          n = d div 1461; y = y + 4 * n; d = d - 1461 * n;
          n = d div 365; n = n - n div 4; y = y + n; d = d - 365 * n
      in (y + 1, d))"

definition month_day :: "bool \<Rightarrow> int \<Rightarrow> int \<times> int" where
  "month_day leap yday =
     (if leap \<and> yday = 59 then (2, 29)
      else let day = (if leap \<and> 59 < yday then yday - 1 else yday);
               month = day div 31;
               end = days_before (month + 1)
           in if end \<le> day then (month + 2, day - end + 1) else (month + 1, day - days_before month + 1))"

definition absDate :: "int \<Rightarrow> int \<times> int \<times> int" where
  "absDate days = (let (year, yday) = year_yday days in (year, month_day (isLeap year) yday))"

text \<open>The number of days from January 1 of year 1 to a date, as \<open>Date\<close> computes it.\<close>

definition date_days :: "int \<Rightarrow> int \<Rightarrow> int \<Rightarrow> int" where
  "date_days year month day =
     (let y = year - 1 in
      365 * y + y div 4 - y div 100 + y div 400 + days_before (month - 1)
        + (if isLeap year \<and> 3 \<le> month then 1 else 0) + day - 1)"

text \<open>The fourth part of a cycle may be one longer than the others and is not counted as a fifth.\<close>

lemma quarter:
  fixes r k :: int
  assumes "0 < k" "0 \<le> r" "r \<le> 4 * k"
  defines "a \<equiv> r div k - r div k div 4"
  shows "0 \<le> a" "a \<le> 3" "0 \<le> r - k * a" "r - k * a \<le> k" "a < 3 \<Longrightarrow> r - k * a < k"
proof -
  define q m where "q = r div k" and "m = r mod k"
  have r: "r = k * q + m" "0 \<le> m" "m < k" using assms(1) by (simp_all add: q_def m_def)
  have "0 \<le> q" using assms(1,2) by (simp add: q_def pos_imp_zdiv_nonneg_iff)
  moreover have "q \<le> 4" using zdiv_mono1 [OF assms(3,1)] assms(1) by (simp add: q_def)
  ultimately consider "0 \<le> q" "q \<le> 3" "a = q" | "q = 4" "a = 3" by (fastforce simp: a_def q_def [symmetric])
  then have "0 \<le> a \<and> a \<le> 3 \<and> 0 \<le> r - k * a \<and> r - k * a \<le> k \<and> (a < 3 \<longrightarrow> r - k * a < k)"
    using r assms(3) by cases auto
  then show "0 \<le> a" "a \<le> 3" "0 \<le> r - k * a" "r - k * a \<le> k" "a < 3 \<Longrightarrow> r - k * a < k" by auto
qed

lemma leap_position:
  fixes year a b c e :: int
  assumes "year = 400 * c + 100 * a + 4 * b + e + 1" and "0 \<le> b" "b \<le> 24" and "e = 3" "b < 24 \<or> a = 3"
  shows "isLeap year"
proof -
  have "year mod 4 = 0" unfolding assms(1) using assms(4) by (intro int_mod_pos_eq [where q = "100 * c + 25 * a + b + 1"]) auto
  moreover have "year mod 100 = 4 * b + 4" if "b < 24"
    unfolding assms(1) using assms(2,4) that by (intro int_mod_pos_eq [where q = "4 * c + a"]) auto
  moreover have "year mod 400 = 0" if "b = 24"
    unfolding assms(1) using assms(4,5) that by (intro int_mod_pos_eq [where q = "c + 1"]) auto
  ultimately show ?thesis using assms(2,3) by (cases "b = 24") (auto simp: isLeap_def)
qed

lemma year_yday_inverse:
  assumes "year_yday days = (year, yday)"
  shows "days = 365 * (year - 1) + (year - 1) div 4 - (year - 1) div 100 + (year - 1) div 400 + yday"
    and "0 \<le> yday" and "yday < (if isLeap year then 366 else 365)"
proof -
  define c r where "c = days div 146097" and "r = days mod 146097"
  define a where "a = r div 36524 - r div 36524 div 4"
  define r1 where "r1 = r - 36524 * a"
  define b where "b = r1 div 1461"
  define r2 where "r2 = r1 - 1461 * b"
  define e where "e = r2 div 365 - r2 div 365 div 4"
  have year: "year = 400 * c + 100 * a + 4 * b + e + 1" and yday: "yday = r2 - 365 * e"
    using assms unfolding year_yday_def Let_def c_def [symmetric] r_def [symmetric] a_def [symmetric] r1_def [symmetric]
      b_def [symmetric] r2_def [symmetric] e_def [symmetric] by simp_all
  have r: "0 \<le> r" "r < 146097" "days = 146097 * c + r" by (simp_all add: r_def c_def)
  have r4: "r \<le> 4 * 36524" using r(2) by simp
  note a = quarter [OF _ r(1) r4, folded a_def, folded r1_def, simplified]
  have "r2 = r1 mod 1461" by (simp add: r2_def b_def minus_mult_div_eq_mod)
  then have r2: "0 \<le> r2" "r2 < 1461" "r1 = 1461 * b + r2" by (simp_all add: r2_def)
  have b0: "0 \<le> b" using a(3) by (simp add: b_def pos_imp_zdiv_nonneg_iff)
  have b24: "b \<le> 24" using a(4) r2(1,3) by linarith
  have b: "r2 < 1460" if "b = 24" "a < 3" using a(5) [OF that(2)] r2(3) that(1) by simp
  have r24: "r2 \<le> 4 * 365" using r2(2) by simp
  note e = quarter [OF _ r2(1) r24, folded e_def, folded yday, simplified]
  have y: "(year - 1) div 4 = 100 * c + 25 * a + b" "(year - 1) div 100 = 4 * c + a" "(year - 1) div 400 = c"
    using a(1,2) b0 b24 e(1,2) int_div_pos_eq [of "year - 1" 4 "100 * c + 25 * a + b" e]
      int_div_pos_eq [of "year - 1" 100 "4 * c + a" "4 * b + e"]
      int_div_pos_eq [of "year - 1" 400 c "100 * a + 4 * b + e"] by (simp_all add: year)
  show "days = 365 * (year - 1) + (year - 1) div 4 - (year - 1) div 100 + (year - 1) div 400 + yday"
    unfolding y unfolding year yday using r(3) by (simp add: r1_def r2_def)
  show "0 \<le> yday" by (rule e(3))
  show "yday < (if isLeap year then 366 else 365)"
  proof (cases "e = 3 \<and> (b < 24 \<or> a = 3)")
    case True
    with leap_position [OF year b0 b24] e(4) show ?thesis by simp
  next
    case False
    have "yday < 365"
    proof (cases "e < 3")
      case True
      then show ?thesis by (rule e(5))
    next
      case F: False
      then have "e = 3" "b = 24" "a < 3" using False a(2) b24 e(2) by auto
      then show ?thesis using b yday by simp
    qed
    then show ?thesis by simp
  qed
qed

text \<open>The months, by evaluation on every day of a year of either kind.\<close>

definition month_day_ok :: "bool \<Rightarrow> int \<Rightarrow> bool" where
  "month_day_ok leap yday \<longleftrightarrow>
     (case month_day leap yday of (month, day) \<Rightarrow>
        1 \<le> month \<and> month \<le> 12 \<and> 1 \<le> day
        \<and> day \<le> (if month = 2 \<and> leap then 29 else days_before month - days_before (month - 1))
        \<and> days_before (month - 1) + (if leap \<and> 3 \<le> month then 1 else 0) + day - 1 = yday)"

lemma month_day_common: "list_all (month_day_ok False) [0..364]"
  by code_simp

lemma month_day_leap: "list_all (month_day_ok True) [0..365]"
  by code_simp

lemma month_day_inverse: "0 \<le> yday \<Longrightarrow> yday < (if leap then 366 else 365) \<Longrightarrow> month_day_ok leap yday"
  using month_day_common month_day_leap by (cases leap) (simp_all add: list_all_iff)

lemma absDate_inverse:
  assumes "absDate days = (year, month, day)"
  shows "date_days year month day = days" "1 \<le> month" "month \<le> 12" "1 \<le> day" "day \<le> daysIn month year" "day \<le> 31"
proof -
  obtain yday where yd: "year_yday days = (year, yday)" and md: "month_day (isLeap year) yday = (month, day)"
    using assms by (auto simp: absDate_def split: prod.splits)
  note inv = year_yday_inverse [OF yd]
  from month_day_inverse [OF inv(2,3)] have ok: "month_day_ok (isLeap year) yday" .
  then show "1 \<le> month" "month \<le> 12" "1 \<le> day" "day \<le> daysIn month year"
    by (simp_all add: month_day_ok_def md daysIn_def)
  have "days_before (month - 1) + (if isLeap year \<and> 3 \<le> month then 1 else 0) + day - 1 = yday"
    using ok by (simp add: month_day_ok_def md)
  then show "date_days year month day = days" unfolding date_days_def Let_def using inv(1) by linarith
  have "list_all (\<lambda>m. days_before m - days_before (m - 1) \<le> 31) [1..12]" by code_simp
  then have "days_before month - days_before (month - 1) \<le> 31"
    using \<open>1 \<le> month\<close> \<open>month \<le> 12\<close> by (simp add: list_all_iff)
  with \<open>day \<le> daysIn month year\<close> show "day \<le> 31" by (simp add: daysIn_def split: if_splits)
qed


section \<open>Formatting\<close>

definition pad :: "nat \<Rightarrow> nat \<Rightarrow> string" where
  "pad width n = replicate (width - length (digits n)) (CHR ''0'') @ digits n"

definition appendInt :: "nat \<Rightarrow> int \<Rightarrow> string" where
  "appendInt width x = (if x < 0 then CHR ''-'' # pad width (nat (- x)) else pad width (nat x))"

definition appendNano :: "nat \<Rightarrow> string" where
  "appendNano nanosec =
     (if nanosec = 0 then []
      else CHR ''.'' # rev (dropWhile (\<lambda>c. c = CHR ''0'') (rev (pad 9 nanosec))))"

text \<open>The offset of the zone in seconds; it is cut to minutes toward zero.\<close>

definition zone_text :: "int \<Rightarrow> string" where
  "zone_text offset =
     (if offset = 0 then ''Z''
      else let zone = \<bar>offset\<bar> div 60
           in (if offset \<le> - 60 then ''-'' else ''+'') @ appendInt 2 (zone div 60) @ '':'' @ appendInt 2 (zone mod 60))"

definition clock_text :: "gotime \<Rightarrow> string" where
  "clock_text t =
     (let days = t div (86400 * second); secs = t mod (86400 * second) div second;
          (year, month, day) = absDate days
      in appendInt 4 year @ ''-'' @ appendInt 2 month @ ''-'' @ appendInt 2 day @ ''T''
         @ appendInt 2 (secs div 3600) @ '':'' @ appendInt 2 (secs mod 3600 div 60) @ '':'' @ appendInt 2 (secs mod 60)
         @ appendNano (nat (t mod second)))"

definition time_Format_in :: "int \<Rightarrow> gotime \<Rightarrow> string" where
  "time_Format_in offset t = clock_text (t + offset * second) @ zone_text offset"

definition time_Format :: "gotime \<Rightarrow> string" where
  "time_Format t = clock_text t @ ''Z''"

lemma time_Format_UTC: "time_Format_in 0 t = time_Format t"
  by (simp add: time_Format_in_def time_Format_def zone_text_def)


section \<open>Parsing\<close>

definition parseUint :: "nat \<Rightarrow> nat \<Rightarrow> string \<Rightarrow> nat option" where
  "parseUint mn mx s =
     (if list_all dec_digit s \<and> mn \<le> dec_val 0 s \<and> dec_val 0 s \<le> mx then Some (dec_val 0 s) else None)"

definition slice :: "nat \<Rightarrow> nat \<Rightarrow> string \<Rightarrow> string" where
  "slice from til s = take (til - from) (drop from s)"

text \<open>The fraction of a second: more than nine digits are cut.\<close>

definition parse_nanos :: "string \<Rightarrow> nat \<times> string" where
  "parse_nanos s =
     (if 2 \<le> length s \<and> s ! 0 = CHR ''.'' \<and> dec_digit (s ! 1)
      then let ds = take 9 (takeWhile dec_digit (tl s))
           in (dec_val 0 ds * 10 ^ (9 - length ds), dropWhile dec_digit (tl s))
      else (0, s))"

text \<open>The offset of the zone in seconds.\<close>

definition parse_zone :: "string \<Rightarrow> int option" where
  "parse_zone s =
     (if s = ''Z'' then Some 0
      else if length s \<noteq> 6 then None
      else case (parseUint 0 23 (slice 1 3 s), parseUint 0 59 (slice 4 6 s)) of
        (Some hr, Some mm) \<Rightarrow>
          if (s ! 0 = CHR ''-'' \<or> s ! 0 = CHR ''+'') \<and> s ! 3 = CHR '':''
          then let offset = int ((hr * 60 + mm) * 60) in Some (if s ! 0 = CHR ''-'' then - offset else offset)
          else None
      | _ \<Rightarrow> None)"

definition parse_clock :: "string \<Rightarrow> int option" where
  "parse_clock s =
     (case (parseUint 0 9999 (slice 0 4 s), parseUint 1 12 (slice 5 7 s)) of
        (Some year, Some month) \<Rightarrow>
          (case (parseUint 1 (nat (daysIn (int month) (int year))) (slice 8 10 s), parseUint 0 23 (slice 11 13 s),
                 parseUint 0 59 (slice 14 16 s), parseUint 0 59 (slice 17 19 s)) of
             (Some day, Some hh, Some mm, Some ss) \<Rightarrow>
               if s ! 4 = CHR ''-'' \<and> s ! 7 = CHR ''-'' \<and> s ! 10 = CHR ''T'' \<and> s ! 13 = CHR '':'' \<and> s ! 16 = CHR '':''
               then Some (date_days (int year) (int month) (int day) * 86400
                      + int (hh * 3600 + mm * 60 + ss))
               else None
           | _ \<Rightarrow> None)
      | _ \<Rightarrow> None)"

definition parseRFC3339 :: "string \<Rightarrow> gotime option" where
  "parseRFC3339 s =
     (if length s < 19 then None
      else case parse_clock s of
        None \<Rightarrow> None
      | Some secs \<Rightarrow>
          let (nsec, zone) = parse_nanos (drop 19 s)
          in map_option (\<lambda>offset. (secs - offset) * second + int nsec) (parse_zone zone))"

text \<open>
  \<open>Parse\<close> tries this parser first. Texts that it refuses go to the parser for general layouts,
  which is the parameter \<open>general\<close>.
\<close>

definition time_Parse :: "(string \<Rightarrow> gotime option) \<Rightarrow> string \<Rightarrow> gotime option" where
  "time_Parse general s = (case parseRFC3339 s of Some t \<Rightarrow> Some t | None \<Rightarrow> general s)"


section \<open>Fields of fixed width\<close>

lemma digits_length: "n < 10 ^ w \<Longrightarrow> 0 < w \<Longrightarrow> length (digits n) \<le> w"
proof (induction w arbitrary: n)
  case (Suc w)
  show ?case
  proof (cases "n < 10")
    case True
    then show ?thesis by (subst digits.simps) simp
  next
    case False
    have "n div 10 < 10 ^ w" using Suc.prems(1) by (simp add: less_mult_imp_div_less mult.commute)
    moreover have "0 < w" using False Suc.prems(1) by (cases w) auto
    ultimately show ?thesis using Suc.IH [of "n div 10"] False by (subst digits.simps) simp
  qed
qed simp

lemma zero_digit: "dec_digit (CHR ''0'')" "dec_value (CHR ''0'') = 0"
  by (simp_all add: dec_digit_def dec_value_def)

lemma dec_val_zeros: "dec_val x (replicate k (CHR ''0'')) = x * 10 ^ k"
  by (induction k arbitrary: x) (simp_all add: zero_digit)

lemma pad_read: "list_all dec_digit (pad w n)" "dec_val 0 (pad w n) = n" "pad w n \<noteq> []"
  using digits_read [of n] by (auto simp: pad_def dec_val_zeros zero_digit list_all_iff)

lemma pad_length: "n < 10 ^ w \<Longrightarrow> 0 < w \<Longrightarrow> length (pad w n) = w"
  using digits_length [of n w] by (simp add: pad_def)

lemma appendInt_field:
  "0 \<le> x \<Longrightarrow> x < 10 ^ w \<Longrightarrow> 0 < w \<Longrightarrow>
   length (appendInt w x) = w \<and> list_all dec_digit (appendInt w x) \<and> dec_val 0 (appendInt w x) = nat x"
  using pad_read [of w "nat x"] pad_length [of "nat x" w] by (simp add: appendInt_def nat_less_iff)

lemma two_digits: "a \<le> x \<Longrightarrow> x \<le> b \<Longrightarrow> 0 \<le> a \<Longrightarrow> b \<le> 99 \<Longrightarrow> length (appendInt 2 x) = 2"
  using appendInt_field [of x 2] by simp

lemma parseUint_field:
  "0 \<le> x \<Longrightarrow> x < 10 ^ w \<Longrightarrow> 0 < w \<Longrightarrow> int mn \<le> x \<Longrightarrow> x \<le> int mx \<Longrightarrow> parseUint mn mx (appendInt w x) = Some (nat x)"
  using appendInt_field [of x w] by (auto simp: parseUint_def)

lemma appendNano_read:
  assumes "n < 10 ^ 9" and "no_digit z" and "z \<noteq> []" and "hd z \<noteq> CHR ''.''"
  shows "parse_nanos (appendNano n @ z) = (n, z)"
proof (cases "n = 0")
  case True
  then show ?thesis using assms(3,4) by (cases z) (simp_all add: appendNano_def parse_nanos_def)
next
  case False
  define ds where "ds = rev (dropWhile (\<lambda>c. c = CHR ''0'') (rev (pad 9 n)))"
  define zs where "zs = takeWhile (\<lambda>c. c = CHR ''0'') (rev (pad 9 n))"
  have zs: "zs = replicate (length zs) (CHR ''0'')"
    by (rule replicate_length_same [symmetric]) (auto simp: zs_def dest: set_takeWhileD)
  have "pad 9 n = ds @ rev zs" unfolding ds_def zs_def by (metis rev_append rev_rev_ident takeWhile_dropWhile_id)
  then have pad: "pad 9 n = ds @ replicate (length zs) (CHR ''0'')" using zs by (metis rev_replicate)
  then have val: "dec_val 0 ds * 10 ^ length zs = n" using pad_read(2) [of 9 n] by (simp add: dec_val_zeros)
  have len: "length ds + length zs = 9" using pad pad_length [OF assms(1)] by (metis length_append length_replicate zero_less_numeral)
  have dig: "list_all dec_digit ds" using pad pad_read(1) [of 9 n] by (simp add: list_all_iff)
  have ne: "ds \<noteq> []" using val False by auto
  obtain c z' where z: "z = c # z'" "\<not> dec_digit c" using assms(2,3) by (cases z) (auto simp: no_digit_def)
  have "takeWhile dec_digit (ds @ z) = ds" "dropWhile dec_digit (ds @ z) = z"
    using dig z(2) by (simp_all add: z(1) list_all_iff takeWhile_append2 dropWhile_append2)
  moreover have "2 \<le> length (CHR ''.'' # ds @ z)" using ne by (cases ds) auto
  moreover have "dec_digit ((CHR ''.'' # ds @ z) ! 1)" using dig ne by (cases ds) auto
  moreover have "take 9 ds = ds" "9 - length ds = length zs" using len by simp_all
  ultimately have "parse_nanos (CHR ''.'' # ds @ z) = (dec_val 0 ds * 10 ^ length zs, z)"
    unfolding parse_nanos_def by (simp only: list.sel nth_Cons_0 simp_thms if_True Let_def)
  then show ?thesis using False val by (simp add: appendNano_def ds_def [symmetric])
qed

lemma appendNano_inj:
  assumes "m < 10 ^ 9" "n < 10 ^ 9" "appendNano m = appendNano n"
  shows "m = n"
proof -
  have z: "no_digit ''Z''" "''Z'' \<noteq> []" "hd ''Z'' \<noteq> CHR ''.''" by (simp_all add: no_digit_def dec_digit_def)
  from appendNano_read [OF assms(1) z] appendNano_read [OF assms(2) z] have "(m, ''Z'') = (n, ''Z'')"
    unfolding assms(3) by (rule trans [OF sym])
  then show ?thesis by simp
qed


section \<open>The round trip\<close>

lemma clock_fields:
  fixes rest :: string
  assumes "length Y = 4" "length M = 2" "length D = 2" "length h = 2" "length mi = 2" "length se = 2"
  defines "s \<equiv> Y @ ''-'' @ M @ ''-'' @ D @ ''T'' @ h @ '':'' @ mi @ '':'' @ se @ rest"
  shows "slice 0 4 s = Y" "slice 5 7 s = M" "slice 8 10 s = D" "slice 11 13 s = h" "slice 14 16 s = mi"
    "slice 17 19 s = se" "drop 19 s = rest" "\<not> length s < 19"
    "s ! 4 = CHR ''-''" "s ! 7 = CHR ''-''" "s ! 10 = CHR ''T''" "s ! 13 = CHR '':''" "s ! 16 = CHR '':''"
  using assms(1-6) by (simp_all add: s_def slice_def nth_append)

definition time_year :: "gotime \<Rightarrow> int" where
  "time_year t = fst (absDate (t div (86400 * second)))"

lemma parse_zone_text:
  assumes "\<bar>offset\<bar> < 86400" and "60 dvd offset"
  shows "parse_zone (zone_text offset) = Some offset" "no_digit (zone_text offset)" "zone_text offset \<noteq> []"
    "hd (zone_text offset) \<noteq> CHR ''.''"
proof -
  show "no_digit (zone_text offset)" "zone_text offset \<noteq> []" "hd (zone_text offset) \<noteq> CHR ''.''"
    by (simp_all add: zone_text_def no_digit_def dec_digit_def Let_def)
  define zone where "zone = \<bar>offset\<bar> div 60"
  define hr mm where "hr = zone div 60" and "mm = zone mod 60"
  have zone: "\<bar>offset\<bar> = zone * 60" "0 \<le> zone" "zone < 1440"
    using assms by (auto simp: zone_def div_less_iff_less_mult pos_imp_zdiv_nonneg_iff)
  have hm: "zone = hr * 60 + mm" "0 \<le> mm" "mm \<le> 59" "0 \<le> hr" "hr \<le> 23"
    using zone(2,3) zdiv_mono1 [of zone 1439 60] pos_mod_bound [of 60 zone]
    by (simp_all add: hr_def mm_def pos_imp_zdiv_nonneg_iff)
  show "parse_zone (zone_text offset) = Some offset"
  proof (cases "offset = 0")
    case True
    then show ?thesis by (simp add: zone_text_def parse_zone_def)
  next
    case False
    define c where "c = (if offset \<le> - 60 then CHR ''-'' else CHR ''+'')"
    have zt: "zone_text offset = c # appendInt 2 hr @ '':'' @ appendInt 2 mm"
      using False by (simp add: zone_text_def Let_def c_def hr_def mm_def zone_def)
    have len: "length (appendInt 2 hr) = 2" "length (appendInt 2 mm) = 2"
      using two_digits [OF hm(4,5)] two_digits [OF hm(2,3)] by simp_all
    have "slice 1 3 (zone_text offset) = appendInt 2 hr" "slice 4 6 (zone_text offset) = appendInt 2 mm"
      "zone_text offset ! 3 = CHR '':''" "length (zone_text offset) = 6" "zone_text offset \<noteq> ''Z''"
      unfolding zt using len by (auto simp: slice_def nth_append c_def)
    moreover have "parseUint 0 23 (appendInt 2 hr) = Some (nat hr)" "parseUint 0 59 (appendInt 2 mm) = Some (nat mm)"
      using hm by (auto intro!: parseUint_field)
    moreover have "int ((nat hr * 60 + nat mm) * 60) = \<bar>offset\<bar>" using zone(1) hm(1,2,4) by simp
    moreover have "c = CHR ''-'' \<or> c = CHR ''+''" by (simp add: c_def)
    moreover have "c = CHR ''-'' \<longleftrightarrow> offset < 0" using assms(2) False by (auto simp: c_def elim!: dvdE)
    ultimately show ?thesis by (auto simp: parse_zone_def zt c_def [symmetric])
  qed
qed

text \<open>A time from the parts that \<open>Format\<close> writes.\<close>

lemma time_parts:
  fixes t :: gotime
  defines "days \<equiv> t div (86400 * second)" and "secs \<equiv> t mod (86400 * second) div second"
  shows "0 \<le> secs" "secs < 86400" "(days * 86400 + secs) * second + t mod second = t"
    "secs div 3600 * 3600 + secs mod 3600 div 60 * 60 + secs mod 60 = secs"
    "0 \<le> secs div 3600" "secs div 3600 \<le> 23" "0 \<le> secs mod 3600 div 60" "secs mod 3600 div 60 \<le> 59"
    "0 \<le> secs mod 60" "secs mod 60 \<le> 59"
proof -
  show s: "0 \<le> secs" "secs < 86400" by (simp_all add: secs_def pos_imp_zdiv_nonneg_iff div_less_iff_less_mult)
  have "secs * second + t mod (86400 * second) mod second = t mod (86400 * second)"
    unfolding secs_def by (rule div_mult_mod_eq)
  moreover have "t mod (86400 * second) mod second = t mod second" by (rule mod_mod_cancel) simp
  moreover have "days * (86400 * second) + t mod (86400 * second) = t" unfolding days_def by (rule div_mult_mod_eq)
  ultimately show "(days * 86400 + secs) * second + t mod second = t" by (simp add: algebra_simps)
  have "secs mod 3600 mod 60 = secs mod 60" by (rule mod_mod_cancel) simp
  then show "secs div 3600 * 3600 + secs mod 3600 div 60 * 60 + secs mod 60 = secs"
    using div_mult_mod_eq [of secs 3600] div_mult_mod_eq [of "secs mod 3600" 60] by linarith
  show "0 \<le> secs div 3600" "0 \<le> secs mod 3600 div 60" using s(1) by (simp_all add: pos_imp_zdiv_nonneg_iff)
  show "secs div 3600 \<le> 23" using zdiv_mono1 [of secs 86399 3600] s(2) by simp
  show "secs mod 3600 div 60 \<le> 59"
    by (rule order_trans [OF zdiv_mono1 [of _ 3599]]) simp_all
  show "0 \<le> secs mod 60" "secs mod 60 \<le> 59" using pos_mod_bound [of 60 secs] by simp_all
qed

text \<open>
  Times are read back. The text that \<open>Format\<close> with the layout \<open>RFC3339Nano\<close> writes for a time of the years 0
  to 9999, in any zone whose offset is in whole minutes, is parsed to the same instant, to the
  nanosecond, leap days included, whatever the parser for general layouts does.
\<close>

theorem time_roundtrip_in:
  assumes "0 \<le> time_year (u + offset * second)" and "time_year (u + offset * second) \<le> 9999"
    and "\<bar>offset\<bar> < 86400" "60 dvd offset"
  shows "time_Parse general (time_Format_in offset u) = Some u"
proof -
  define t where "t = u + offset * second"
  define days secs where "days = t div (86400 * second)" and "secs = t mod (86400 * second) div second"
  define hh mi ss where "hh = secs div 3600" and "mi = secs mod 3600 div 60" and "ss = secs mod 60"
  note parts = time_parts [of t, folded days_def secs_def, folded hh_def mi_def ss_def]
  obtain year month day where date: "absDate days = (year, month, day)" by (cases "absDate days") auto
  note inv = absDate_inverse [OF date]
  have y: "0 \<le> year" "year \<le> 9999" using assms(1,2) unfolding t_def [symmetric] time_year_def days_def [symmetric] date by simp_all
  define rest where "rest = appendNano (nat (t mod second)) @ zone_text offset"
  define s where "s = appendInt 4 year @ ''-'' @ appendInt 2 month @ ''-'' @ appendInt 2 day @ ''T''
    @ appendInt 2 hh @ '':'' @ appendInt 2 mi @ '':'' @ appendInt 2 ss @ rest"
  have s: "time_Format_in offset u = s"
    unfolding time_Format_in_def t_def [symmetric] clock_text_def Let_def days_def [symmetric] secs_def [symmetric] hh_def [symmetric] mi_def [symmetric]
      ss_def [symmetric] date s_def rest_def by simp
  have len: "length (appendInt 4 year) = 4" "length (appendInt 2 month) = 2" "length (appendInt 2 day) = 2"
    "length (appendInt 2 hh) = 2" "length (appendInt 2 mi) = 2"
    "length (appendInt 2 ss) = 2"
    using appendInt_field [OF y(1), of 4] y(2)
      two_digits [OF inv(2,3)] two_digits [OF inv(4,6)] two_digits [OF parts(5,6)] two_digits [OF parts(7,8)]
      two_digits [OF parts(9,10)] by simp_all
  note f = clock_fields [OF len, of rest, folded s_def]
  have "parse_clock s = Some (days * 86400 + secs)"
  proof -
    have "parseUint 0 9999 (slice 0 4 s) = Some (nat year)" "parseUint 1 12 (slice 5 7 s) = Some (nat month)"
      "parseUint 1 (nat (daysIn month year)) (slice 8 10 s) = Some (nat day)"
      "parseUint 0 23 (slice 11 13 s) = Some (nat hh)"
      "parseUint 0 59 (slice 14 16 s) = Some (nat mi)"
      "parseUint 0 59 (slice 17 19 s) = Some (nat ss)"
      unfolding f using y inv parts(5-10) by (auto intro!: parseUint_field)
    moreover have "int (nat hh * 3600 + nat mi * 60 + nat ss) = secs"
      using parts(4,5,7,9) by simp
    ultimately show ?thesis using y(1) inv(1,2,4) f(9-13) by (simp add: parse_clock_def)
  qed
  moreover have "parse_nanos (drop 19 s) = (nat (t mod second), zone_text offset)"
    unfolding f rest_def
    by (rule appendNano_read [OF _ parse_zone_text(2-4) [OF assms(3,4)]]) (simp add: nat_less_iff)
  ultimately have "parseRFC3339 s = Some ((days * 86400 + secs - offset) * second + t mod second)"
    using f(8) parse_zone_text(1) [OF assms(3,4)] by (simp add: parseRFC3339_def)
  also have "(days * 86400 + secs - offset) * second + t mod second = u"
    using parts(3) unfolding left_diff_distrib by (simp only: t_def)
  finally show ?thesis by (simp only: s time_Parse_def option.case)
qed

lemma time_roundtrip:
  "0 \<le> time_year t \<Longrightarrow> time_year t \<le> 9999 \<Longrightarrow> time_Parse general (time_Format t) = Some t"
  using time_roundtrip_in [of t 0 general] by (simp add: time_Format_UTC)


section \<open>Different times have different texts\<close>

lemma appendInt_inj:
  assumes "appendInt w x = appendInt w y"
  shows "x = y"
proof -
  have minus: "pad w n \<noteq> CHR ''-'' # s" for n s
    using pad_read(1) [of w n] by (auto simp: dec_digit_def)
  have pad: "pad w m = pad w n \<longleftrightarrow> m = n" for m n using pad_read(2) [of w] by metis
  show ?thesis
    using assms minus [of "nat x"] minus [of "nat y", symmetric]
    by (auto simp: appendInt_def pad eq_nat_nat_iff split: if_splits)
qed

lemma appendInt_chars: "set (appendInt w x) \<subseteq> insert (CHR ''-'') {c. dec_digit c}"
  using pad_read(1) [of w] by (auto simp: appendInt_def list_all_iff)

lemma appendNano_chars: "set (appendNano n) \<subseteq> insert (CHR ''.'') {c. dec_digit c}"
  using pad_read(1) [of 9 n] by (auto simp: appendNano_def list_all_iff dest: set_dropWhileD)

text \<open>The separators are not digits, so the texts fall apart in the same way.\<close>

lemma time_Format_inj: "inj time_Format"
proof (rule injI)
  fix t t' assume eq: "time_Format t = time_Format t'"
  define date where "date u = absDate (u div (86400 * second))" for u
  define secs where "secs u = u mod (86400 * second) div second" for u :: int
  define A where "A u = appendInt 4 (fst (date u))" for u
  define B where "B u = ''-'' @ appendInt 2 (fst (snd (date u))) @ ''-'' @ appendInt 2 (snd (snd (date u)))" for u
  define C where "C u = appendInt 2 (secs u div 3600) @ '':'' @ appendInt 2 (secs u mod 3600 div 60) @ '':'' @ appendInt 2 (secs u mod 60)" for u
  define N where "N u = appendNano (nat (u mod second))" for u :: int
  have F: "time_Format u = (A u @ B u) @ CHR ''T'' # C u @ N u @ ''Z''" for u
    unfolding time_Format_def clock_text_def Let_def date_def [symmetric] secs_def [symmetric] A_def B_def C_def N_def
    by (simp split: prod.split)
  have d: "1 \<le> fst (snd (date u))" "fst (snd (date u)) \<le> 12" "1 \<le> snd (snd (date u))" "snd (snd (date u)) \<le> 31"
    "date_days (fst (date u)) (fst (snd (date u))) (snd (snd (date u))) = u div (86400 * second)" for u
    using absDate_inverse [of "u div (86400 * second)" "fst (date u)" "fst (snd (date u))" "snd (snd (date u))"]
    by (simp_all add: date_def)
  note p = time_parts [folded secs_def]
  have two: "length (appendInt 2 (fst (snd (date u)))) = 2" "length (appendInt 2 (snd (snd (date u)))) = 2"
    "length (appendInt 2 (secs u div 3600)) = 2" "length (appendInt 2 (secs u mod 3600 div 60)) = 2"
    "length (appendInt 2 (secs u mod 60)) = 2" for u
    using two_digits [OF d(1,2), of u] two_digits [OF d(3,4), of u] two_digits [OF p(5,6), of u]
      two_digits [OF p(7,8), of u] two_digits [OF p(9,10), of u] by simp_all
  have "CHR ''T'' \<notin> set (A u @ B u)" "CHR ''T'' \<notin> set (C u @ N u @ ''Z'')" for u
    using appendInt_chars [THEN subsetD, of "CHR ''T''"] appendNano_chars [THEN subsetD, of "CHR ''T''"]
    by (auto simp: A_def B_def C_def N_def dec_digit_def)
  then have "A t @ B t = A t' @ B t' \<and> C t @ N t @ ''Z'' = C t' @ N t' @ ''Z''"
    using eq append_Cons_eq_iff unfolding F by metis
  then have "A t = A t'" "B t = B t'" "C t = C t'" "N t = N t'" using two by (auto simp: B_def C_def)
  then have "fst (date t) = fst (date t')" "fst (snd (date t)) = fst (snd (date t'))" "snd (snd (date t)) = snd (snd (date t'))"
    and sec: "secs t div 3600 = secs t' div 3600" "secs t mod 3600 div 60 = secs t' mod 3600 div 60"
      "secs t mod 60 = secs t' mod 60"
    using two by (auto simp: A_def B_def C_def dest!: appendInt_inj)
  then have "t div (86400 * second) = t' div (86400 * second)" using d(5) by metis
  moreover have "secs t = secs t'" using sec p(4) by metis
  moreover have "t mod second = t' mod second"
  proof -
    have lt: "nat (u mod second) < 10 ^ 9" for u :: int by (simp add: nat_less_iff)
    have "nat (t mod second) = nat (t' mod second)"
      using \<open>N t = N t'\<close> unfolding N_def by (rule appendNano_inj [OF lt lt])
    then show ?thesis by simp
  qed
  ultimately show "t = t'" using p(3) by metis
qed

lemma time_Format_chars: "set (time_Format t) \<subseteq> set ''-T:.Z'' \<union> {c. dec_digit c}"
proof -
  have "set (appendInt w x) \<subseteq> set ''-T:.Z'' \<union> {c. dec_digit c}" for w x
    using appendInt_chars [of w x] by auto
  moreover have "set (appendNano n) \<subseteq> set ''-T:.Z'' \<union> {c. dec_digit c}" for n using appendNano_chars [of n] by auto
  ultimately show ?thesis by (cases "absDate (t div (86400 * second))") (simp add: time_Format_def clock_text_def Let_def)
qed

lemma time_Format_free:
  "c \<notin> set ''-T:.Z'' \<Longrightarrow> \<not> dec_digit c \<Longrightarrow> c \<notin> set (time_Format t)"
  using time_Format_chars [of t] by auto

subsection \<open>Examples\<close>

lemma example_date: "absDate 738944 = (2024, 2, 29)"
  by code_simp

lemma example_fields:
  "appendInt 4 2024 = ''2024''" "appendInt 2 2 = ''02''" "appendInt 2 29 = ''29''" "appendInt 2 12 = ''12''"
  "appendInt 2 34 = ''34''" "appendInt 2 56 = ''56''" "pad 9 500000000 = ''500000000''"
  by (simp_all add: appendInt_def pad_def digits_eval char_of_def bit_0)

lemma example_time: "time_Format 63844806896500000000 = ''2024-02-29T12:34:56.5Z''" "time_year 63844806896500000000 = 2024"
  by (simp_all add: time_Format_def clock_text_def time_year_def appendNano_def example_date example_fields)

end
