(* ===== verification/Replay_Gate.thy ===== *)
theory Replay_Gate
  imports Log_Entry Time_Format
begin

text \<open>
  The model of \<open>internal/checkpoint/replay.go\<close>: the start of a replay, the event hash that
  marks a position in a log stream, and the gate that skips what was processed before a
  restart. The hexadecimal SHA-256 digest is a parameter.

  The lemmas show that the gate returns exactly the records after the marker when the marker
  is in the overlap, and every record when it is not.
\<close>

record ContainerCheckpoint =
  cpt_ContainerName :: string
  cpt_ContainerID :: string
  cpt_LastTimestamp :: gotime
  cpt_LastEventHash :: string

definition ReplayStart :: "ContainerCheckpoint \<Rightarrow> duration \<Rightarrow> gotime" where
  "ReplayStart checkpoint overlap =
     (if cpt_LastTimestamp checkpoint = zero_time then zero_time
      else cpt_LastTimestamp checkpoint + dur_neg overlap)"

text \<open>The bytes that are hashed: each of the four parts preceded by a NUL byte.\<close>

definition hash_input :: "RawLog \<Rightarrow> string" where
  "hash_input raw =
     concat (map (\<lambda>v. CHR 0x00 # v)
       [rl_ContainerID raw, time_Format (rl_Timestamp raw), rl_Stream raw, rl_Raw raw])"

definition EventHash :: "(string \<Rightarrow> string) \<Rightarrow> RawLog \<Rightarrow> string" where
  "EventHash sha raw = sha (hash_input raw)"

record ReplayGate =
  rg_checkpoint :: ContainerCheckpoint
  rg_looking :: bool
  rg_buffered :: "RawLog list"

definition NewReplayGate :: "ContainerCheckpoint \<Rightarrow> ReplayGate" where
  "NewReplayGate checkpoint =
     \<lparr>rg_checkpoint = checkpoint,
      rg_looking = (cpt_ContainerID checkpoint \<noteq> [] \<and> cpt_LastTimestamp checkpoint \<noteq> zero_time
        \<and> cpt_LastEventHash checkpoint \<noteq> []),
      rg_buffered = []\<rparr>"

definition gate_Accept ::
    "(RawLog \<Rightarrow> string) \<Rightarrow> ReplayGate \<Rightarrow> RawLog \<Rightarrow> ReplayGate \<times> RawLog list" where
  "gate_Accept hash g raw =
     (if \<not> rg_looking g then (g, [raw])
      else if rl_ContainerID raw \<noteq> cpt_ContainerID (rg_checkpoint g)
        then (g\<lparr>rg_looking := False, rg_buffered := []\<rparr>, [raw])
      else if rl_Timestamp raw = cpt_LastTimestamp (rg_checkpoint g)
              \<and> hash raw = cpt_LastEventHash (rg_checkpoint g)
        then (g\<lparr>rg_looking := False, rg_buffered := []\<rparr>, [])
      else if cpt_LastTimestamp (rg_checkpoint g) < rl_Timestamp raw
        then (g\<lparr>rg_looking := False, rg_buffered := []\<rparr>, rg_buffered g @ [raw])
      else (g\<lparr>rg_buffered := rg_buffered g @ [raw]\<rparr>, []))"

definition gate_Finish :: "ReplayGate \<Rightarrow> ReplayGate \<times> RawLog list" where
  "gate_Finish g =
     (if \<not> rg_looking g then (g, [])
      else (g\<lparr>rg_looking := False, rg_buffered := []\<rparr>, rg_buffered g))"

text \<open>A stream through the gate, and what the gate lets through in all.\<close>

fun gate_stream :: "(RawLog \<Rightarrow> string) \<Rightarrow> ReplayGate \<Rightarrow> RawLog list \<Rightarrow> ReplayGate \<times> RawLog list" where
  "gate_stream hash g [] = (g, [])"
| "gate_stream hash g (raw # raws) =
     (let (g, out) = gate_Accept hash g raw; (g, outs) = gate_stream hash g raws in (g, out @ outs))"

definition gate_output :: "(RawLog \<Rightarrow> string) \<Rightarrow> ContainerCheckpoint \<Rightarrow> RawLog list \<Rightarrow> RawLog list" where
  "gate_output hash checkpoint raws =
     (let (g, out) = gate_stream hash (NewReplayGate checkpoint) raws in out @ snd (gate_Finish g))"


section \<open>The event hash\<close>

lemma nul_split:
  assumes "CHR 0x00 \<notin> set a" and "CHR 0x00 \<notin> set b"
    and "a @ CHR 0x00 # x = b @ CHR 0x00 # y"
  shows "a = b \<and> x = y"
  using assms
proof (induction a arbitrary: b)
  case Nil
  then show ?case by (cases b) auto
next
  case (Cons c a)
  then show ?case by (cases b) auto
qed

lemma hash_input_inj:
  assumes "list_all (\<lambda>x. CHR 0x00 \<notin> set (rl_ContainerID x @ rl_Stream x)) [r, r']"
  shows "hash_input r = hash_input r' \<longleftrightarrow> rl_ContainerID r = rl_ContainerID r' \<and> rl_Timestamp r = rl_Timestamp r'
    \<and> rl_Stream r = rl_Stream r' \<and> rl_Raw r = rl_Raw r'"
proof
  assume "hash_input r = hash_input r'"
  then have eq: "rl_ContainerID r @ CHR 0x00 # time_Format (rl_Timestamp r) @ CHR 0x00 # rl_Stream r @ CHR 0x00 # rl_Raw r
      = rl_ContainerID r' @ CHR 0x00 # time_Format (rl_Timestamp r') @ CHR 0x00 # rl_Stream r' @ CHR 0x00 # rl_Raw r'"
    by (simp add: hash_input_def)
  have nul: "CHR 0x00 \<notin> set (time_Format t)" for t by (rule time_Format_free) (simp_all add: dec_digit_def)
  have s1: "rl_ContainerID r = rl_ContainerID r' \<and> time_Format (rl_Timestamp r) @ CHR 0x00 # rl_Stream r @ CHR 0x00 # rl_Raw r
      = time_Format (rl_Timestamp r') @ CHR 0x00 # rl_Stream r' @ CHR 0x00 # rl_Raw r'"
    by (rule nul_split [OF _ _ eq]) (use assms in simp_all)
  note s2 = nul_split [OF nul nul conjunct2 [OF s1]]
  have s3: "rl_Stream r = rl_Stream r' \<and> rl_Raw r = rl_Raw r'"
    by (rule nul_split [OF _ _ conjunct2 [OF s2]]) (use assms in simp_all)
  show "rl_ContainerID r = rl_ContainerID r' \<and> rl_Timestamp r = rl_Timestamp r'
      \<and> rl_Stream r = rl_Stream r' \<and> rl_Raw r = rl_Raw r'"
    using s1 s2 s3 time_Format_inj by (simp add: inj_eq)
qed (simp add: hash_input_def)

text \<open>
  C38. The replay marker identifies a record: with a digest that does not collide on the two
  inputs, two records of containers and streams whose names have no NUL byte have the same
  hash exactly when container, time to the nanosecond, stream and line are the same. The line
  itself may hold any bytes.
\<close>

theorem EventHash_identifies:
  assumes "sha (hash_input r) = sha (hash_input r') \<Longrightarrow> hash_input r = hash_input r'"
    and "list_all (\<lambda>x. CHR 0x00 \<notin> set (rl_ContainerID x @ rl_Stream x)) [r, r']"
  shows "EventHash sha r = EventHash sha r' \<longleftrightarrow>
    rl_ContainerID r = rl_ContainerID r' \<and> rl_Timestamp r = rl_Timestamp r'
    \<and> rl_Stream r = rl_Stream r' \<and> rl_Raw r = rl_Raw r'"
  using assms(1) hash_input_inj [OF assms(2)] by (auto simp: EventHash_def hash_input_def)


section \<open>The gate\<close>

definition is_marker :: "(RawLog \<Rightarrow> string) \<Rightarrow> ContainerCheckpoint \<Rightarrow> RawLog \<Rightarrow> bool" where
  "is_marker hash cp raw \<longleftrightarrow>
     rl_Timestamp raw = cpt_LastTimestamp cp \<and> hash raw = cpt_LastEventHash cp"

text \<open>
  The reference: look for the marker among the records up to the checkpoint time; skip
  everything through it, or nothing when it is not there.
\<close>

fun after_marker :: "(RawLog \<Rightarrow> bool) \<Rightarrow> RawLog list \<Rightarrow> RawLog list option" where
  "after_marker m [] = None"
| "after_marker m (r # rs) = (if m r then Some rs else after_marker m rs)"

definition replay_ref :: "(RawLog \<Rightarrow> string) \<Rightarrow> ContainerCheckpoint \<Rightarrow> RawLog list \<Rightarrow> RawLog list" where
  "replay_ref hash cp raws =
     (let overlap = takeWhile (\<lambda>r. rl_Timestamp r \<le> cpt_LastTimestamp cp) raws;
          newer = dropWhile (\<lambda>r. rl_Timestamp r \<le> cpt_LastTimestamp cp) raws
      in case after_marker (is_marker hash cp) overlap of
           None \<Rightarrow> raws
         | Some rest \<Rightarrow> rest @ newer)"

lemma gate_open: "\<not> rg_looking g \<Longrightarrow> gate_stream hash g raws = (g, raws)"
  by (induction raws) (simp_all add: gate_Accept_def)

lemma gate_looking:
  assumes "rg_looking g" and "\<forall>r \<in> set raws. rl_ContainerID r = cpt_ContainerID (rg_checkpoint g)"
    and "gate_stream hash g raws = (g', out)"
  shows "out @ snd (gate_Finish g') =
    (case after_marker (is_marker hash (rg_checkpoint g))
        (takeWhile (\<lambda>r. rl_Timestamp r \<le> cpt_LastTimestamp (rg_checkpoint g)) raws) of
       None \<Rightarrow> rg_buffered g @ raws
     | Some rest \<Rightarrow> rest @ dropWhile (\<lambda>r. rl_Timestamp r \<le> cpt_LastTimestamp (rg_checkpoint g)) raws)"
  using assms
proof (induction raws arbitrary: g out)
  case Nil
  then show ?case by (simp add: gate_Finish_def)
next
  case (Cons r raws)
  let ?cp = "rg_checkpoint g"
  consider "is_marker hash ?cp r" | "\<not> is_marker hash ?cp r" "cpt_LastTimestamp ?cp < rl_Timestamp r"
    | "\<not> is_marker hash ?cp r" "rl_Timestamp r \<le> cpt_LastTimestamp ?cp" by fastforce
  then show ?case
  proof cases
    case 1
    then have "gate_Accept hash g r = (g\<lparr>rg_looking := False, rg_buffered := []\<rparr>, [])"
      using Cons.prems(1,2) by (simp add: gate_Accept_def is_marker_def)
    with Cons.prems(3) 1 show ?thesis
      by (auto simp: gate_open gate_Finish_def is_marker_def takeWhile_dropWhile_id)
  next
    case 2
    then have "gate_Accept hash g r = (g\<lparr>rg_looking := False, rg_buffered := []\<rparr>, rg_buffered g @ [r])"
      using Cons.prems(1,2) by (auto simp: gate_Accept_def is_marker_def)
    with Cons.prems(3) 2 show ?thesis by (auto simp: gate_open gate_Finish_def)
  next
    case 3
    define g1 where "g1 = g\<lparr>rg_buffered := rg_buffered g @ [r]\<rparr>"
    have "gate_Accept hash g r = (g1, [])"
      using 3 Cons.prems(1,2) by (auto simp: gate_Accept_def is_marker_def g1_def)
    with Cons.prems(3) have "gate_stream hash g1 raws = (g', out)" by (auto split: prod.splits)
    with Cons.IH [of g1 out] Cons.prems(1,2) 3 show ?thesis
      by (simp add: g1_def split: option.splits)
  qed
qed

lemma gate_stream_resume:
  assumes "rg_looking g" and "\<forall>r \<in> set (old @ [m]). rl_ContainerID r = cpt_ContainerID (rg_checkpoint g)"
    and "\<forall>r \<in> set old. \<not> is_marker hash (rg_checkpoint g) r \<and> rl_Timestamp r \<le> cpt_LastTimestamp (rg_checkpoint g)"
    and "is_marker hash (rg_checkpoint g) m"
  shows "snd (gate_stream hash g (old @ m # new)) = new"
  using assms
proof (induction old arbitrary: g)
  case Nil
  then have "gate_Accept hash g m = (g\<lparr>rg_looking := False, rg_buffered := []\<rparr>, [])"
    by (simp add: gate_Accept_def is_marker_def)
  then show ?case by (simp add: gate_open)
next
  case (Cons r old)
  define g1 where "g1 = g\<lparr>rg_buffered := rg_buffered g @ [r]\<rparr>"
  have "gate_Accept hash g r = (g1, [])"
    using Cons.prems by (auto simp: gate_Accept_def is_marker_def g1_def)
  moreover have "snd (gate_stream hash g1 (old @ m # new)) = new"
    by (rule Cons.IH) (use Cons.prems in \<open>simp_all add: g1_def\<close>)
  ultimately show ?case by (simp split: prod.splits)
qed

lemma gate_output_ref:
  assumes "cpt_ContainerID cp \<noteq> []" and "cpt_LastTimestamp cp \<noteq> zero_time" and "cpt_LastEventHash cp \<noteq> []"
    and "\<forall>r \<in> set raws. rl_ContainerID r = cpt_ContainerID cp"
  shows "gate_output hash cp raws = replay_ref hash cp raws"
proof -
  obtain g' out where s: "gate_stream hash (NewReplayGate cp) raws = (g', out)" by fastforce
  have "out @ snd (gate_Finish g') = replay_ref hash cp raws"
    using gate_looking [OF _ _ s] assms
    by (simp add: replay_ref_def NewReplayGate_def Let_def split: option.splits)
  then show ?thesis by (simp add: gate_output_def s)
qed

text \<open>
  C12. Replay is exact. For a stream of the checkpointed container, what the gate lets
  through, with what \<open>Finish\<close> releases, is the reference: if a record with the marker's
  time and hash is among the records before the first one that is newer than the checkpoint,
  everything through the first such record is skipped and everything after it is delivered, in
  order; otherwise the whole stream is delivered, so nothing is lost.
\<close>

theorem gate_exact_replay:
  assumes "cpt_ContainerID cp \<noteq> []" and "cpt_LastTimestamp cp \<noteq> zero_time" and "cpt_LastEventHash cp \<noteq> []"
    and "\<forall>r \<in> set raws. rl_ContainerID r = cpt_ContainerID cp"
  shows "gate_output hash cp raws = replay_ref hash cp raws"
  using assms by (rule gate_output_ref)

text \<open>
  Resuming after a restart: when a stream was processed up to some record, whose time and
  hash became the checkpoint, and the stream is read again from anywhere before that record,
  the gate delivers exactly the records after it, if times do not decrease and no earlier
  record in the overlap has the same hash. Without a checkpoint everything is delivered.
\<close>

theorem gate_resume:
  assumes "cpt_ContainerID cp \<noteq> []" and "cpt_LastTimestamp cp \<noteq> zero_time" and "cpt_LastEventHash cp \<noteq> []"
    and "\<forall>r \<in> set (old @ [last_seen] @ new). rl_ContainerID r = cpt_ContainerID cp"
    and "cpt_LastTimestamp cp = rl_Timestamp last_seen" and "cpt_LastEventHash cp = hash last_seen"
    and "sorted (map rl_Timestamp (old @ [last_seen] @ new))"
    and "\<forall>r \<in> set old. hash r \<noteq> hash last_seen"
  shows "gate_output hash cp (old @ [last_seen] @ new) = new
    \<and> gate_output hash (cp\<lparr>cpt_LastEventHash := []\<rparr>) (old @ [last_seen] @ new) = old @ [last_seen] @ new"
proof -
  let ?old = "\<lambda>r. rl_Timestamp r \<le> cpt_LastTimestamp cp"
  have before: "\<forall>r \<in> set (old @ [last_seen]). ?old r"
    using assms(5,7) by (auto simp: sorted_append)
  have "takeWhile ?old (old @ [last_seen] @ new) = (old @ [last_seen]) @ takeWhile ?old new"
    "dropWhile ?old (old @ [last_seen] @ new) = dropWhile ?old new"
    using before by (simp_all add: takeWhile_append dropWhile_append)
  moreover have "after_marker (is_marker hash cp) (old @ last_seen # rest) = Some rest" for rest
    using assms(8) by (induction old) (auto simp: is_marker_def assms(5,6))
  ultimately have "replay_ref hash cp (old @ [last_seen] @ new) = new"
    by (simp add: replay_ref_def Let_def)
  moreover have "gate_output hash (cp\<lparr>cpt_LastEventHash := []\<rparr>) raws = raws" for raws
    by (simp add: gate_output_def NewReplayGate_def gate_open gate_Finish_def)
  moreover have "gate_output hash cp (old @ [last_seen] @ new) = replay_ref hash cp (old @ [last_seen] @ new)"
    by (rule gate_output_ref [OF assms(1-4)])
  ultimately show ?thesis by simp
qed


text \<open>
  A change of container while the gate is still looking drops what it has buffered: the
  records of the old container read so far are never delivered.
\<close>

theorem gate_container_change_drops:
  assumes "rg_looking g" and "rl_ContainerID raw \<noteq> cpt_ContainerID (rg_checkpoint g)"
  shows "gate_Accept hash g raw = (g\<lparr>rg_looking := False, rg_buffered := []\<rparr>, [raw])
    \<and> snd (gate_Finish (fst (gate_Accept hash g raw))) = []"
  using assms by (simp add: gate_Accept_def gate_Finish_def)


subsection \<open>Examples\<close>

definition example_rec :: "gotime \<Rightarrow> string \<Rightarrow> RawLog" where
  "example_rec t line = \<lparr>rl_ContainerID = ''c1'', rl_ContainerName = ''index-node-0'',
     rl_Timestamp = t, rl_Stream = ''stdout'', rl_Raw = line\<rparr>"

lemma example_rec_simps [simp]:
  "rl_ContainerID (example_rec t l) = ''c1''" "rl_Timestamp (example_rec t l) = t"
  "rl_Stream (example_rec t l) = ''stdout''" "rl_Raw (example_rec t l) = l"
  by (simp_all add: example_rec_def)

definition example_checkpoint :: ContainerCheckpoint where
  "example_checkpoint = \<lparr>cpt_ContainerName = ''index-node-0'', cpt_ContainerID = ''c1'',
     cpt_LastTimestamp = 5, cpt_LastEventHash = EventHash id (example_rec 5 ''b'')\<rparr>"

theorem EventHash_identifies_witness:
  "EventHash id (example_rec 5 ''b'') \<noteq> EventHash id (example_rec 5 ''c'')"
  using EventHash_identifies [of id "example_rec 5 ''b''" "example_rec 5 ''c''"] by simp

theorem gate_exact_replay_witness:
  "gate_output (EventHash id) example_checkpoint [example_rec 4 ''a'', example_rec 7 ''d'']
     = [example_rec 4 ''a'', example_rec 7 ''d'']"
proof -
  have "EventHash id (example_rec 5 ''b'') \<noteq> []" by (simp add: EventHash_def hash_input_def)
  then show ?thesis
    using gate_exact_replay [of example_checkpoint "[example_rec 4 ''a'', example_rec 7 ''d'']" "EventHash id"]
    by (simp add: example_checkpoint_def replay_ref_def is_marker_def)
qed

theorem gate_resume_witness:
  "gate_output (EventHash id) example_checkpoint
     ([example_rec 4 ''a''] @ [example_rec 5 ''b''] @ [example_rec 5 ''c'', example_rec 7 ''d''])
     = [example_rec 5 ''c'', example_rec 7 ''d'']"
proof -
  have ne: "EventHash id (example_rec 5 ''b'') \<noteq> []" by (simp add: EventHash_def hash_input_def)
  have "EventHash id (example_rec 4 ''a'') \<noteq> EventHash id (example_rec 5 ''b'')"
    by (simp add: EventHash_def hash_input_inj)
  then show ?thesis
    using gate_resume [of example_checkpoint "[example_rec 4 ''a'']" "example_rec 5 ''b''"
        "[example_rec 5 ''c'', example_rec 7 ''d'']" "EventHash id"] ne
    by (simp add: example_checkpoint_def)
qed

theorem gate_container_change_drops_witness:
  "snd (gate_Finish (fst (gate_Accept (EventHash id)
     ((NewReplayGate example_checkpoint)\<lparr>rg_buffered := [example_rec 4 ''a'']\<rparr>)
     ((example_rec 4 ''a'')\<lparr>rl_ContainerID := ''c2''\<rparr>)))) = []"
proof -
  have "EventHash id (example_rec 5 ''b'') \<noteq> []" by (simp add: EventHash_def hash_input_def)
  then have "rg_looking ((NewReplayGate example_checkpoint)\<lparr>rg_buffered := [example_rec 4 ''a'']\<rparr>)"
    and "rl_ContainerID ((example_rec 4 ''a'')\<lparr>rl_ContainerID := ''c2''\<rparr>)
      \<noteq> cpt_ContainerID (rg_checkpoint ((NewReplayGate example_checkpoint)\<lparr>rg_buffered := [example_rec 4 ''a'']\<rparr>))"
    by (simp_all add: NewReplayGate_def example_checkpoint_def)
  from conjunct2 [OF gate_container_change_drops [OF this]] show ?thesis .
qed

end
