(* ===== verification/Checkpoint_Store.thy ===== *)
theory Checkpoint_Store
  imports Replay_Gate
begin

text \<open>
  The model of \<open>internal/checkpoint/store.go\<close>: the batching store of replay boundaries. The
  bbolt database is its durable content, a map from names to bytes that a transaction
  changes as a whole or not at all; the outcome of an input or output operation is an
  argument, \<open>None\<close> for success or the error. The codec is a parameter, with the round
  trip as its only law; the JSON codec is in theory \<open>Checkpoint_Json\<close>.

  The interface \<open>state_store\<close> states what the runtime relies on: a reader sees the last
  accepted save of a name, whatever flushes succeed or fail.
\<close>

section \<open>The interface\<close>

locale state_store =
  fixes inv :: "'s \<Rightarrow> bool" and view :: "'s \<Rightarrow> string \<Rightarrow> ContainerCheckpoint option"
    and accepts :: "ContainerCheckpoint \<Rightarrow> bool"
    and save :: "'io \<Rightarrow> ContainerCheckpoint \<Rightarrow> 's \<Rightarrow> 's" and flush :: "'io \<Rightarrow> 's \<Rightarrow> 's"
  assumes save_inv: "inv s \<Longrightarrow> inv (save io cp s)"
    and flush_inv: "inv s \<Longrightarrow> inv (flush io s)"
    and save_view: "inv s \<Longrightarrow> accepts cp \<Longrightarrow> view (save io cp s) = (view s)(cpt_ContainerName cp \<mapsto> cp)"
    and save_refused: "inv s \<Longrightarrow> \<not> accepts cp \<Longrightarrow> view (save io cp s) = view s"
    and flush_view: "inv s \<Longrightarrow> view (flush io s) = view s"
begin

fun apply_op :: "'io \<times> ContainerCheckpoint option \<Rightarrow> 's \<Rightarrow> 's" where
  "apply_op (io, Some cp) s = save io cp s"
| "apply_op (io, None) s = flush io s"

lemma apply_inv: "inv s \<Longrightarrow> inv (fold apply_op ops s)"
proof (induction ops arbitrary: s)
  case (Cons op ops)
  have "inv (apply_op op s)" using Cons.prems by (cases op; cases "snd op") (auto simp: save_inv flush_inv)
  then show ?case using Cons.IH by simp
qed simp

lemma view_last_save:
  assumes "inv s"
  shows "view (fold apply_op ops s) n =
    (case filter (\<lambda>cp. accepts cp \<and> cpt_ContainerName cp = n) (List.map_filter snd ops) of
       [] \<Rightarrow> view s n | cps \<Rightarrow> Some (last cps))"
proof (induction ops rule: rev_induct)
  case Nil
  then show ?case by (simp add: map_filter_simps)
next
  case (snoc op ops)
  have inv: "inv (fold apply_op ops s)" by (rule apply_inv [OF assms])
  obtain io c where op: "op = (io, c)" by (cases op)
  show ?case
  proof (cases c)
    case None
    with snoc inv op show ?thesis by (simp add: flush_view map_filter_def)
  next
    case (Some cp)
    with snoc inv op show ?thesis
      by (cases "accepts cp") (auto simp: save_view save_refused map_filter_def split: list.splits)
  qed
qed

end


section \<open>The store\<close>

record ckpt_codec =
  cd_marshal :: "ContainerCheckpoint \<Rightarrow> string + string"
  cd_unmarshal :: "string \<Rightarrow> string + ContainerCheckpoint"

type_synonym io = "string option"

record ckpt_Store =
  st_db :: "(string, string) gomap"
  st_interval :: duration
  st_limit :: int
  st_pending :: "(string, ContainerCheckpoint) gomap"
  st_dirty :: int
  st_lastErr :: "string option"
  st_closing :: bool
  st_closed :: bool

datatype ckpt_error =
    CkptEmptyPath | CkptFlushInterval | CkptFlushEvents | CkptOpen string
  | CkptClosed | CkptLoad string | CkptFlush string | CkptClose string
  | CkptNoName | CkptNoID | CkptNoTimestamp | CkptNoHash

definition ckpt_Open ::
    "io \<Rightarrow> (string, string) gomap \<Rightarrow> string \<Rightarrow> duration \<Rightarrow> int \<Rightarrow> ckpt_error + ckpt_Store" where
  "ckpt_Open io db path flushInterval flushEvents =
     (if path = [] then Inl CkptEmptyPath
      else if flushInterval \<le> 0 then Inl CkptFlushInterval
      else if flushEvents \<le> 0 then Inl CkptFlushEvents
      else case io of
        Some err \<Rightarrow> Inl (CkptOpen err)
      | None \<Rightarrow> Inr \<lparr>st_db = db, st_interval = flushInterval, st_limit = flushEvents,
          st_pending = [], st_dirty = 0, st_lastErr = None, st_closing = False, st_closed = False\<rparr>)"

definition zero_checkpoint :: ContainerCheckpoint where
  "zero_checkpoint = \<lparr>cpt_ContainerName = [], cpt_ContainerID = [], cpt_LastTimestamp = zero_time,
     cpt_LastEventHash = []\<rparr>"

definition ckpt_Load ::
    "ckpt_codec \<Rightarrow> io \<Rightarrow> ckpt_Store \<Rightarrow> string \<Rightarrow> ckpt_error + (ContainerCheckpoint \<times> bool)" where
  "ckpt_Load codec io s container =
     (if st_closed s then Inl CkptClosed
      else case gm_get (st_pending s) container of
        Some item \<Rightarrow> Inr (item, True)
      | None \<Rightarrow>
          (case io of
             Some err \<Rightarrow> Inl (CkptLoad err)
           | None \<Rightarrow>
               (case gm_get (st_db s) container of
                  None \<Rightarrow> Inr (zero_checkpoint, False)
                | Some v \<Rightarrow>
                    (case cd_unmarshal codec v of
                       Inl err \<Rightarrow> Inl (CkptLoad err)
                     | Inr cp \<Rightarrow> Inr (cp, cpt_ContainerName cp \<noteq> [])))))"

definition ckpt_validate :: "ContainerCheckpoint \<Rightarrow> ckpt_error option" where
  "ckpt_validate cp =
     (if cpt_ContainerName cp = [] then Some CkptNoName
      else if cpt_ContainerID cp = [] then Some CkptNoID
      else if cpt_LastTimestamp cp = zero_time then Some CkptNoTimestamp
      else if cpt_LastEventHash cp = [] then Some CkptNoHash
      else None)"

text \<open>The body of the write transaction; an error rolls the transaction back.\<close>

fun put_all ::
    "ckpt_codec \<Rightarrow> (string, ContainerCheckpoint) gomap \<Rightarrow> (string, string) gomap \<Rightarrow>
       string + (string, string) gomap" where
  "put_all codec [] db = Inr db"
| "put_all codec ((name, cp) # rest) db =
     (case cd_marshal codec cp of
        Inl err \<Rightarrow> Inl err
      | Inr value \<Rightarrow> put_all codec rest (gm_set name value db))"

definition flushLocked :: "ckpt_codec \<Rightarrow> io \<Rightarrow> ckpt_Store \<Rightarrow> ckpt_Store \<times> (ckpt_error + unit)" where
  "flushLocked codec io s =
     (if st_pending s = [] then (s, Inr ())
      else case (case io of Some err \<Rightarrow> Inl err | None \<Rightarrow> put_all codec (st_pending s) (st_db s)) of
        Inl err \<Rightarrow> (s\<lparr>st_lastErr := Some err\<rparr>, Inl (CkptFlush err))
      | Inr db \<Rightarrow> (s\<lparr>st_db := db, st_pending := [], st_dirty := 0, st_lastErr := None\<rparr>, Inr ()))"

definition ckpt_Save ::
    "ckpt_codec \<Rightarrow> io \<Rightarrow> ContainerCheckpoint \<Rightarrow> ckpt_Store \<Rightarrow> ckpt_Store \<times> (ckpt_error + unit)" where
  "ckpt_Save codec io cp s =
     (case ckpt_validate cp of
        Some err \<Rightarrow> (s, Inl err)
      | None \<Rightarrow>
          if st_closing s \<or> st_closed s then (s, Inl CkptClosed)
          else
            let s = s\<lparr>st_pending := gm_set (cpt_ContainerName cp) cp (st_pending s),
                      st_dirty := st_dirty s + 1\<rparr>
            in if st_limit s \<le> st_dirty s then flushLocked codec io s else (s, Inr ()))"

definition ckpt_Flush :: "ckpt_codec \<Rightarrow> io \<Rightarrow> ckpt_Store \<Rightarrow> ckpt_Store \<times> (ckpt_error + unit)" where
  "ckpt_Flush codec io s =
     (if st_closed s then (s, Inl CkptClosed) else flushLocked codec io s)"

definition ckpt_Err :: "ckpt_Store \<Rightarrow> string option" where
  "ckpt_Err s = st_lastErr s"

text \<open>
  One tick of \<open>flushLoop\<close>: the state and the status handed to the callback, an error of the
  flush or the last recorded one.
\<close>

definition flush_tick :: "ckpt_codec \<Rightarrow> io \<Rightarrow> ckpt_Store \<Rightarrow> ckpt_Store \<times> ckpt_error option" where
  "flush_tick codec io s =
     (case ckpt_Flush codec io s of
        (s, Inl err) \<Rightarrow> (s, Some err)
      | (s, Inr _) \<Rightarrow> (s, map_option CkptFlush (ckpt_Err s)))"

text \<open>
  \<open>Close\<close> in its two critical sections: it announces the end, waits for the flush loop, then
  flushes and closes the database. Other operations may run in between.
\<close>

definition close_begin :: "ckpt_Store \<Rightarrow> ckpt_Store option" where
  "close_begin s = (if st_closed s \<or> st_closing s then None else Some (s\<lparr>st_closing := True\<rparr>))"

definition close_end ::
    "ckpt_codec \<Rightarrow> io \<Rightarrow> io \<Rightarrow> ckpt_Store \<Rightarrow> ckpt_Store \<times> (ckpt_error + unit)" where
  "close_end codec io closeErr s =
     (let (s, flushErr) = flushLocked codec io s;
          s = s\<lparr>st_closed := True\<rparr>
      in case flushErr of
           Inl err \<Rightarrow> (s, Inl err)
         | Inr _ \<Rightarrow> (case closeErr of Some err \<Rightarrow> (s, Inl (CkptClose err)) | None \<Rightarrow> (s, Inr ())))"

definition ckpt_Close ::
    "ckpt_codec \<Rightarrow> io \<Rightarrow> io \<Rightarrow> ckpt_Store \<Rightarrow> ckpt_Store \<times> (ckpt_error + unit)" where
  "ckpt_Close codec io closeErr s =
     (case close_begin s of None \<Rightarrow> (s, Inr ()) | Some s \<Rightarrow> close_end codec io closeErr s)"


section \<open>Lemmas\<close>

text \<open>The law of the codec: what was written is read back.\<close>

definition codec_ok :: "ckpt_codec \<Rightarrow> bool" where
  "codec_ok codec \<longleftrightarrow> (\<forall>cp v. cd_marshal codec cp = Inr v \<longrightarrow> cd_unmarshal codec v = Inr cp)"

definition durable :: "ckpt_codec \<Rightarrow> (string, string) gomap \<Rightarrow> string \<Rightarrow> ContainerCheckpoint option" where
  "durable codec db n =
     (case gm_get db n of None \<Rightarrow> None
      | Some v \<Rightarrow> (case cd_unmarshal codec v of Inl _ \<Rightarrow> None | Inr cp \<Rightarrow> Some cp))"

definition db_ok :: "ckpt_codec \<Rightarrow> (string, string) gomap \<Rightarrow> bool" where
  "db_ok codec db \<longleftrightarrow>
     (\<forall>n v. gm_get db n = Some v \<longrightarrow> (\<exists>cp. cd_unmarshal codec v = Inr cp \<and> cpt_ContainerName cp \<noteq> []))"

definition visible :: "ckpt_codec \<Rightarrow> ckpt_Store \<Rightarrow> string \<Rightarrow> ContainerCheckpoint option" where
  "visible codec s n =
     (case gm_get (st_pending s) n of Some cp \<Rightarrow> Some cp | None \<Rightarrow> durable codec (st_db s) n)"

definition ckpt_ok :: "ckpt_codec \<Rightarrow> ckpt_Store \<Rightarrow> bool" where
  "ckpt_ok codec s \<longleftrightarrow> \<not> st_closed s \<and> \<not> st_closing s \<and> 0 < st_limit s \<and> db_ok codec (st_db s)
     \<and> gm_wf (st_pending s) \<and> (\<forall>n cp. gm_get (st_pending s) n = Some cp \<longrightarrow> cpt_ContainerName cp \<noteq> [])
     \<and> int (length (st_pending s)) \<le> st_dirty s"

lemma put_all_durable:
  assumes "codec_ok codec" and "put_all codec ps db = Inr db'" and "gm_wf ps"
  shows "durable codec db' n = (case gm_get ps n of Some cp \<Rightarrow> Some cp | None \<Rightarrow> durable codec db n)"
  using assms(2,3)
proof (induction ps arbitrary: db)
  case (Cons p ps)
  obtain name cp where pair: "p = (name, cp)" by (cases p)
  from Cons.prems(1) pair obtain v where v: "cd_marshal codec cp = Inr v"
    and p: "put_all codec ps (gm_set name v db) = Inr db'" by (auto split: sum.splits)
  have u: "cd_unmarshal codec v = Inr cp" using v assms(1) by (auto simp: codec_ok_def)
  have "gm_get ps name = None" using Cons.prems(2) pair by (simp add: gm_get_None)
  with Cons.IH [OF p] Cons.prems(2) pair u show ?case
    by (auto simp: durable_def gm_get_set split: option.splits)
qed simp

lemma put_all_ok:
  assumes "codec_ok codec" and "put_all codec ps db = Inr db'" and "db_ok codec db"
    and "\<forall>(n, cp) \<in> set ps. cpt_ContainerName cp \<noteq> []"
  shows "db_ok codec db'"
  using assms(2-4)
proof (induction ps arbitrary: db)
  case (Cons p ps)
  obtain name cp where pair: "p = (name, cp)" by (cases p)
  from Cons.prems(1) pair obtain v where v: "cd_marshal codec cp = Inr v"
    and p: "put_all codec ps (gm_set name v db) = Inr db'" by (auto split: sum.splits)
  have "cd_unmarshal codec v = Inr cp" using v assms(1) by (auto simp: codec_ok_def)
  then have "db_ok codec (gm_set name v db)"
    using Cons.prems(2,3) pair by (auto simp: db_ok_def gm_get_set)
  with Cons.IH [OF p] Cons.prems(3) show ?case by simp
qed simp

lemma flushLocked_spec:
  assumes "codec_ok codec" and "ckpt_ok codec s" and "flushLocked codec io s = (s', res)"
  shows "ckpt_ok codec s' \<and> visible codec s' = visible codec s \<and> st_limit s' = st_limit s
    \<and> (case res of
         Inr _ \<Rightarrow> st_pending s' = [] \<and> durable codec (st_db s') = visible codec s
       | Inl err \<Rightarrow> st_pending s' = st_pending s \<and> st_db s' = st_db s \<and> st_dirty s' = st_dirty s
           \<and> (\<exists>e. err = CkptFlush e \<and> st_lastErr s' = Some e))"
proof (cases "st_pending s = []")
  case True
  then have "visible codec s = durable codec (st_db s)" by (simp add: visible_def fun_eq_iff)
  then show ?thesis using assms(2,3) True by (auto simp: flushLocked_def)
next
  case False
  show ?thesis
  proof (cases "case io of Some err \<Rightarrow> Inl err | None \<Rightarrow> put_all codec (st_pending s) (st_db s)")
    case (Inl err)
    then show ?thesis using assms(2,3) False
      by (auto simp: flushLocked_def visible_def ckpt_ok_def fun_eq_iff cong: option.case_cong)
  next
    case (Inr db)
    then have put: "put_all codec (st_pending s) (st_db s) = Inr db" by (auto split: option.splits)
    have s': "s' = s\<lparr>st_db := db, st_pending := [], st_dirty := 0, st_lastErr := None\<rparr>" "res = Inr ()"
      using assms(3) False Inr by (auto simp: flushLocked_def)
    have "durable codec db = visible codec s"
      using put_all_durable [OF assms(1) put] assms(2) by (simp add: visible_def ckpt_ok_def fun_eq_iff)
    moreover have "db_ok codec db"
      by (rule put_all_ok [OF assms(1) put]) (use assms(2) in \<open>auto simp: ckpt_ok_def\<close>)
    ultimately show ?thesis using assms(2) by (auto simp: s' visible_def ckpt_ok_def)
  qed
qed

lemma ckpt_Save_spec:
  assumes "codec_ok codec" and "ckpt_ok codec s" and "ckpt_Save codec io cp s = (s', res)"
  shows "ckpt_ok codec s' \<and> st_limit s' = st_limit s
    \<and> visible codec s' = (if ckpt_validate cp = None then (visible codec s)(cpt_ContainerName cp \<mapsto> cp) else visible codec s)"
proof (cases "ckpt_validate cp")
  case (Some err)
  then show ?thesis using assms by (simp add: ckpt_Save_def)
next
  case None
  define t where "t = s\<lparr>st_pending := gm_set (cpt_ContainerName cp) cp (st_pending s), st_dirty := st_dirty s + 1\<rparr>"
  have name: "cpt_ContainerName cp \<noteq> []" using None by (auto simp: ckpt_validate_def split: if_splits)
  have t: "ckpt_ok codec t"
    using assms(2) name by (auto simp: ckpt_ok_def t_def length_gm_set gm_get_set)
  have v: "visible codec t = (visible codec s)(cpt_ContainerName cp \<mapsto> cp)"
    by (simp add: visible_def t_def gm_get_set fun_eq_iff cong: option.case_cong)
  have "ckpt_Save codec io cp s = (if st_limit t \<le> st_dirty t then flushLocked codec io t else (t, Inr ()))"
    using None assms(2) by (simp add: ckpt_Save_def t_def ckpt_ok_def Let_def)
  with assms(3) flushLocked_spec [OF assms(1) t, of io s' res] v None t show ?thesis
    by (auto simp: t_def split: if_splits)
qed


lemma ckpt_Flush_spec:
  "codec_ok codec \<Longrightarrow> ckpt_ok codec s \<Longrightarrow> ckpt_Flush codec io s = (s', res) \<Longrightarrow>
   ckpt_ok codec s' \<and> visible codec s' = visible codec s \<and> st_limit s' = st_limit s"
  using flushLocked_spec [of codec s io s' res] by (auto simp: ckpt_Flush_def ckpt_ok_def)

lemma ckpt_Load_visible:
  assumes "ckpt_ok codec s"
  shows "ckpt_Load codec None s n =
    (case visible codec s n of None \<Rightarrow> Inr (zero_checkpoint, False) | Some cp \<Rightarrow> Inr (cp, True))"
proof (cases "gm_get (st_pending s) n")
  case None
  have "\<exists>cp. cd_unmarshal codec v = Inr cp \<and> cpt_ContainerName cp \<noteq> []" if "gm_get (st_db s) n = Some v" for v
    using assms that by (simp add: ckpt_ok_def db_ok_def)
  with None assms show ?thesis
    by (cases "gm_get (st_db s) n") (auto simp: ckpt_Load_def visible_def durable_def ckpt_ok_def)
qed (use assms in \<open>simp add: ckpt_Load_def visible_def ckpt_ok_def\<close>)

lemma ckpt_Open_ok:
  "ckpt_Open io db path iv ev = Inr s \<Longrightarrow> db_ok codec db \<Longrightarrow>
   ckpt_ok codec s \<and> visible codec s = durable codec db \<and> st_limit s = ev"
  by (auto simp: ckpt_Open_def ckpt_ok_def visible_def fun_eq_iff split: if_splits option.splits)

lemma ckpt_Save_durable:
  assumes "codec_ok codec" and "ckpt_ok codec s" and "ckpt_Save codec io cp s = (s', res)"
  shows "durable codec (st_db s') = durable codec (st_db s) \<or> durable codec (st_db s') = visible codec s'"
proof (cases "ckpt_validate cp")
  case (Some err)
  then show ?thesis using assms by (simp add: ckpt_Save_def)
next
  case None
  define t where "t = s\<lparr>st_pending := gm_set (cpt_ContainerName cp) cp (st_pending s), st_dirty := st_dirty s + 1\<rparr>"
  have name: "cpt_ContainerName cp \<noteq> []" using None by (auto simp: ckpt_validate_def split: if_splits)
  have t: "ckpt_ok codec t"
    using assms(2) name by (auto simp: ckpt_ok_def t_def length_gm_set gm_get_set)
  have "ckpt_Save codec io cp s = (if st_limit t \<le> st_dirty t then flushLocked codec io t else (t, Inr ()))"
    using None assms(2) by (simp add: ckpt_Save_def t_def ckpt_ok_def Let_def)
  then show ?thesis
    using assms(3) flushLocked_spec [OF assms(1) t, of io s' res]
    by (auto simp: t_def split: if_splits sum.splits)
qed

lemma ckpt_Open_db: "ckpt_Open io db path iv ev = Inr s \<Longrightarrow> st_db s = db"
  by (auto simp: ckpt_Open_def split: if_splits option.splits)

lemma ckpt_Close_db:
  assumes "codec_ok codec" and "ckpt_ok codec s" and "ckpt_Close codec io closeIO s = (s', Inr ())"
  shows "st_closed s' \<and> db_ok codec (st_db s') \<and> durable codec (st_db s') = visible codec s"
proof -
  obtain t res where f: "flushLocked codec io (s\<lparr>st_closing := True\<rparr>) = (t, res)" by fastforce
  obtain u where g: "flushLocked codec io s = (u, res)" and t: "t = u\<lparr>st_closing := True\<rparr>"
    using f by (cases "flushLocked codec io s") (auto simp: flushLocked_def split: if_splits option.splits sum.splits)
  have r: "res = Inr ()" "s' = t\<lparr>st_closed := True\<rparr>"
    using assms(2,3) f by (auto simp: ckpt_Close_def close_begin_def close_end_def ckpt_ok_def Let_def
        split: sum.splits option.splits)
  then show ?thesis
    using flushLocked_spec [OF assms(1,2) g] by (auto simp: t ckpt_ok_def)
qed

interpretation ckpt: state_store "\<lambda>s. codec_ok codec \<and> ckpt_ok codec s" "visible codec"
  "\<lambda>cp. ckpt_validate cp = None" "\<lambda>io cp s. fst (ckpt_Save codec io cp s)"
  "\<lambda>io s. fst (flush_tick codec io s)" for codec
proof
  fix s cp io assume inv: "codec_ok codec \<and> ckpt_ok codec s"
  obtain s1 r1 where sv: "ckpt_Save codec io cp s = (s1, r1)" by fastforce
  obtain s2 r2 where fl: "ckpt_Flush codec io s = (s2, r2)" by fastforce
  have tick: "fst (flush_tick codec io s) = s2" by (simp add: flush_tick_def fl split: sum.splits)
  note save = ckpt_Save_spec [OF _ _ sv] and flush = ckpt_Flush_spec [OF _ _ fl]
  show "codec_ok codec \<and> ckpt_ok codec (fst (ckpt_Save codec io cp s))"
    "codec_ok codec \<and> ckpt_ok codec (fst (flush_tick codec io s))"
    using inv save flush by (simp_all add: sv tick)
  show "visible codec (fst (ckpt_Save codec io cp s)) = (visible codec s)(cpt_ContainerName cp \<mapsto> cp)"
    if "ckpt_validate cp = None" using inv save that by (simp add: sv)
  show "visible codec (fst (ckpt_Save codec io cp s)) = visible codec s"
    if "ckpt_validate cp \<noteq> None" using inv save that by (simp add: sv)
  show "visible codec (fst (flush_tick codec io s)) = visible codec s"
    using inv flush by (simp add: tick)
qed



section \<open>Properties\<close>

text \<open>A sequence of saves and ticks of the flush loop, each with the outcome of its writes.\<close>

fun ckpt_apply :: "ckpt_codec \<Rightarrow> io \<times> ContainerCheckpoint option \<Rightarrow> ckpt_Store \<Rightarrow> ckpt_Store" where
  "ckpt_apply codec (io, Some cp) s = fst (ckpt_Save codec io cp s)"
| "ckpt_apply codec (io, None) s = fst (flush_tick codec io s)"

lemma ckpt_apply_locale: "ckpt_apply codec = ckpt.apply_op codec"
proof (intro ext)
  fix op s show "ckpt_apply codec op s = ckpt.apply_op codec op s"
    by (cases op; cases "snd op") (auto simp: ckpt.apply_op.simps)
qed

text \<open>
  C18. A reader sees the last accepted save. After opening a database and any sequence of
  saves and timed flushes, whatever their writes do, \<open>Load\<close> returns the last valid checkpoint
  saved under the name; if there was none, the durable one; and not found otherwise.
\<close>

theorem ckpt_Load_last_save:
  assumes "codec_ok codec" and "db_ok codec db" and "ckpt_Open None db path iv ev = Inr s"
  shows "ckpt_Load codec None (fold (ckpt_apply codec) ops s) n =
    (case filter (\<lambda>cp. ckpt_validate cp = None \<and> cpt_ContainerName cp = n) (List.map_filter snd ops) of
       [] \<Rightarrow> (case durable codec db n of None \<Rightarrow> Inr (zero_checkpoint, False) | Some cp \<Rightarrow> Inr (cp, True))
     | cps \<Rightarrow> Inr (last cps, True))"
proof -
  have s: "codec_ok codec \<and> ckpt_ok codec s" "visible codec s = durable codec db"
    using ckpt_Open_ok [OF assms(3,2)] assms(1) by simp_all
  have "ckpt_ok codec (fold (ckpt_apply codec) ops s)"
    using ckpt.apply_inv [OF s(1)] by (simp add: ckpt_apply_locale)
  from ckpt_Load_visible [OF this] ckpt.view_last_save [OF s(1), of ops n] s(2) show ?thesis
    by (simp add: ckpt_apply_locale split: list.splits)
qed

text \<open>
  C34. A clean shutdown loses nothing: when \<open>Close\<close> returns no error, a store opened on the
  resulting database answers every \<open>Load\<close> as the old store did before, and the closed store
  refuses every further \<open>Load\<close>, \<open>Flush\<close> and \<open>Save\<close> of a complete checkpoint; closing it once
  more does nothing and succeeds.
\<close>

theorem ckpt_Close_durable:
  assumes "codec_ok codec" and "ckpt_ok codec s" and "ckpt_Close codec io closeIO s = (s', Inr ())"
    and "ckpt_Open None (st_db s') path iv ev = Inr r"
  shows "ckpt_Load codec None r n = ckpt_Load codec None s n
    \<and> ckpt_Load codec io' s' n = Inl CkptClosed
    \<and> snd (ckpt_Flush codec io' s') = Inl CkptClosed
    \<and> (ckpt_validate cp = None \<longrightarrow> ckpt_Save codec io' cp s' = (s', Inl CkptClosed))
    \<and> ckpt_Close codec io' closeIO' s' = (s', Inr ())"
proof -
  note closed = ckpt_Close_db [OF assms(1-3)]
  have "ckpt_ok codec r" "visible codec r = visible codec s"
    using ckpt_Open_ok [OF assms(4), of codec] closed by simp_all
  then have "ckpt_Load codec None r n = ckpt_Load codec None s n"
    by (simp add: ckpt_Load_visible [OF assms(2)] ckpt_Load_visible)
  with closed show ?thesis
    by (auto simp: ckpt_Load_def ckpt_Flush_def ckpt_Save_def ckpt_Close_def close_begin_def)
qed

text \<open>
  Failed writes lose nothing and the backlog is bounded. A save that succeeds leaves
  fewer saves than the configured batch outside the database; a save whose flush fails
  reports the error, keeps the saved checkpoint readable and leaves the database as it was;
  a later flush without error makes every pending checkpoint durable.
\<close>

theorem ckpt_Save_backlog:
  assumes "codec_ok codec" and "ckpt_ok codec s" and "ckpt_validate cp = None"
    and "ckpt_Save codec io cp s = (s', res)"
  shows "visible codec s' = (visible codec s)(cpt_ContainerName cp \<mapsto> cp)
    \<and> (case res of
         Inr _ \<Rightarrow> int (length (st_pending s')) \<le> st_dirty s' \<and> st_dirty s' < st_limit s
       | Inl err \<Rightarrow> st_db s' = st_db s \<and> (\<exists>e. err = CkptFlush e \<and> ckpt_Err s' = Some e))
    \<and> (\<forall>io' s''. ckpt_Flush codec io' s' = (s'', Inr ()) \<longrightarrow>
         durable codec (st_db s'') = visible codec s')"
proof -
  note spec = ckpt_Save_spec [OF assms(1,2,4)]
  define t where "t = s\<lparr>st_pending := gm_set (cpt_ContainerName cp) cp (st_pending s), st_dirty := st_dirty s + 1\<rparr>"
  have sv: "ckpt_Save codec io cp s = (if st_limit t \<le> st_dirty t then flushLocked codec io t else (t, Inr ()))"
    using assms(2,3) by (simp add: ckpt_Save_def t_def ckpt_ok_def Let_def)
  have "case res of Inr _ \<Rightarrow> int (length (st_pending s')) \<le> st_dirty s' \<and> st_dirty s' < st_limit s
      | Inl err \<Rightarrow> st_db s' = st_db s \<and> (\<exists>e. err = CkptFlush e \<and> ckpt_Err s' = Some e)"
  proof (cases "st_limit t \<le> st_dirty t")
    case True
    then have fl: "flushLocked codec io t = (s', res)" using sv assms(4) by simp
    have "st_pending t \<noteq> []" by (simp add: t_def update_nonempty)
    with fl show ?thesis using assms(2)
      by (auto simp: flushLocked_def t_def ckpt_ok_def ckpt_Err_def split: sum.splits)
  next
    case False
    then have "s' = t" "res = Inr ()" using sv assms(4) by simp_all
    with False spec show ?thesis by (simp add: t_def ckpt_ok_def)
  qed
  moreover have "durable codec (st_db s'') = visible codec s'"
    if "ckpt_Flush codec io' s' = (s'', Inr ())" for io' s''
    using that spec flushLocked_spec [OF assms(1), of s' io' s'' "Inr ()"]
    by (auto simp: ckpt_Flush_def split: if_splits)
  ultimately show ?thesis using spec assms(3) by simp
qed


subsection \<open>Examples\<close>

text \<open>A codec that can write two checkpoints.\<close>

definition example_cp :: "gotime \<Rightarrow> ContainerCheckpoint" where
  "example_cp t = \<lparr>cpt_ContainerName = ''node'', cpt_ContainerID = ''c1'', cpt_LastTimestamp = t,
     cpt_LastEventHash = ''h''\<rparr>"

definition example_codec :: ckpt_codec where
  "example_codec =
     \<lparr>cd_marshal = (\<lambda>cp. if cp = example_cp 1 then Inr ''one'' else if cp = example_cp 2 then Inr ''two''
                       else Inl ''unsupported''),
      cd_unmarshal = (\<lambda>v. if v = ''one'' then Inr (example_cp 1) else if v = ''two'' then Inr (example_cp 2)
                       else Inl ''syntax'')\<rparr>"

lemma example_codec_ok: "codec_ok example_codec" "db_ok example_codec []"
  by (auto simp: codec_ok_def db_ok_def example_codec_def split: if_splits)

lemma example_cp_valid: "ckpt_validate (example_cp 1) = None" "ckpt_validate (example_cp 2) = None"
  by (simp_all add: ckpt_validate_def example_cp_def)

definition example_store :: ckpt_Store where
  "example_store = \<lparr>st_db = [], st_interval = 1, st_limit = 2, st_pending = [], st_dirty = 0,
     st_lastErr = None, st_closing = False, st_closed = False\<rparr>"

lemma example_store_open: "ckpt_Open None [] ''p'' 1 2 = Inr example_store"
  by (simp add: ckpt_Open_def example_store_def)

lemma example_store_ok: "ckpt_ok example_codec example_store"
  by (simp add: ckpt_ok_def example_store_def db_ok_def)

theorem ckpt_Load_last_save_witness:
  "ckpt_Load example_codec None (fold (ckpt_apply example_codec)
     [(None, Some (example_cp 1)), (Some ''disk full'', None), (Some ''disk full'', Some (example_cp 2))]
     example_store) ''node'' = Inr (example_cp 2, True)"
  using ckpt_Load_last_save [OF example_codec_ok example_store_open, of
      "[(None, Some (example_cp 1)), (Some ''disk full'', None), (Some ''disk full'', Some (example_cp 2))]" "''node''"]
  by (simp add: map_filter_def example_cp_valid) (simp add: example_cp_def)

theorem ckpt_Close_durable_witness:
  "\<exists>s s' r. ckpt_Save example_codec None (example_cp 1) example_store = (s, Inr ())
     \<and> ckpt_Close example_codec None None s = (s', Inr ())
     \<and> ckpt_Open None (st_db s') ''p'' 1 2 = Inr r
     \<and> ckpt_Load example_codec None r ''node'' = ckpt_Load example_codec None s ''node''"
proof -
  define s where "s = example_store\<lparr>st_pending := [(''node'', example_cp 1)], st_dirty := 1\<rparr>"
  define s' where "s' = s\<lparr>st_pending := [], st_dirty := 0, st_db := [(''node'', ''one'')], st_closing := True,
      st_closed := True\<rparr>"
  have sv: "ckpt_Save example_codec None (example_cp 1) example_store = (s, Inr ())"
    by (simp add: ckpt_Save_def example_cp_valid Let_def s_def example_store_def) (simp add: example_cp_def)
  have cl: "ckpt_Close example_codec None None s = (s', Inr ())"
    by (simp add: ckpt_Close_def close_begin_def close_end_def flushLocked_def s_def s'_def
        example_store_def example_codec_def Let_def)
  obtain r where op: "ckpt_Open None (st_db s') ''p'' 1 2 = Inr r" by (simp add: ckpt_Open_def)
  have "ckpt_ok example_codec s"
    using ckpt_Save_spec [OF example_codec_ok(1) example_store_ok sv] by simp
  from ckpt_Close_durable [OF example_codec_ok(1) this cl op] sv cl op show ?thesis by blast
qed

theorem ckpt_Save_backlog_witness:
  "\<exists>s. ckpt_Save example_codec None (example_cp 1) example_store = (s, Inr ())
     \<and> visible example_codec s ''node'' = Some (example_cp 1) \<and> st_dirty s < 2"
proof -
  obtain s where sv: "ckpt_Save example_codec None (example_cp 1) example_store = (s, Inr ())"
    by (simp add: ckpt_Save_def example_cp_valid Let_def example_store_def)
  have "cpt_ContainerName (example_cp 1) = ''node''" by (simp add: example_cp_def)
  with ckpt_Save_backlog [OF example_codec_ok(1) example_store_ok example_cp_valid(1) sv] sv show ?thesis
    by (simp add: example_store_def)
qed

end
