(* ===== verification/Docker_Decode.thy ===== *)
theory Docker_Decode
  imports Log_Entry
begin

text \<open>
  Decoding of a Docker log stream (\<open>internal/source/docker/source.go\<close>): the plain format of
  a TTY container and the multiplexed format, in which frames of an eight-byte header and a
  payload carry pieces of standard output and standard error. The reader is the bytes it
  still delivers together with how it ends; the output channel is what was sent to it
  together with the number of sends that succeed before the context is cancelled (none for
  never), so that every outcome of the \<open>select\<close> in \<open>emit\<close> is covered. \<open>time.Parse\<close> with the
  layout \<open>RFC3339Nano\<close> is a parameter.
\<close>

section \<open>Readers\<close>

record byte_reader =
  br_bytes :: string
  br_end :: "string option"

datatype read_error = EOF | UnexpectedEOF | ReadError string

definition reader_end :: "byte_reader \<Rightarrow> read_error" where
  "reader_end r = (case br_end r of None \<Rightarrow> EOF | Some e \<Rightarrow> ReadError e)"

text \<open>
  \<open>io.ReadFull\<close>: the error is \<open>EOF\<close> only when no byte was read. \<open>ReadString\<close> of a buffered
  reader: the text through the delimiter, or all that is left with the error.
\<close>

definition ReadFull :: "nat \<Rightarrow> byte_reader \<Rightarrow> read_error + string \<times> byte_reader" where
  "ReadFull n r =
     (if n \<le> length (br_bytes r)
      then Inr (take n (br_bytes r), r\<lparr>br_bytes := drop n (br_bytes r)\<rparr>)
      else if br_bytes r = [] then Inl (reader_end r)
      else Inl (case br_end r of None \<Rightarrow> UnexpectedEOF | Some e \<Rightarrow> ReadError e))"

definition ReadString :: "char \<Rightarrow> byte_reader \<Rightarrow> string \<times> read_error option \<times> byte_reader" where
  "ReadString c r =
     (case index_byte c (br_bytes r) of
        Some i \<Rightarrow> (take (Suc i) (br_bytes r), None, r\<lparr>br_bytes := drop (Suc i) (br_bytes r)\<rparr>)
      | None \<Rightarrow> (br_bytes r, Some (reader_end r), r\<lparr>br_bytes := []\<rparr>))"

lemma ReadFull_length:
  "ReadFull n r = Inr (bs, r') \<Longrightarrow> length (br_bytes r) = n + length (br_bytes r')"
  by (auto simp: ReadFull_def split: if_splits)

abbreviation (input) newline :: char where "newline \<equiv> CHR 0x0A"
abbreviation (input) carriage :: string where "carriage \<equiv> [CHR 0x0D]"


section \<open>Emitting records\<close>

datatype decode_error = DecodeRead read_error | DecodeCanceled

record log_output =
  lo_sent :: "RawLog list"
  lo_budget :: "nat option"

definition parseTimestamp :: "(string \<Rightarrow> gotime option) \<Rightarrow> string \<Rightarrow> gotime \<times> string" where
  "parseTimestamp parse line =
     (case cut '' '' line of
        None \<Rightarrow> (zero_time, line)
      | Some (value, rest) \<Rightarrow>
          (case parse value of None \<Rightarrow> (zero_time, line) | Some t \<Rightarrow> (t, rest)))"

definition streamName :: "char \<Rightarrow> string" where
  "streamName stream = (if stream = CHR 0x02 then ''stderr'' else ''stdout'')"

definition raw_record ::
  "(string \<Rightarrow> gotime option) \<Rightarrow> string \<Rightarrow> string \<Rightarrow> string \<Rightarrow> string \<Rightarrow> RawLog" where
  "raw_record parse name cid stream line =
     (let (timestamp, raw) = parseTimestamp parse line
      in \<lparr>rl_ContainerID = cid, rl_ContainerName = name, rl_Timestamp = timestamp,
          rl_Stream = stream, rl_Raw = raw\<rparr>)"

definition docker_emit ::
  "(string \<Rightarrow> gotime option) \<Rightarrow> string \<Rightarrow> string \<Rightarrow> string \<Rightarrow> string \<Rightarrow> log_output
     \<Rightarrow> log_output \<times> decode_error option" where
  "docker_emit parse name cid stream line out =
     (if lo_budget out = Some 0 then (out, Some DecodeCanceled)
      else (out\<lparr>lo_sent := lo_sent out @ [raw_record parse name cid stream line],
                lo_budget := map_option (\<lambda>n. n - 1) (lo_budget out)\<rparr>, None))"


section \<open>The plain format\<close>

function readLines ::
  "(string \<Rightarrow> 's \<Rightarrow> 's \<times> decode_error option) \<Rightarrow> 's \<Rightarrow> byte_reader \<Rightarrow> 's \<times> decode_error option" where
  "readLines consume s r =
     (let (line, err, r') = ReadString newline r;
          (s', consumeErr) = (if line \<noteq> [] then consume (trim_suffix carriage (trim_suffix [newline] line)) s
                              else (s, None))
      in if consumeErr \<noteq> None then (s', consumeErr)
         else case err of
           None \<Rightarrow> readLines consume s' r'
         | Some EOF \<Rightarrow> (s', None)
         | Some e \<Rightarrow> (s', Some (DecodeRead e)))"
  by pat_completeness auto
termination
  by (relation "measure (\<lambda>(consume, s, r). length (br_bytes r))")
     (auto simp: ReadString_def dest!: index_byte_Some split: option.splits)

definition decodePlain ::
  "(string \<Rightarrow> gotime option) \<Rightarrow> string \<Rightarrow> string \<Rightarrow> log_output \<Rightarrow> byte_reader
     \<Rightarrow> log_output \<times> decode_error option" where
  "decodePlain parse name cid out r = readLines (docker_emit parse name cid ''stdout'') out r"


section \<open>The multiplexed format\<close>

text \<open>
  \<open>binary.BigEndian.Uint32\<close> of the last four header bytes, and the two line buffers. The
  argument \<open>stderrFirst\<close> is the iteration order that the runtime picks for the map.
\<close>

definition uint32_be :: "string \<Rightarrow> nat" where
  "uint32_be bs = foldl (\<lambda>n c. 256 * n + of_char c) 0 bs"

definition new_buffers :: "bool \<Rightarrow> (char, string) gomap" where
  "new_buffers stderrFirst =
     (if stderrFirst then [(CHR 0x02, []), (CHR 0x01, [])] else [(CHR 0x01, []), (CHR 0x02, [])])"

definition buffer_of :: "(char, string) gomap \<Rightarrow> char \<Rightarrow> string" where
  "buffer_of buffers stream = (case gm_get buffers stream of None \<Rightarrow> [] | Some b \<Rightarrow> b)"

function drain_lines ::
  "(string \<Rightarrow> gotime option) \<Rightarrow> string \<Rightarrow> string \<Rightarrow> string \<Rightarrow> string \<Rightarrow> log_output
     \<Rightarrow> string \<times> log_output \<times> decode_error option" where
  "drain_lines parse name cid stream buffered out =
     (case index_byte newline buffered of
        None \<Rightarrow> (buffered, out, None)
      | Some index \<Rightarrow>
          (let line = trim_suffix carriage (take index buffered);
               rest = drop (Suc index) buffered;
               (out', err) = docker_emit parse name cid stream line out
           in if err \<noteq> None then (rest, out', err)
              else drain_lines parse name cid stream rest out'))"
  by pat_completeness auto
termination
  by (relation "measure (\<lambda>(parse, name, cid, stream, buffered, out). length buffered)")
     (auto dest!: index_byte_Some)

fun emit_buffered ::
  "(string \<Rightarrow> gotime option) \<Rightarrow> string \<Rightarrow> string \<Rightarrow> (char, string) gomap \<Rightarrow> log_output
     \<Rightarrow> log_output \<times> decode_error option" where
  "emit_buffered parse name cid [] out = (out, None)"
| "emit_buffered parse name cid ((stream, buffered) # rest) out =
     (if buffered \<noteq> [] then
        (let (out', err) = docker_emit parse name cid (streamName stream) buffered out
         in if err \<noteq> None then (out', err) else emit_buffered parse name cid rest out')
      else emit_buffered parse name cid rest out)"

function mux_loop ::
  "(string \<Rightarrow> gotime option) \<Rightarrow> string \<Rightarrow> string \<Rightarrow> (char, string) gomap \<Rightarrow> log_output
     \<Rightarrow> byte_reader \<Rightarrow> log_output \<times> decode_error option" where
  "mux_loop parse name cid buffers out r =
     (case ReadFull 8 r of
        Inl EOF \<Rightarrow> emit_buffered parse name cid buffers out
      | Inl e \<Rightarrow> (out, Some (DecodeRead e))
      | Inr (header, r1) \<Rightarrow>
          (let stream = header ! 0
           in case ReadFull (uint32_be (drop 4 header)) r1 of
                Inl e \<Rightarrow> (out, Some (DecodeRead e))
              | Inr (payload, r2) \<Rightarrow>
                  if stream \<noteq> CHR 0x01 \<and> stream \<noteq> CHR 0x02
                  then mux_loop parse name cid buffers out r2
                  else
                    (let (rest, out', err) =
                           drain_lines parse name cid (streamName stream)
                             (buffer_of buffers stream @ payload) out
                     in if err \<noteq> None then (out', err)
                        else mux_loop parse name cid (gm_set stream rest buffers) out' r2)))"
  by pat_completeness auto
termination
  by (relation "measure (\<lambda>(parse, name, cid, buffers, out, r). length (br_bytes r))")
     (auto dest!: ReadFull_length)

definition decodeMultiplexed ::
  "(string \<Rightarrow> gotime option) \<Rightarrow> bool \<Rightarrow> string \<Rightarrow> string \<Rightarrow> log_output \<Rightarrow> byte_reader
     \<Rightarrow> log_output \<times> decode_error option" where
  "decodeMultiplexed parse stderrFirst name cid out r =
     mux_loop parse name cid (new_buffers stderrFirst) out r"

declare readLines.simps [simp del] drain_lines.simps [simp del] mux_loop.simps [simp del]


section \<open>What the decoders deliver\<close>

text \<open>
  The lines of a text: complete lines lose one trailing carriage return. The plain format
  treats an unterminated last line in the same way, the multiplexed format keeps it as it is.
\<close>

definition complete_lines :: "string \<Rightarrow> string list" where
  "complete_lines text = map (trim_suffix carriage) (butlast (split_on newline text))"

definition last_line :: "string \<Rightarrow> string" where
  "last_line text = last (split_on newline text)"

definition plain_lines :: "string \<Rightarrow> string list" where
  "plain_lines text = complete_lines text
     @ (if last_line text = [] then [] else [trim_suffix carriage (last_line text)])"

definition mux_lines :: "string \<Rightarrow> string list" where
  "mux_lines text = complete_lines text @ (if last_line text = [] then [] else [last_line text])"

text \<open>A frame on the wire, and the text that a list of frames carries on one stream.\<close>

definition be32 :: "nat \<Rightarrow> string" where
  "be32 n = map char_of [n div 256 ^ 3 mod 256, n div 256 ^ 2 mod 256, n div 256 mod 256, n mod 256]"

definition encode_frame :: "char \<times> string \<Rightarrow> string" where
  "encode_frame f = [fst f, CHR 0x00, CHR 0x00, CHR 0x00] @ be32 (length (snd f)) @ snd f"

definition stream_text :: "char \<Rightarrow> (char \<times> string) list \<Rightarrow> string" where
  "stream_text s fs = concat (map snd (filter (\<lambda>f. fst f = s) fs))"

definition on_stream :: "char \<Rightarrow> RawLog list \<Rightarrow> RawLog list" where
  "on_stream s rs = filter (\<lambda>r. rl_Stream r = streamName s) rs"

subsection \<open>Lines\<close>

lemma split_on_append_last:
  "split_on c (a @ b) = butlast (split_on c a) @ split_on c (last (split_on c a) @ b)"
proof (induction a)
  case (Cons x a)
  obtain y ys where "split_on c a = y # ys"
    using split_on_nonempty by (metis neq_Nil_conv)
  with Cons show ?case
    by (cases ys) (auto split: list.splits)
qed simp

lemma complete_lines_append:
  "complete_lines (a @ b) = complete_lines a @ complete_lines (last_line a @ b)"
  by (simp add: complete_lines_def last_line_def split_on_append_last [of _ a b] butlast_append)

lemma last_line_append: "last_line (a @ b) = last_line (last_line a @ b)"
  by (simp add: last_line_def split_on_append_last [of _ a b])

lemma last_line_no_newline: "newline \<notin> set (last_line t)"
proof (induction t)
  case Nil
  then show ?case by (simp add: last_line_def)
next
  case (Cons x t)
  then show ?case by (auto simp: last_line_def split: list.splits)
qed

lemma line_simps:
  "newline \<notin> set t \<Longrightarrow> complete_lines t = []" "newline \<notin> set t \<Longrightarrow> last_line t = t"
  "complete_lines [] = []" "last_line [] = []"
  by (simp_all add: complete_lines_def last_line_def split_on_no_sep)

lemma line_split:
  assumes "index_byte newline t = Some i"
  shows "complete_lines t = trim_suffix carriage (take i t) # complete_lines (drop (Suc i) t)"
    and "last_line t = last_line (drop (Suc i) t)"
proof -
  from index_byte_Some [OF assms] have "newline \<notin> set (take i t)" "t = take i t @ newline # drop (Suc i) t"
    using id_take_nth_drop [of i t] by auto
  then have "split_on newline t = take i t # split_on newline (drop (Suc i) t)"
    by (metis split_on_append split_on_no_sep append_Cons append_Nil)
  then show "complete_lines t = trim_suffix carriage (take i t) # complete_lines (drop (Suc i) t)"
    "last_line t = last_line (drop (Suc i) t)"
    by (simp_all add: complete_lines_def last_line_def)
qed

lemma raw_record_Stream [simp]: "rl_Stream (raw_record parse name cid s l) = s"
  by (simp add: raw_record_def split: prod.splits)

subsection \<open>A budget of sends\<close>

text \<open>
  Sending the records of a list one after the other until the budget is used up.
\<close>

definition send_all :: "RawLog list \<Rightarrow> log_output \<Rightarrow> log_output" where
  "send_all rs out = (case lo_budget out of
     None \<Rightarrow> out\<lparr>lo_sent := lo_sent out @ rs\<rparr>
   | Some n \<Rightarrow> out\<lparr>lo_sent := lo_sent out @ take n rs, lo_budget := Some (n - length rs)\<rparr>)"

definition fits :: "RawLog list \<Rightarrow> log_output \<Rightarrow> bool" where
  "fits rs out = (case lo_budget out of None \<Rightarrow> True | Some n \<Rightarrow> length rs \<le> n)"

lemma send_all_simps [simp]:
  "send_all [] out = out" "fits [] out"
  "fits (r # rs) out \<longleftrightarrow> lo_budget out \<noteq> Some 0 \<and> fits rs (send_all [r] out)"
  by (auto simp: send_all_def fits_def split: option.splits)

lemma send_all_append: "send_all (xs @ ys) out = send_all ys (send_all xs out)"
  by (auto simp: send_all_def split: option.splits)

lemma fits_append: "fits (xs @ ys) out \<longleftrightarrow> fits xs out \<and> fits ys (send_all xs out)"
  by (auto simp: send_all_def fits_def split: option.splits)

lemma send_all_stop: "lo_budget out = Some 0 \<Longrightarrow> send_all rs out = out"
  by (simp add: send_all_def)

lemma docker_emit_eq:
  "docker_emit parse name cid s l out =
     (send_all [raw_record parse name cid s l] out,
      if fits [raw_record parse name cid s l] out then None else Some DecodeCanceled)"
  by (auto simp: docker_emit_def send_all_def fits_def split: option.splits)

lemma drain_lines_None:
  "newline \<notin> set b \<Longrightarrow> drain_lines parse name cid s b out = (b, out, None)"
  by (subst drain_lines.simps) (simp add: index_byte_None [symmetric])

lemma drain_lines_Some:
  assumes "index_byte newline b = Some i"
  shows "drain_lines parse name cid s b out =
    (let x = raw_record parse name cid s (trim_suffix carriage (take i b))
     in if fits [x] out then drain_lines parse name cid s (drop (Suc i) b) (send_all [x] out)
        else (drop (Suc i) b, send_all [x] out, Some DecodeCanceled))"
  by (subst drain_lines.simps) (simp add: assms docker_emit_eq)

lemma send_all_cut: "\<not> fits xs out \<Longrightarrow> send_all ys (send_all xs out) = send_all xs out"
  by (auto simp: send_all_def fits_def split: option.splits)

lemma drain_lines_eq:
  assumes "rs = map (raw_record parse name cid s) (complete_lines b)"
  shows "snd (drain_lines parse name cid s b out)
      = (send_all rs out, if fits rs out then None else Some DecodeCanceled)
    \<and> (fits rs out \<longrightarrow> fst (drain_lines parse name cid s b out) = last_line b)"
  using assms
proof (induction "length b" arbitrary: b out rs rule: less_induct)
  case less
  show ?case
  proof (cases "index_byte newline b")
    case None
    then show ?thesis
      using less(2) by (simp add: index_byte_None drain_lines_None line_simps)
  next
    case (Some i)
    define x where "x = raw_record parse name cid s (trim_suffix carriage (take i b))"
    define xs where "xs = map (raw_record parse name cid s) (complete_lines (drop (Suc i) b))"
    have "length (drop (Suc i) b) < length b"
      using index_byte_Some [OF Some] by auto
    note IH = less(1) [OF this xs_def, of "send_all [x] out"]
    have rs: "rs = [x] @ xs"
      using less(2) by (simp add: line_split [OF Some] x_def xs_def)
    show ?thesis
      using IH send_all_cut [of "[x]" out xs] line_split(2) [OF Some]
      unfolding drain_lines_Some [OF Some] x_def [symmetric] rs fits_append send_all_append Let_def
      by auto
  qed
qed

subsection \<open>Plain\<close>

definition end_error :: "byte_reader \<Rightarrow> decode_error option" where
  "end_error r = map_option (\<lambda>e. DecodeRead (ReadError e)) (br_end r)"

lemma trim_suffix_newline: "trim_suffix [c] (s @ [c]) = s"
  by (simp add: trim_suffix_def has_prefix_def)

lemma trim_suffix_no_newline: "c \<notin> set s \<Longrightarrow> trim_suffix [c] s = s"
  by (cases s rule: rev_cases) (auto simp: trim_suffix_def has_prefix_def)

lemma decodePlain_eq:
  fixes parse name cid r out
  defines "rs \<equiv> map (raw_record parse name cid ''stdout'') (plain_lines (br_bytes r))"
  shows "decodePlain parse name cid out r =
    (send_all rs out, if fits rs out then end_error r else Some DecodeCanceled)"
  unfolding decodePlain_def rs_def
proof (induction "length (br_bytes r)" arbitrary: r out rule: less_induct)
  case less
  let ?rec = "raw_record parse name cid ''stdout''"
  show ?case
  proof (cases "index_byte newline (br_bytes r)")
    case None
    then have "newline \<notin> set (br_bytes r)" by (simp add: index_byte_None)
    then show ?thesis
      by (subst readLines.simps)
         (auto simp: ReadString_def None plain_lines_def line_simps docker_emit_eq reader_end_def
           trim_suffix_no_newline end_error_def split: option.splits)
  next
    case (Some i)
    define r' where "r' = r\<lparr>br_bytes := drop (Suc i) (br_bytes r)\<rparr>"
    define x where "x = ?rec (trim_suffix carriage (take i (br_bytes r)))"
    define xs where "xs = map ?rec (plain_lines (br_bytes r'))"
    from index_byte_Some [OF Some] have i: "i < length (br_bytes r)" "br_bytes r ! i = newline" by auto
    then have "take (Suc i) (br_bytes r) = take i (br_bytes r) @ [newline]"
      by (simp add: take_Suc_conv_app_nth)
    then have step: "readLines (docker_emit parse name cid ''stdout'') out r =
        (if fits [x] out then readLines (docker_emit parse name cid ''stdout'') (send_all [x] out) r'
         else (send_all [x] out, Some DecodeCanceled))"
      by (subst readLines.simps)
         (simp add: ReadString_def Some docker_emit_eq trim_suffix_newline x_def r'_def)
    have lines: "map ?rec (plain_lines (br_bytes r)) = x # xs"
      by (simp add: plain_lines_def line_split [OF Some] x_def xs_def r'_def)
    have IH: "readLines (docker_emit parse name cid ''stdout'') (send_all [x] out) r' =
        (send_all xs (send_all [x] out),
         if fits xs (send_all [x] out) then end_error r' else Some DecodeCanceled)"
      unfolding xs_def by (rule less) (use i in \<open>simp add: r'_def\<close>)
    have "end_error r' = end_error r" by (simp add: end_error_def r'_def)
    moreover have "map ?rec (plain_lines (br_bytes r)) = [x] @ xs" by (simp add: lines)
    ultimately show ?thesis
      using send_all_cut [of "[x]" out xs] unfolding step IH fits_append send_all_append
      by (simp add: fits_append send_all_append del: append_Cons append_Nil)
  qed
qed

subsection \<open>Multiplexed\<close>

lemma uint32_be32: "n < 2 ^ 32 \<Longrightarrow> uint32_be (be32 n) = n"
proof -
  assume n: "n < 2 ^ 32"
  define a where "a = n div 256"
  define b where "b = a div 256"
  define c where "c = b div 256"
  have split: "n = 256 * a + n mod 256" "a = 256 * b + a mod 256" "b = 256 * c + b mod 256"
    by (simp_all add: a_def b_def c_def)
  have "n div 256 ^ 2 = b" "n div 256 ^ 3 = c"
    by (simp_all add: a_def b_def c_def div_mult2_eq [symmetric])
  moreover have "c < 256"
    using n by (simp add: a_def b_def c_def div_mult2_eq [symmetric] less_mult_imp_div_less)
  ultimately have "uint32_be (be32 n) = 256 * (256 * (256 * c + b mod 256) + a mod 256) + n mod 256"
    by (simp add: uint32_be_def be32_def a_def)
  then show ?thesis
    using split by simp
qed

lemma ReadFull_append:
  "length a = n \<Longrightarrow> ReadFull n (r\<lparr>br_bytes := a @ b\<rparr>) = Inr (a, r\<lparr>br_bytes := b\<rparr>)"
  by (simp add: ReadFull_def)

lemma mux_loop_frame:
  assumes "length p < 2 ^ 32"
  shows "mux_loop parse name cid bs out (r\<lparr>br_bytes := encode_frame (s, p) @ tail\<rparr>) =
    (if s \<noteq> CHR 0x01 \<and> s \<noteq> CHR 0x02 then mux_loop parse name cid bs out (r\<lparr>br_bytes := tail\<rparr>)
     else let t = buffer_of bs s @ p;
              rs = map (raw_record parse name cid (streamName s)) (complete_lines t)
          in if fits rs out
             then mux_loop parse name cid (gm_set s (last_line t) bs) (send_all rs out) (r\<lparr>br_bytes := tail\<rparr>)
             else (send_all rs out, Some DecodeCanceled))"
proof -
  define header where "header = [s, CHR 0x00, CHR 0x00, CHR 0x00] @ be32 (length p)"
  have frame: "encode_frame (s, p) @ tail = header @ (p @ tail)"
    by (simp add: encode_frame_def header_def)
  have len: "length header = 8" and head: "header ! 0 = s" and size: "uint32_be (drop 4 header) = length p"
    using uint32_be32 [OF assms] by (simp_all add: header_def be32_def)
  define rs where "rs = map (raw_record parse name cid (streamName s)) (complete_lines (buffer_of bs s @ p))"
  obtain rest out' err where drain:
      "drain_lines parse name cid (streamName s) (buffer_of bs s @ p) out = (rest, out', err)"
    by (cases "drain_lines parse name cid (streamName s) (buffer_of bs s @ p) out") auto
  have eqs: "out' = send_all rs out" "err = (if fits rs out then None else Some DecodeCanceled)"
    "fits rs out \<Longrightarrow> rest = last_line (buffer_of bs s @ p)"
    using drain_lines_eq [OF rs_def, of out] drain by auto
  show ?thesis
    unfolding frame
    by (subst mux_loop.simps, cases "fits rs out")
       (simp_all add: ReadFull_append [OF len] ReadFull_append [OF refl] head size drain eqs
         rs_def [symmetric] Let_def split del: if_split cong: if_cong)
qed

text \<open>The records of a list of frames, and the line buffers after them.\<close>

fun frames_records ::
  "(char \<Rightarrow> string \<Rightarrow> RawLog) \<Rightarrow> (char, string) gomap \<Rightarrow> (char \<times> string) list
     \<Rightarrow> RawLog list \<times> (char, string) gomap" where
  "frames_records rec bs [] = ([], bs)"
| "frames_records rec bs ((s, p) # fs) =
     (if s \<noteq> CHR 0x01 \<and> s \<noteq> CHR 0x02 then frames_records rec bs fs
      else let t = buffer_of bs s @ p;
               (rs, bs') = frames_records rec (gm_set s (last_line t) bs) fs
           in (map (rec s) (complete_lines t) @ rs, bs'))"

lemma mux_loop_frames:
  assumes "\<forall>f \<in> set fs. length (snd f) < 2 ^ 32"
  shows "mux_loop parse name cid bs out (r\<lparr>br_bytes := concat (map encode_frame fs) @ tail\<rparr>) =
    (let (rs, bs') = frames_records (\<lambda>s. raw_record parse name cid (streamName s)) bs fs
     in if fits rs out then mux_loop parse name cid bs' (send_all rs out) (r\<lparr>br_bytes := tail\<rparr>)
        else (send_all rs out, Some DecodeCanceled))"
  using assms
proof (induction fs arbitrary: bs out)
  case (Cons f fs)
  obtain s p where f: "f = (s, p)" by (cases f)
  define t where "t = buffer_of bs s @ p"
  define xs where "xs = map (raw_record parse name cid (streamName s)) (complete_lines t)"
  obtain ys bs' where ys:
      "frames_records (\<lambda>s. raw_record parse name cid (streamName s)) (gm_set s (last_line t) bs) fs = (ys, bs')"
    by (cases "frames_records (\<lambda>s. raw_record parse name cid (streamName s)) (gm_set s (last_line t) bs) fs")
  have "length p < 2 ^ 32" using Cons.prems f by simp
  note step = mux_loop_frame [OF this, where s = s and bs = bs and out = out and r = r
      and tail = "concat (map encode_frame fs) @ tail" and parse = parse and name = name and cid = cid]
  have IH: "mux_loop parse name cid bs out (r\<lparr>br_bytes := concat (map encode_frame fs) @ tail\<rparr>) =
    (let (rs, bs') = frames_records (\<lambda>s. raw_record parse name cid (streamName s)) bs fs
     in if fits rs out then mux_loop parse name cid bs' (send_all rs out) (r\<lparr>br_bytes := tail\<rparr>)
        else (send_all rs out, Some DecodeCanceled))" for bs out
    by (rule Cons.IH) (use Cons.prems in simp)
  show ?case
  proof (cases "s \<noteq> CHR 0x01 \<and> s \<noteq> CHR 0x02")
    case True
    then show ?thesis using step IH by (simp add: f)
  next
    case False
    have "mux_loop parse name cid bs out (r\<lparr>br_bytes := concat (map encode_frame (f # fs)) @ tail\<rparr>) =
      (if fits xs out
       then mux_loop parse name cid (gm_set s (last_line t) bs) (send_all xs out)
              (r\<lparr>br_bytes := concat (map encode_frame fs) @ tail\<rparr>)
       else (send_all xs out, Some DecodeCanceled))"
      using step False by (simp add: f t_def xs_def Let_def)
    moreover have "frames_records (\<lambda>s. raw_record parse name cid (streamName s)) bs (f # fs) = (xs @ ys, bs')"
      unfolding f frames_records.simps if_not_P [OF False] t_def [symmetric] Let_def by (simp add: ys xs_def)
    ultimately show ?thesis
      using send_all_cut [of xs out ys] by (simp add: IH ys fits_append send_all_append)
  qed
qed simp

subsubsection \<open>Streams\<close>

lemma streamName_eq:
  "s \<in> {CHR 0x01, CHR 0x02} \<Longrightarrow> s' \<in> {CHR 0x01, CHR 0x02} \<Longrightarrow> streamName s = streamName s' \<longleftrightarrow> s = s'"
  by (auto simp: streamName_def)

lemma on_stream_simps [simp]:
  "on_stream s [] = []" "on_stream s (xs @ ys) = on_stream s xs @ on_stream s ys"
  by (simp_all add: on_stream_def)

lemma on_stream_map:
  assumes "s \<in> {CHR 0x01, CHR 0x02}" and "s' \<in> {CHR 0x01, CHR 0x02}"
  shows "on_stream s (map (raw_record parse name cid (streamName s')) ls) =
    (if s = s' then map (raw_record parse name cid (streamName s')) ls else [])"
  using streamName_eq [OF assms] by (auto simp: on_stream_def intro: filter_False)

lemma buffer_of_set: "buffer_of (gm_set s b bs) s' = (if s' = s then b else buffer_of bs s')"
  by (simp add: buffer_of_def gm_get_set)

lemma frames_records_known:
  assumes "frames_records rec bs ((s, p) # fs) = (rs, bs')" and "s \<in> {CHR 0x01, CHR 0x02}"
  obtains ys where "frames_records rec (gm_set s (last_line (buffer_of bs s @ p)) bs) fs = (ys, bs')"
    and "rs = map (rec s) (complete_lines (buffer_of bs s @ p)) @ ys"
proof -
  have "\<not> (s \<noteq> CHR 0x01 \<and> s \<noteq> CHR 0x02)" using assms(2) by simp
  with assms(1) that show ?thesis
    unfolding frames_records.simps by (simp only: if_not_P Let_def) (auto split: prod.splits)
qed

lemma frames_records_stream:
  assumes "s \<in> {CHR 0x01, CHR 0x02}" and "newline \<notin> set (buffer_of bs s)"
    and "frames_records (\<lambda>s. raw_record parse name cid (streamName s)) bs fs = (rs, bs')"
  shows "on_stream s rs
      = map (raw_record parse name cid (streamName s)) (complete_lines (buffer_of bs s @ stream_text s fs))
    \<and> buffer_of bs' s = last_line (buffer_of bs s @ stream_text s fs)"
  using assms(2,3)
proof (induction fs arbitrary: bs rs)
  case Nil
  then show ?case by (auto simp: stream_text_def line_simps)
next
  case (Cons f fs)
  obtain s' p where f: "f = (s', p)" by (cases f)
  show ?case
  proof (cases "s' \<in> {CHR 0x01, CHR 0x02}")
    case False
    then have "stream_text s (f # fs) = stream_text s fs" using assms(1) by (auto simp: stream_text_def f)
    moreover have "frames_records (\<lambda>s. raw_record parse name cid (streamName s)) bs fs = (rs, bs')"
      using Cons.prems(2) False by (simp add: f)
    ultimately show ?thesis
      using Cons.IH Cons.prems(1) by simp
  next
    case True
    define t where "t = buffer_of bs s' @ p"
    from frames_records_known [OF Cons.prems(2) [unfolded f] True] obtain ys
      where ys: "frames_records (\<lambda>s. raw_record parse name cid (streamName s))
          (gm_set s' (last_line t) bs) fs = (ys, bs')"
        and rs: "rs = map (raw_record parse name cid (streamName s')) (complete_lines t) @ ys"
      unfolding t_def by blast
    have "newline \<notin> set (buffer_of (gm_set s' (last_line t) bs) s)"
      using Cons.prems(1) last_line_no_newline by (simp add: buffer_of_set)
    from Cons.IH [OF this ys] show ?thesis
      using on_stream_map [OF assms(1) True] complete_lines_append [of t "stream_text s fs"]
        last_line_append [of t "stream_text s fs"]
      by (auto simp: rs buffer_of_set f stream_text_def t_def)
  qed
qed

lemma frames_records_keys:
  assumes "frames_records rec bs fs = (rs, bs')" and "{CHR 0x01, CHR 0x02} \<subseteq> set (map fst bs)"
  shows "map fst bs' = map fst bs"
  using assms
proof (induction fs arbitrary: bs rs)
  case (Cons f fs)
  obtain s p where f: "f = (s, p)" by (cases f)
  show ?case
  proof (cases "s \<in> {CHR 0x01, CHR 0x02}")
    case False
    then show ?thesis using Cons by (simp add: f)
  next
    case True
    then have keys: "map fst (gm_set s b bs) = map fst bs" for b
      using Cons.prems(2) by (auto simp: update_keys)
    from frames_records_known [OF Cons.prems(1) [unfolded f] True] obtain ys
      where "frames_records rec (gm_set s (last_line (buffer_of bs s @ p)) bs) fs = (ys, bs')"
      by blast
    from Cons.IH [OF this] Cons.prems(2) show ?thesis unfolding keys by blast
  qed
qed simp

subsubsection \<open>The end of a stream\<close>

definition buffered_records :: "(char \<Rightarrow> string \<Rightarrow> RawLog) \<Rightarrow> (char, string) gomap \<Rightarrow> RawLog list" where
  "buffered_records rec bs = map (\<lambda>(s, b). rec s b) (filter (\<lambda>(s, b). b \<noteq> []) bs)"

lemma emit_buffered_eq:
  "emit_buffered parse name cid bs out =
     (let rs = buffered_records (\<lambda>s. raw_record parse name cid (streamName s)) bs
      in (send_all rs out, if fits rs out then None else Some DecodeCanceled))"
proof (induction bs arbitrary: out)
  case Nil
  then show ?case by (simp add: buffered_records_def)
next
  case (Cons f bs)
  obtain s b where f: "f = (s, b)" by (cases f)
  define x where "x = raw_record parse name cid (streamName s) b"
  define xs where "xs = buffered_records (\<lambda>s. raw_record parse name cid (streamName s)) bs"
  show ?case
  proof (cases "b = []")
    case True
    then show ?thesis using Cons by (simp add: f buffered_records_def)
  next
    case False
    then have "buffered_records (\<lambda>s. raw_record parse name cid (streamName s)) (f # bs) = [x] @ xs"
      by (simp add: f buffered_records_def x_def xs_def)
    moreover have "emit_buffered parse name cid (f # bs) out =
        (if fits [x] out then emit_buffered parse name cid bs (send_all [x] out)
         else (send_all [x] out, Some DecodeCanceled))"
      using False by (simp add: f docker_emit_eq x_def)
    ultimately show ?thesis
      using Cons [of "send_all [x] out"] send_all_cut [of "[x]" out xs]
      unfolding xs_def [symmetric] Let_def by (simp only: fits_append send_all_append) auto
  qed
qed

lemma two_buffers:
  assumes "map fst bs = map fst (new_buffers first)"
  obtains "bs = [(CHR 0x01, buffer_of bs (CHR 0x01)), (CHR 0x02, buffer_of bs (CHR 0x02))]"
  | "bs = [(CHR 0x02, buffer_of bs (CHR 0x02)), (CHR 0x01, buffer_of bs (CHR 0x01))]"
  using assms by (cases first) (auto simp: new_buffers_def buffer_of_def)

lemma on_stream_buffered:
  assumes "map fst bs = map fst (new_buffers first)" and "s \<in> {CHR 0x01, CHR 0x02}"
  shows "on_stream s (buffered_records (\<lambda>s. raw_record parse name cid (streamName s)) bs) =
    (if buffer_of bs s = [] then [] else [raw_record parse name cid (streamName s) (buffer_of bs s)])"
  using assms(1)
proof (cases rule: two_buffers)
  case 1
  show ?thesis
    by (subst 1) (use assms(2) in \<open>auto simp: buffered_records_def on_stream_def streamName_def\<close>)
next
  case 2
  show ?thesis
    by (subst 2) (use assms(2) in \<open>auto simp: buffered_records_def on_stream_def streamName_def\<close>)
qed

lemma records_streams:
  assumes "frames_records (\<lambda>s. raw_record parse name cid (streamName s)) bs fs = (rs, bs')"
  shows "rl_Stream ` set rs \<subseteq> {''stdout'', ''stderr''}"
  using assms
proof (induction fs arbitrary: bs rs)
  case (Cons f fs)
  obtain s p where f: "f = (s, p)" by (cases f)
  show ?case
  proof (cases "s \<in> {CHR 0x01, CHR 0x02}")
    case False
    then show ?thesis using Cons by (simp add: f)
  next
    case True
    from frames_records_known [OF Cons.prems [unfolded f] True] obtain ys
      where "frames_records (\<lambda>s. raw_record parse name cid (streamName s))
          (gm_set s (last_line (buffer_of bs s @ p)) bs) fs = (ys, bs')"
        and rs: "rs = map (raw_record parse name cid (streamName s)) (complete_lines (buffer_of bs s @ p)) @ ys"
      by blast
    from Cons.IH [OF this(1)] show ?thesis
      by (auto simp: rs streamName_def)
  qed
qed simp

lemma mux_records:
  assumes "frames_records (\<lambda>s. raw_record parse name cid (streamName s)) (new_buffers first) fs = (rs, bs)"
    and "s \<in> {CHR 0x01, CHR 0x02}"
  shows "on_stream s rs = map (raw_record parse name cid (streamName s)) (complete_lines (stream_text s fs))"
    and "buffer_of bs s = last_line (stream_text s fs)"
    and "map fst bs = map fst (new_buffers first)"
proof -
  have "buffer_of (new_buffers first) s = []"
    by (simp add: new_buffers_def buffer_of_def)
  then show "on_stream s rs = map (raw_record parse name cid (streamName s)) (complete_lines (stream_text s fs))"
    "buffer_of bs s = last_line (stream_text s fs)"
    using frames_records_stream [OF assms(2) _ assms(1)] by simp_all
  show "map fst bs = map fst (new_buffers first)"
    by (rule frames_records_keys [OF assms(1)]) (simp add: new_buffers_def)
qed

lemma mux_loop_part:
  assumes "length (snd g) < 2 ^ 32" and "strict_prefix part (encode_frame g)"
    and "part \<noteq> [] \<or> failure \<noteq> None"
  shows "\<exists>e. \<forall>out. mux_loop parse name cid bs out \<lparr>br_bytes = part, br_end = failure\<rparr> = (out, Some (DecodeRead e))"
proof (cases "length part < 8")
  case True
  have "mux_loop parse name cid bs out \<lparr>br_bytes = part, br_end = failure\<rparr>
      = (out, Some (DecodeRead (case failure of None \<Rightarrow> UnexpectedEOF | Some e \<Rightarrow> ReadError e)))" for out
    using True assms(3)
    by (subst mux_loop.simps) (auto simp: ReadFull_def reader_end_def split: option.splits)
  then show ?thesis by blast
next
  case False
  define header where "header = [fst g, CHR 0x00, CHR 0x00, CHR 0x00] @ be32 (length (snd g))"
  have len: "length header = 8" and size: "uint32_be (drop 4 header) = length (snd g)"
    using uint32_be32 [OF assms(1)] by (simp_all add: header_def be32_def)
  have frame: "encode_frame g = header @ snd g" by (simp add: encode_frame_def header_def)
  then have "prefix header part"
    using assms(2) False len by (metis prefix_length_prefix prefixI strict_prefix_def linorder_not_less)
  then obtain p where part: "part = header @ p" by (auto simp: prefix_def)
  then have short: "length p < length (snd g)"
    using prefix_length_less [OF assms(2)] frame by simp
  have "mux_loop parse name cid bs out \<lparr>br_bytes = part, br_end = failure\<rparr>
      = (out, Some (DecodeRead (projl (ReadFull (length (snd g)) \<lparr>br_bytes = p, br_end = failure\<rparr>))))" for out
    using short by (subst mux_loop.simps) (auto simp: part ReadFull_def len size split: option.splits)
  then show ?thesis by blast
qed


section \<open>Properties\<close>

lemma decodeMultiplexed_eq:
  assumes "\<forall>f \<in> set fs. length (snd f) < 2 ^ 32"
  obtains rs where
    "\<And>out. decodeMultiplexed parse first name cid out
        \<lparr>br_bytes = concat (map encode_frame fs), br_end = None\<rparr>
      = (send_all rs out, if fits rs out then None else Some DecodeCanceled)"
    and "\<And>s. s \<in> {CHR 0x01, CHR 0x02} \<Longrightarrow>
      on_stream s rs = map (raw_record parse name cid (streamName s)) (mux_lines (stream_text s fs))"
    and "rl_Stream ` set rs \<subseteq> {''stdout'', ''stderr''}"
proof -
  let ?rec = "\<lambda>s. raw_record parse name cid (streamName s)"
  obtain xs bs where xs: "frames_records ?rec (new_buffers first) fs = (xs, bs)"
    by (cases "frames_records ?rec (new_buffers first) fs")
  define ys where "ys = buffered_records ?rec bs"
  have loop: "mux_loop parse name cid bs out \<lparr>br_bytes = [], br_end = None\<rparr>
      = (send_all ys out, if fits ys out then None else Some DecodeCanceled)" for out
    by (subst mux_loop.simps) (simp add: ReadFull_def reader_end_def emit_buffered_eq ys_def Let_def)
  have "decodeMultiplexed parse first name cid out \<lparr>br_bytes = concat (map encode_frame fs), br_end = None\<rparr>
      = (send_all (xs @ ys) out, if fits (xs @ ys) out then None else Some DecodeCanceled)" for out
    using mux_loop_frames [OF assms, where r = "\<lparr>br_bytes = [], br_end = None\<rparr>" and tail = "[]"
        and bs = "new_buffers first" and out = out and parse = parse and name = name and cid = cid]
      send_all_cut [of xs out ys]
    by (simp add: decodeMultiplexed_def xs loop fits_append send_all_append)
  moreover have "on_stream s (xs @ ys) = map (?rec s) (mux_lines (stream_text s fs))"
    if s: "s \<in> {CHR 0x01, CHR 0x02}" for s
    using mux_records [OF xs s] on_stream_buffered [OF mux_records(3) [OF xs s] s]
    by (simp add: ys_def mux_lines_def)
  moreover have "rl_Stream ` set (xs @ ys) \<subseteq> {''stdout'', ''stderr''}"
    using records_streams [OF xs]
    by (auto simp: ys_def buffered_records_def streamName_def split: if_splits)
  ultimately show ?thesis by (rule that)
qed

text \<open>
  C8. The multiplexed decoder is exact and does not depend on how Docker cut the output into
  frames. For every list of frames there is one sequence of records such that the decoder,
  when nothing cancels it, sends exactly this sequence, and when it is cancelled after some
  sends, a prefix of it, and reports the cancellation; the records of each stream are the
  lines of the text that the frames carry on that stream, in order; and there are no other
  records.\<close>

theorem decodeMultiplexed_lines:
  assumes "\<forall>f \<in> set fs. length (snd f) < 2 ^ 32"
  shows "\<exists>rs. (\<forall>budget. decodeMultiplexed parse first name cid \<lparr>lo_sent = [], lo_budget = budget\<rparr>
          \<lparr>br_bytes = concat (map encode_frame fs), br_end = None\<rparr>
        = (case budget of
             None \<Rightarrow> (\<lparr>lo_sent = rs, lo_budget = None\<rparr>, None)
           | Some n \<Rightarrow> (\<lparr>lo_sent = take n rs, lo_budget = Some (n - length rs)\<rparr>,
                        if length rs \<le> n then None else Some DecodeCanceled)))
    \<and> on_stream (CHR 0x01) rs
        = map (raw_record parse name cid ''stdout'') (mux_lines (stream_text (CHR 0x01) fs))
    \<and> on_stream (CHR 0x02) rs
        = map (raw_record parse name cid ''stderr'') (mux_lines (stream_text (CHR 0x02) fs))
    \<and> rl_Stream ` set rs \<subseteq> {''stdout'', ''stderr''}"
proof -
  from decodeMultiplexed_eq [OF assms, of parse first name cid] obtain rs where rs:
    "\<And>out. decodeMultiplexed parse first name cid out
        \<lparr>br_bytes = concat (map encode_frame fs), br_end = None\<rparr>
      = (send_all rs out, if fits rs out then None else Some DecodeCanceled)"
    "\<And>s. s \<in> {CHR 0x01, CHR 0x02} \<Longrightarrow>
      on_stream s rs = map (raw_record parse name cid (streamName s)) (mux_lines (stream_text s fs))"
    "rl_Stream ` set rs \<subseteq> {''stdout'', ''stderr''}"
    by blast
  show ?thesis
    using rs(2) [of "CHR 0x01"] rs(2) [of "CHR 0x02"] rs(3)
    by (intro exI [of _ rs])
       (auto simp: rs(1) send_all_def fits_def streamName_def split: option.splits)
qed

text \<open>
  C27. A broken connection loses no complete line and invents none. When the stream ends
  with an error, or inside a frame, there is one sequence of records, for each stream the complete
  lines of the frames before, in order, and no others, such that the decoder sends exactly this
  sequence and reports a read error; and when the consumer stops it after some sends, it
  sends as many of them as fit and reports the cancellation if not all did.\<close>

theorem decodeMultiplexed_interrupted:
  assumes "\<forall>f \<in> set (g # fs). length (snd f) < 2 ^ 32"
    and "strict_prefix part (encode_frame g)" and "part \<noteq> [] \<or> failure \<noteq> None"
  shows "\<exists>rs e. (\<forall>budget. decodeMultiplexed parse first name cid \<lparr>lo_sent = [], lo_budget = budget\<rparr>
          \<lparr>br_bytes = concat (map encode_frame fs) @ part, br_end = failure\<rparr>
        = (case budget of
             None \<Rightarrow> (\<lparr>lo_sent = rs, lo_budget = None\<rparr>, Some (DecodeRead e))
           | Some n \<Rightarrow> (\<lparr>lo_sent = take n rs, lo_budget = Some (n - length rs)\<rparr>,
                        Some (if length rs \<le> n then DecodeRead e else DecodeCanceled))))
    \<and> on_stream (CHR 0x01) rs
        = map (raw_record parse name cid ''stdout'') (complete_lines (stream_text (CHR 0x01) fs))
    \<and> on_stream (CHR 0x02) rs
        = map (raw_record parse name cid ''stderr'') (complete_lines (stream_text (CHR 0x02) fs))
    \<and> rl_Stream ` set rs \<subseteq> {''stdout'', ''stderr''}"
proof -
  let ?rec = "\<lambda>s. raw_record parse name cid (streamName s)"
  let ?in = "\<lparr>br_bytes = concat (map encode_frame fs) @ part, br_end = failure\<rparr>"
  obtain xs bs where xs: "frames_records ?rec (new_buffers first) fs = (xs, bs)"
    by (cases "frames_records ?rec (new_buffers first) fs")
  obtain e where stuck: "\<And>out. mux_loop parse name cid bs out \<lparr>br_bytes = part, br_end = failure\<rparr>
      = (out, Some (DecodeRead e))"
    using mux_loop_part [OF _ assms(2,3), of parse name cid bs] assms(1) by auto
  have "decodeMultiplexed parse first name cid out ?in
      = (send_all xs out, Some (if fits xs out then DecodeRead e else DecodeCanceled))" for out
    using mux_loop_frames [where fs = fs and r = "\<lparr>br_bytes = [], br_end = failure\<rparr>" and tail = part
        and bs = "new_buffers first" and out = out and parse = parse and name = name and cid = cid] assms(1)
    by (simp add: decodeMultiplexed_def xs stuck)
  then have "\<forall>budget. decodeMultiplexed parse first name cid \<lparr>lo_sent = [], lo_budget = budget\<rparr> ?in
        = (case budget of
             None \<Rightarrow> (\<lparr>lo_sent = xs, lo_budget = None\<rparr>, Some (DecodeRead e))
           | Some n \<Rightarrow> (\<lparr>lo_sent = take n xs, lo_budget = Some (n - length xs)\<rparr>,
                        Some (if length xs \<le> n then DecodeRead e else DecodeCanceled)))"
    by (auto simp: send_all_def fits_def split: option.splits)
  moreover have "on_stream s xs = map (?rec s) (complete_lines (stream_text s fs))" if "s \<in> {CHR 0x01, CHR 0x02}" for s
    by (rule mux_records(1) [OF xs that])
  from this [of "CHR 0x01"] this [of "CHR 0x02"]
  have "on_stream (CHR 0x01) xs = map (raw_record parse name cid ''stdout'') (complete_lines (stream_text (CHR 0x01) fs))"
    "on_stream (CHR 0x02) xs = map (raw_record parse name cid ''stderr'') (complete_lines (stream_text (CHR 0x02) fs))"
    by (simp_all add: streamName_def)
  ultimately show ?thesis using records_streams [OF xs] by blast
qed

text \<open>
  The plain decoder of TTY containers delivers every line of the bytes read, the last
  one also when it is not terminated, in order and until it is cancelled, and then reports
  how the stream ended. On a text whose last line is terminated the multiplexed decoder
  delivers the same lines, however the text is cut into frames of standard output.\<close>

theorem decodePlain_lines:
  "decodePlain parse name cid \<lparr>lo_sent = [], lo_budget = budget\<rparr> \<lparr>br_bytes = bytes, br_end = failure\<rparr>
    = (let rs = map (raw_record parse name cid ''stdout'') (plain_lines bytes)
       in case budget of
            None \<Rightarrow> (\<lparr>lo_sent = rs, lo_budget = None\<rparr>, map_option (DecodeRead \<circ> ReadError) failure)
          | Some n \<Rightarrow> (\<lparr>lo_sent = take n rs, lo_budget = Some (n - length rs)\<rparr>,
                       if length rs \<le> n then map_option (DecodeRead \<circ> ReadError) failure
                       else Some DecodeCanceled))
  \<and> (list_all (\<lambda>f. fst f = CHR 0x01 \<and> length (snd f) < 2 ^ 32) fs \<and> stream_text (CHR 0x01) fs = bytes @ [newline] \<longrightarrow>
      fst (decodeMultiplexed parse first name cid \<lparr>lo_sent = [], lo_budget = None\<rparr>
        \<lparr>br_bytes = concat (map encode_frame fs), br_end = None\<rparr>)
      = fst (decodePlain parse name cid \<lparr>lo_sent = [], lo_budget = None\<rparr>
        \<lparr>br_bytes = bytes @ [newline], br_end = None\<rparr>))"
  (is "?plain \<and> (?frames \<longrightarrow> ?same)")
proof
  show ?plain
    by (auto simp: decodePlain_eq send_all_def fits_def end_error_def Let_def comp_def split: option.splits)
  show "?frames \<longrightarrow> ?same"
  proof
    assume fs: ?frames
    then have small: "\<forall>f \<in> set fs. length (snd f) < 2 ^ 32" by (auto simp: list_all_iff)
    from decodeMultiplexed_eq [OF small, of parse first name cid] obtain rs where rs:
      "\<And>out. decodeMultiplexed parse first name cid out
          \<lparr>br_bytes = concat (map encode_frame fs), br_end = None\<rparr>
        = (send_all rs out, if fits rs out then None else Some DecodeCanceled)"
      "\<And>s. s \<in> {CHR 0x01, CHR 0x02} \<Longrightarrow>
        on_stream s rs = map (raw_record parse name cid (streamName s)) (mux_lines (stream_text s fs))"
      "rl_Stream ` set rs \<subseteq> {''stdout'', ''stderr''}"
      by blast
    have "stream_text (CHR 0x02) fs = []"
      using fs by (auto simp: stream_text_def list_all_iff filter_empty_conv)
    then have "on_stream (CHR 0x02) rs = []"
      using rs(2) [of "CHR 0x02"] by (simp add: mux_lines_def line_simps)
    then have "on_stream (CHR 0x01) rs = rs"
      using rs(3) by (auto simp: on_stream_def streamName_def filter_empty_conv intro!: filter_True)
    moreover have "last_line (bytes @ [newline]) = []"
      by (simp add: last_line_def split_on_append)
    ultimately have "rs = map (raw_record parse name cid ''stdout'') (plain_lines (bytes @ [newline]))"
      using rs(2) [of "CHR 0x01"] fs by (simp add: mux_lines_def plain_lines_def streamName_def)
    then show ?same
      by (simp add: rs(1) decodePlain_eq send_all_def)
  qed
qed


section \<open>Witnesses\<close>

definition example_frames :: "(char \<times> string) list" where
  "example_frames =
     [(CHR 0x01, ''ab''), (CHR 0x02, ''x'' @ [newline]), (CHR 0x01, ''c'' @ [CHR 0x0D, newline] @ ''d'')]"

lemma example_frames_lines:
  "mux_lines (stream_text (CHR 0x01) example_frames) = [''abc'', ''d'']"
  "mux_lines (stream_text (CHR 0x02) example_frames) = [''x'']"
  "complete_lines (stream_text (CHR 0x01) example_frames) = [''abc'']"
  by code_simp+

theorem decodeMultiplexed_lines_witness:
  "\<exists>rs. decodeMultiplexed (\<lambda>_. None) True ''n'' ''i'' \<lparr>lo_sent = [], lo_budget = None\<rparr>
      \<lparr>br_bytes = concat (map encode_frame example_frames), br_end = None\<rparr>
        = (\<lparr>lo_sent = rs, lo_budget = None\<rparr>, None)
    \<and> on_stream (CHR 0x01) rs = map (raw_record (\<lambda>_. None) ''n'' ''i'' ''stdout'') [''abc'', ''d'']
    \<and> on_stream (CHR 0x02) rs = map (raw_record (\<lambda>_. None) ''n'' ''i'' ''stderr'') [''x'']"
proof -
  have "\<forall>f \<in> set example_frames. length (snd f) < 2 ^ 32" by (simp add: example_frames_def)
  from decodeMultiplexed_lines [OF this, of "\<lambda>_. None" True "''n''" "''i''"]
  obtain rs where rs: "\<forall>budget. decodeMultiplexed (\<lambda>_. None) True ''n'' ''i'' \<lparr>lo_sent = [], lo_budget = budget\<rparr>
          \<lparr>br_bytes = concat (map encode_frame example_frames), br_end = None\<rparr>
        = (case budget of
             None \<Rightarrow> (\<lparr>lo_sent = rs, lo_budget = None\<rparr>, None)
           | Some n \<Rightarrow> (\<lparr>lo_sent = take n rs, lo_budget = Some (n - length rs)\<rparr>,
                        if length rs \<le> n then None else Some DecodeCanceled))"
    and streams: "on_stream (CHR 0x01) rs = map (raw_record (\<lambda>_. None) ''n'' ''i'' ''stdout'') [''abc'', ''d'']"
      "on_stream (CHR 0x02) rs = map (raw_record (\<lambda>_. None) ''n'' ''i'' ''stderr'') [''x'']"
    unfolding example_frames_lines by blast
  from rs [rule_format, of None] streams show ?thesis by (intro exI [of _ rs]) simp
qed

theorem decodeMultiplexed_interrupted_witness:
  "\<exists>rs e. decodeMultiplexed (\<lambda>_. None) True ''n'' ''i'' \<lparr>lo_sent = [], lo_budget = None\<rparr>
      \<lparr>br_bytes = concat (map encode_frame example_frames) @ [CHR 0x01, CHR 0x00], br_end = None\<rparr>
        = (\<lparr>lo_sent = rs, lo_budget = None\<rparr>, Some (DecodeRead e))
    \<and> decodeMultiplexed (\<lambda>_. None) True ''n'' ''i'' \<lparr>lo_sent = [], lo_budget = Some 0\<rparr>
      \<lparr>br_bytes = concat (map encode_frame example_frames) @ [CHR 0x01, CHR 0x00], br_end = None\<rparr>
        = (\<lparr>lo_sent = [], lo_budget = Some 0\<rparr>, Some DecodeCanceled)
    \<and> on_stream (CHR 0x01) rs = map (raw_record (\<lambda>_. None) ''n'' ''i'' ''stdout'') [''abc'']"
proof -
  have "\<forall>f \<in> set ((CHR 0x01, ''zz'') # example_frames). length (snd f) < 2 ^ 32" by (simp add: example_frames_def)
  moreover have "strict_prefix [CHR 0x01, CHR 0x00] (encode_frame (CHR 0x01, ''zz''))"
    by (simp add: encode_frame_def strict_prefix_def)
  ultimately obtain rs e where rs: "\<forall>budget. decodeMultiplexed (\<lambda>_. None) True ''n'' ''i'' \<lparr>lo_sent = [], lo_budget = budget\<rparr>
          \<lparr>br_bytes = concat (map encode_frame example_frames) @ [CHR 0x01, CHR 0x00], br_end = None\<rparr>
        = (case budget of
             None \<Rightarrow> (\<lparr>lo_sent = rs, lo_budget = None\<rparr>, Some (DecodeRead e))
           | Some n \<Rightarrow> (\<lparr>lo_sent = take n rs, lo_budget = Some (n - length rs)\<rparr>,
                        Some (if length rs \<le> n then DecodeRead e else DecodeCanceled)))"
    "on_stream (CHR 0x01) rs = map (raw_record (\<lambda>_. None) ''n'' ''i'' ''stdout'') [''abc'']"
    using decodeMultiplexed_interrupted [where fs = example_frames and g = "(CHR 0x01, ''zz'')"
      and part = "[CHR 0x01, CHR 0x00]" and failure = None
      and parse = "\<lambda>_. None" and first = True and name = "''n''" and cid = "''i''"]
    unfolding example_frames_lines by blast
  then have "rs \<noteq> []" by (auto simp: on_stream_def)
  with rs(1) [rule_format, of None] rs(1) [rule_format, of "Some 0"] rs(2) show ?thesis
    by (intro exI [of _ rs] exI [of _ e]) simp
qed

theorem decodePlain_lines_witness:
  "fst (decodeMultiplexed (\<lambda>_. None) True ''n'' ''i'' \<lparr>lo_sent = [], lo_budget = None\<rparr>
      \<lparr>br_bytes = concat (map encode_frame [(CHR 0x01, ''a''), (CHR 0x01, ''b'' @ [newline])]), br_end = None\<rparr>)
    = fst (decodePlain (\<lambda>_. None) ''n'' ''i'' \<lparr>lo_sent = [], lo_budget = None\<rparr>
      \<lparr>br_bytes = ''ab'' @ [newline], br_end = None\<rparr>)"
  using decodePlain_lines [where fs = "[(CHR 0x01, ''a''), (CHR 0x01, ''b'' @ [newline])]"
      and bytes = "''ab''" and parse = "\<lambda>_. None" and first = True and name = "''n''" and cid = "''i''"]
  by (simp add: stream_text_def)

end
