(* ===== verification/Docker_Source.thy ===== *)
theory Docker_Source
  imports Docker_Decode
begin

text \<open>
  The Docker log source (\<open>internal/source/docker/source.go\<close>) and the adapter to the Docker
  SDK (\<open>client.go\<close>): construction, name matching, discovery, the choice of decoder, lifecycle
  events with their one-slot wake channels, and the loop that keeps one container attached.

  The answers of the Docker daemon are arguments. The loop \<open>runContainer\<close> is a state machine
  whose labels say what the environment does: the outcome of a discovery, which case of a
  \<open>select\<close> fires, and the arrival of a lifecycle event. What it tells its observer is kept
  in order.
\<close>

section \<open>Names and waiting times\<close>

record Container =
  dc_ID :: string
  dc_Names :: "string list"
  dc_Running :: bool
  dc_TTY :: bool

record docker_Event =
  de_Action :: string
  de_Name :: string
  de_ID :: string

definition normalizeName :: "string \<Rightarrow> string" where
  "normalizeName value = trim_prefix ''/'' (trim_space value)"

definition normalizedNames :: "string list \<Rightarrow> string list" where
  "normalizedNames values = map normalizeName values"

fun hasName :: "string list \<Rightarrow> string \<Rightarrow> bool" where
  "hasName [] wanted = False"
| "hasName (name # names) wanted = (if normalizeName name = wanted then True else hasName names wanted)"

definition isLifecycleAction :: "string \<Rightarrow> bool" where
  "isLifecycleAction action \<longleftrightarrow> action \<in> {''create'', ''start'', ''die'', ''destroy''}"

text \<open>Both arguments are positive, so that the quotient is that of HOL and doubling does not wrap.\<close>

definition nextBackoff :: "duration \<Rightarrow> duration \<Rightarrow> duration" where
  "nextBackoff current maximum = (if maximum div 2 \<le> current then maximum else current * 2)"


section \<open>Construction\<close>

datatype source_error =
    NilAPI | NoContainers | NilOutput | BackoffOrder | EmptyName | DuplicateName string
  | DockerError string | NotRunning string | NotFound string

record LogSource =
  ls_containers :: "string list"
  ls_replayStarts :: "(string, gotime) gomap"
  ls_initial :: duration
  ls_max :: duration
  ls_probeInterval :: duration
  ls_wakes :: "(string, bool) gomap"

fun make_wakes :: "string list \<Rightarrow> (string, bool) gomap \<Rightarrow> source_error + (string, bool) gomap" where
  "make_wakes [] wakes = Inr wakes"
| "make_wakes (value # values) wakes =
     (let name = normalizeName value
      in if name = [] then Inl EmptyName
         else if gm_get wakes name \<noteq> None then Inl (DuplicateName name)
         else make_wakes values (gm_set name False wakes))"

definition docker_New ::
  "bool \<Rightarrow> string list \<Rightarrow> bool \<Rightarrow> (string, gotime) gomap \<Rightarrow> duration \<Rightarrow> duration \<Rightarrow> duration
     \<Rightarrow> source_error + LogSource" where
  "docker_New hasAPI containers hasOutput replayStarts initialBackoff maxBackoff healthProbeInterval =
     (if \<not> hasAPI then Inl NilAPI
      else if containers = [] then Inl NoContainers
      else if \<not> hasOutput then Inl NilOutput
      else
        let initial = (if initialBackoff \<le> 0 then 100 * millisecond else initialBackoff);
            maximum = (if maxBackoff \<le> 0 then 5 * second else maxBackoff)
        in if maximum < initial then Inl BackoffOrder
           else
             let probe = (if healthProbeInterval \<le> 0 then 30 * second else healthProbeInterval)
             in case make_wakes containers [] of
                  Inl e \<Rightarrow> Inl e
                | Inr wakes \<Rightarrow>
                    Inr \<lparr>ls_containers = normalizedNames containers, ls_replayStarts = replayStarts,
                         ls_initial = initial, ls_max = maximum, ls_probeInterval = probe,
                         ls_wakes = wakes\<rparr>)"


section \<open>Discovery and streaming\<close>

fun find_container ::
  "(string \<Rightarrow> string + Container) \<Rightarrow> string \<Rightarrow> Container list \<Rightarrow> source_error + Container" where
  "find_container inspect name [] = Inl (NotFound name)"
| "find_container inspect name (item # items) =
     (if \<not> hasName (dc_Names item) name then find_container inspect name items
      else case inspect (dc_ID item) of
             Inl e \<Rightarrow> Inl (DockerError e)
           | Inr inspected \<Rightarrow>
               if \<not> dc_Running inspected then Inl (NotRunning name) else Inr inspected)"

definition discover ::
  "string + Container list \<Rightarrow> (string \<Rightarrow> string + Container) \<Rightarrow> string \<Rightarrow> source_error + Container" where
  "discover listed inspect name =
     (case listed of
        Inl e \<Rightarrow> Inl (DockerError e)
      | Inr containers \<Rightarrow> find_container inspect name containers)"

definition stream_start :: "LogSource \<Rightarrow> (string \<Rightarrow> gotime) option \<Rightarrow> string \<Rightarrow> gotime" where
  "stream_start s replayStart name =
     (case replayStart of
        Some f \<Rightarrow> f name
      | None \<Rightarrow> (case gm_get (ls_replayStarts s) name of None \<Rightarrow> zero_time | Some t \<Rightarrow> t))"

definition docker_stream ::
  "(string \<Rightarrow> gotime option) \<Rightarrow> bool \<Rightarrow> (string \<Rightarrow> gotime \<Rightarrow> string + byte_reader) \<Rightarrow> LogSource
     \<Rightarrow> (string \<Rightarrow> gotime) option \<Rightarrow> string \<Rightarrow> Container \<Rightarrow> log_output
     \<Rightarrow> log_output \<times> (string + decode_error option)" where
  "docker_stream parse stderrFirst logs s replayStart name container out =
     (case logs (dc_ID container) (stream_start s replayStart name) of
        Inl e \<Rightarrow> (out, Inl e)
      | Inr reader \<Rightarrow>
          apsnd Inr
            (if dc_TTY container then decodePlain parse name (dc_ID container) out reader
             else decodeMultiplexed parse stderrFirst name (dc_ID container) out reader))"


section \<open>Lifecycle events\<close>

text \<open>A wake channel holds one token; a send to a full channel is skipped.\<close>

definition wake :: "string \<Rightarrow> LogSource \<Rightarrow> LogSource" where
  "wake name s =
     (case gm_get (ls_wakes s) name of
        None \<Rightarrow> s
      | Some _ \<Rightarrow> s\<lparr>ls_wakes := gm_set name True (ls_wakes s)\<rparr>)"

definition watch_event :: "docker_Event \<Rightarrow> LogSource \<Rightarrow> LogSource" where
  "watch_event event s =
     (if isLifecycleAction (de_Action event) then wake (normalizeName (de_Name event)) s else s)"


section \<open>The adapter to the SDK\<close>

text \<open>The fields of the SDK's answers that the adapter reads.\<close>

record sdk_summary =
  sum_ID :: string
  sum_Names :: "string list"
  sum_State :: string

record sdk_inspect =
  ins_ID :: string
  ins_Name :: string
  ins_Running :: "bool option"
  ins_Tty :: "bool option"

record sdk_message =
  msg_Type :: string
  msg_Action :: string
  msg_Attributes :: "(string, string) gomap"
  msg_ID :: string

definition client_List :: "string + sdk_summary list \<Rightarrow> string + Container list" where
  "client_List answer =
     (case answer of
        Inl e \<Rightarrow> Inl e
      | Inr items \<Rightarrow>
          Inr (map (\<lambda>item. \<lparr>dc_ID = sum_ID item, dc_Names = sum_Names item,
                            dc_Running = (sum_State item = ''running''), dc_TTY = False\<rparr>) items))"

definition client_Inspect :: "string + sdk_inspect \<Rightarrow> string + Container" where
  "client_Inspect answer =
     (case answer of
        Inl e \<Rightarrow> Inl e
      | Inr item \<Rightarrow>
          Inr \<lparr>dc_ID = ins_ID item, dc_Names = [ins_Name item],
               dc_Running = (ins_Running item = Some True), dc_TTY = (ins_Tty item = Some True)\<rparr>)"

fun client_Events :: "sdk_message list \<Rightarrow> docker_Event list" where
  "client_Events [] = []"
| "client_Events (message # messages) =
     (if msg_Type message \<noteq> ''container'' then client_Events messages
      else \<lparr>de_Action = msg_Action message, de_Name = gm_str (msg_Attributes message) ''name'',
            de_ID = msg_ID message\<rparr> # client_Events messages)"


section \<open>Keeping a container attached\<close>

datatype source_obs = ObsDockerAvailable | ObsAttached string string bool | ObsReconnect string

datatype rc_phase = RDiscover | RWait | RStream Container | RStopped

record rc_state =
  rc_phase :: rc_phase
  rc_backoff :: duration
  rc_attachedOnce :: bool
  rc_token :: bool
  rc_obs :: "source_obs list"

definition rc_start :: "LogSource \<Rightarrow> rc_state" where
  "rc_start s = \<lparr>rc_phase = RDiscover, rc_backoff = ls_initial s, rc_attachedOnce = False,
                 rc_token = False, rc_obs = []\<rparr>"

definition rc_tell :: "source_obs list \<Rightarrow> rc_state \<Rightarrow> rc_state" where
  "rc_tell obs st = st\<lparr>rc_obs := rc_obs st @ obs\<rparr>"

text \<open>One pass through the discovery at the head of the loop.\<close>

definition rc_discover ::
  "LogSource \<Rightarrow> string \<Rightarrow> string + Container list \<Rightarrow> (string \<Rightarrow> string + Container) \<Rightarrow> rc_state \<Rightarrow> rc_state" where
  "rc_discover s name listed inspect st =
     (let st1 = (case listed of Inl _ \<Rightarrow> st | Inr _ \<Rightarrow> rc_tell [ObsDockerAvailable] st)
      in case discover listed inspect name of
           Inl _ \<Rightarrow>
             let st2 = rc_tell [ObsAttached name [] False] st1;
                 st3 = (if rc_attachedOnce st2 then rc_tell [ObsReconnect name] st2 else st2)
             in st3\<lparr>rc_phase := RWait\<rparr>
         | Inr container \<Rightarrow>
             rc_tell [ObsAttached name (dc_ID container) True]
               (st1\<lparr>rc_backoff := ls_initial s, rc_attachedOnce := True, rc_phase := RStream container\<rparr>))"

text \<open>After \<open>wait\<close>: cancelled, or the timer or a token ended it.\<close>

datatype wait_end = WaitCanceled | WaitTimer | WaitWake

definition rc_wait :: "LogSource \<Rightarrow> wait_end \<Rightarrow> rc_state \<Rightarrow> rc_state" where
  "rc_wait s why st =
     (case why of
        WaitCanceled \<Rightarrow> st\<lparr>rc_phase := RStopped\<rparr>
      | WaitTimer \<Rightarrow> st\<lparr>rc_backoff := nextBackoff (rc_backoff st) (ls_max s), rc_phase := RDiscover\<rparr>
      | WaitWake \<Rightarrow> st\<lparr>rc_backoff := nextBackoff (rc_backoff st) (ls_max s), rc_phase := RDiscover,
                      rc_token := False\<rparr>)"

text \<open>The \<open>select\<close> on the running stream.\<close>

datatype stream_end = StreamCanceled | StreamWake | StreamDone

definition rc_stream_end :: "string \<Rightarrow> Container \<Rightarrow> stream_end \<Rightarrow> rc_state \<Rightarrow> rc_state" where
  "rc_stream_end name container why st =
     (case why of
        StreamCanceled \<Rightarrow> st\<lparr>rc_phase := RStopped\<rparr>
      | StreamWake \<Rightarrow>
          rc_tell [ObsAttached name (dc_ID container) False, ObsReconnect name]
            (st\<lparr>rc_phase := RDiscover, rc_token := False\<rparr>)
      | StreamDone \<Rightarrow>
          rc_tell [ObsAttached name (dc_ID container) False, ObsReconnect name]
            (st\<lparr>rc_phase := RWait\<rparr>))"

datatype rc_label =
    RcCanceled
  | RcDiscover "string + Container list" "string \<Rightarrow> string + Container"
  | RcWait wait_end
  | RcStream stream_end
  | RcEvent docker_Event

inductive rc_step :: "LogSource \<Rightarrow> string \<Rightarrow> rc_label \<Rightarrow> rc_state \<Rightarrow> rc_state \<Rightarrow> bool" for s name where
  canceled: "rc_phase st = RDiscover \<Longrightarrow> rc_step s name RcCanceled st (st\<lparr>rc_phase := RStopped\<rparr>)"
| discovered: "rc_phase st = RDiscover \<Longrightarrow>
    rc_step s name (RcDiscover listed inspect) st (rc_discover s name listed inspect st)"
| waited: "rc_phase st = RWait \<Longrightarrow> why = WaitWake \<longrightarrow> rc_token st \<Longrightarrow>
    rc_step s name (RcWait why) st (rc_wait s why st)"
| streamed: "rc_phase st = RStream c \<Longrightarrow> why = StreamWake \<longrightarrow> rc_token st \<Longrightarrow>
    rc_step s name (RcStream why) st (rc_stream_end name c why st)"
| event: "rc_step s name (RcEvent ev) st
    (st\<lparr>rc_token := rc_token st \<or> isLifecycleAction (de_Action ev) \<and> normalizeName (de_Name ev) = name\<rparr>)"

inductive_cases rc_stepE: "rc_step s name l st st'"

section \<open>Laws\<close>

lemma hasName_iff: "hasName names wanted \<longleftrightarrow> wanted \<in> normalizeName ` set names"
  by (induction names) auto

lemma make_wakes_spec:
  assumes "gm_wf wakes"
  shows "case make_wakes values wakes of
      Inl _ \<Rightarrow> \<not> (distinct (normalizedNames values) \<and> [] \<notin> set (normalizedNames values)
               \<and> set (normalizedNames values) \<inter> fst ` set wakes = {})
    | Inr wakes' \<Rightarrow> distinct (normalizedNames values) \<and> [] \<notin> set (normalizedNames values)
        \<and> set (normalizedNames values) \<inter> fst ` set wakes = {}
        \<and> (\<forall>n. gm_get wakes' n = (if n \<in> set (normalizedNames values) then Some False else gm_get wakes n))"
  using assms
proof (induction "values" arbitrary: wakes)
  case Nil
  then show ?case by (simp add: normalizedNames_def)
next
  case (Cons v vs)
  show ?case
  proof (cases "normalizeName v = [] \<or> gm_get wakes (normalizeName v) \<noteq> None")
    case True
    then show ?thesis
      by (auto simp: normalizedNames_def Let_def gm_get_None)
  next
    case False
    then have fresh: "normalizeName v \<notin> fst ` set wakes" by (simp add: gm_get_None)
    show ?thesis
      using Cons.IH [OF gm_wf_set [OF Cons.prems], of "normalizeName v" False] False fresh
      unfolding gm_keys_set
      by (auto simp: normalizedNames_def Let_def gm_get_set split: sum.splits)
  qed
qed

lemma docker_New_ok:
  assumes "docker_New hasAPI containers hasOutput starts initial maximum probe = Inr s"
  shows "0 < ls_initial s" and "ls_initial s \<le> ls_max s"
    and "ls_containers s = normalizedNames containers" and "distinct (ls_containers s)"
    and "[] \<notin> set (ls_containers s)"
    and "gm_get (ls_wakes s) n = (if n \<in> set (ls_containers s) then Some False else None)"
  using assms make_wakes_spec [of "[]" containers]
  by (auto simp: docker_New_def Let_def split: if_splits sum.splits)

lemma docker_New_iff:
  "(\<exists>s. docker_New True containers True starts 0 0 probe = Inr s)
    \<longleftrightarrow> containers \<noteq> [] \<and> distinct (normalizedNames containers) \<and> [] \<notin> set (normalizedNames containers)"
  using make_wakes_spec [of "[]" containers]
  by (auto simp: docker_New_def Let_def split: sum.splits)

lemma watch_event_token:
  "gm_get (ls_wakes (watch_event ev s)) name =
     map_option (\<lambda>t. t \<or> isLifecycleAction (de_Action ev) \<and> normalizeName (de_Name ev) = name)
       (gm_get (ls_wakes s) name)"
  by (cases "gm_get (ls_wakes s) name")
     (auto simp: watch_event_def wake_def gm_get_set split: option.splits)

subsection \<open>Backoff\<close>

lemma nextBackoff_bounds:
  "0 < c \<Longrightarrow> c \<le> m \<Longrightarrow> c \<le> nextBackoff c m \<and> nextBackoff c m \<le> m"
  by (auto simp: nextBackoff_def)

definition backoff_after :: "duration \<Rightarrow> duration \<Rightarrow> nat \<Rightarrow> duration" where
  "backoff_after initial maximum k =
     (if k = 0 then initial
      else if initial * 2 ^ k < 2 * (maximum div 2) then initial * 2 ^ k else maximum)"

lemma backoff_after_Suc:
  assumes "0 < i" and "i \<le> m"
  shows "nextBackoff (backoff_after i m k) m = backoff_after i m (Suc k)"
proof (cases "k = 0")
  case True
  then show ?thesis by (auto simp: backoff_after_def nextBackoff_def)
next
  case False
  have "i * 2 ^ k \<le> i * 2 ^ Suc k" using assms by simp
  then show ?thesis
    using False assms by (auto simp: backoff_after_def nextBackoff_def)
qed

text \<open>
  The number of waits since the last successful discovery, from the labels of a run: a wait that
  the timer or a token ends counts, one that the context ends does not.
\<close>

definition waits_step :: "string \<Rightarrow> rc_label \<Rightarrow> nat \<Rightarrow> nat" where
  "waits_step name l n = (case l of
     RcDiscover listed inspect \<Rightarrow> if isl (discover listed inspect name) then n else 0
   | RcWait why \<Rightarrow> if why = WaitCanceled then n else Suc n
   | _ \<Rightarrow> n)"

definition waits_since_attach :: "string \<Rightarrow> rc_label list \<Rightarrow> nat" where
  "waits_since_attach name ls = fold (waits_step name) ls 0"

lemma backoff_run:
  assumes "run (rc_step s name) (rc_start s) ls st" and "0 < ls_initial s" and "ls_initial s \<le> ls_max s"
  shows "rc_backoff st = backoff_after (ls_initial s) (ls_max s) (waits_since_attach name ls)
    \<and> (\<forall>c. rc_phase st = RStream c \<longrightarrow> waits_since_attach name ls = 0)"
  using assms(1)
proof (induction rule: run.induct)
  case run_start
  then show ?case by (simp add: rc_start_def backoff_after_def waits_since_attach_def)
next
  case (run_step ls st l st')
  note Suc = backoff_after_Suc [OF assms(2,3)]
  from run_step.hyps(2) show ?case
  proof (cases rule: rc_step.cases)
    case (discovered listed inspect)
    then show ?thesis using run_step.IH
      by (auto simp: rc_discover_def rc_tell_def waits_since_attach_def waits_step_def backoff_after_def Let_def
          split: sum.splits)
  next
    case (waited why)
    then show ?thesis using run_step.IH Suc
      by (cases why) (auto simp: rc_wait_def waits_since_attach_def waits_step_def)
  next
    case (streamed c why)
    then show ?thesis using run_step.IH
      by (cases why) (auto simp: rc_stream_end_def rc_tell_def waits_since_attach_def waits_step_def)
  qed (use run_step.IH in \<open>auto simp: waits_since_attach_def waits_step_def\<close>)
qed

subsection \<open>Observations\<close>

text \<open>
  The container that the observations report as attached, and the order that they must
  keep: a container is reported attached only when none is, and detached with its own
  identifier; a failed discovery reports an empty identifier.
\<close>

fun attach_now :: "string option \<Rightarrow> source_obs list \<Rightarrow> string option" where
  "attach_now a [] = a"
| "attach_now a (ObsAttached n i True # os) = attach_now (Some i) os"
| "attach_now a (ObsAttached n i False # os) = attach_now None os"
| "attach_now a (_ # os) = attach_now a os"

fun attach_ok :: "string option \<Rightarrow> source_obs list \<Rightarrow> bool" where
  "attach_ok a [] = True"
| "attach_ok a (ObsAttached n i True # os) = (a = None \<and> attach_ok (Some i) os)"
| "attach_ok a (ObsAttached n i False # os) = ((a = Some i \<or> a = None \<and> i = []) \<and> attach_ok None os)"
| "attach_ok a (_ # os) = attach_ok a os"

text \<open>The number of reports of a lost container since it was first attached.\<close>

fun losses :: "bool \<Rightarrow> source_obs list \<Rightarrow> nat" where
  "losses once [] = 0"
| "losses once (ObsAttached n i True # os) = losses True os"
| "losses once (ObsAttached n i False # os) = (if once then 1 else 0) + losses once os"
| "losses once (_ # os) = losses once os"

definition is_reconnect :: "source_obs \<Rightarrow> bool" where
  "is_reconnect ob \<longleftrightarrow> (\<exists>n. ob = ObsReconnect n)"

definition is_attach :: "source_obs \<Rightarrow> bool" where
  "is_attach ob \<longleftrightarrow> (\<exists>n i. ob = ObsAttached n i True)"

lemma attach_now_append [simp]: "attach_now a (xs @ ys) = attach_now (attach_now a xs) ys"
  by (induction a xs rule: attach_now.induct) auto

lemma attach_ok_append [simp]:
  "attach_ok a (xs @ ys) \<longleftrightarrow> attach_ok a xs \<and> attach_ok (attach_now a xs) ys"
  by (induction a xs rule: attach_ok.induct) auto

lemma attach_now_Some: "attach_now a xs = Some i \<Longrightarrow> a = Some i \<or> (\<exists>x \<in> set xs. is_attach x)"
  by (induction a xs rule: attach_now.induct) (auto simp: is_attach_def)

lemma losses_append [simp]:
  "losses once (xs @ ys) = losses once xs + losses (once \<or> (\<exists>x \<in> set xs. is_attach x)) ys"
  by (induction once xs rule: losses.induct) (auto simp: is_attach_def)

definition rc_inv :: "LogSource \<Rightarrow> rc_state \<Rightarrow> bool" where
  "rc_inv s st \<longleftrightarrow> 0 < ls_initial s \<and> ls_initial s \<le> rc_backoff st \<and> rc_backoff st \<le> ls_max s
     \<and> attach_ok None (rc_obs st)
     \<and> (case rc_phase st of
          RStream c \<Rightarrow> attach_now None (rc_obs st) = Some (dc_ID c) \<and> dc_Running c
        | RStopped \<Rightarrow> True
        | _ \<Rightarrow> attach_now None (rc_obs st) = None)
     \<and> (rc_attachedOnce st \<longleftrightarrow> (\<exists>x \<in> set (rc_obs st). is_attach x))
     \<and> length (filter is_reconnect (rc_obs st)) = losses False (rc_obs st)"

lemma find_container_spec:
  "find_container inspect name items = Inr c \<Longrightarrow>
     \<exists>before item after. items = before @ item # after \<and> name \<in> normalizeName ` set (dc_Names item)
       \<and> (\<forall>x \<in> set before. name \<notin> normalizeName ` set (dc_Names x))
       \<and> inspect (dc_ID item) = Inr c \<and> dc_Running c"
proof (induction items)
  case (Cons item items)
  show ?case
  proof (cases "hasName (dc_Names item) name")
    case True
    then show ?thesis
      using Cons.prems
      by (intro exI [of _ "[]"]) (auto simp: hasName_iff split: sum.splits if_splits)
  next
    case False
    with Cons obtain before x after where "items = before @ x # after"
      "name \<in> normalizeName ` set (dc_Names x)" "\<forall>x \<in> set before. name \<notin> normalizeName ` set (dc_Names x)"
      "inspect (dc_ID x) = Inr c" "dc_Running c" by auto
    with False show ?thesis
      by (intro exI [of _ "item # before"] exI [of _ x] exI [of _ after]) (auto simp: hasName_iff)
  qed
qed simp

lemma discover_running: "discover listed inspect name = Inr c \<Longrightarrow> dc_Running c"
  by (auto simp: discover_def dest: find_container_spec split: sum.splits)

lemmas rc_defs = rc_inv_def rc_tell_def is_attach_def is_reconnect_def

lemma rc_inv_discover:
  assumes "rc_inv s st" and "rc_phase st = RDiscover" and "ls_initial s \<le> ls_max s"
  shows "rc_inv s (rc_discover s name listed inspect st)"
proof (cases "discover listed inspect name")
  case (Inl e)
  then show ?thesis
    using assms by (cases listed) (auto simp: rc_discover_def rc_defs Let_def)
next
  case (Inr c)
  then show ?thesis
    using assms discover_running [OF Inr]
    by (cases listed) (auto simp: rc_discover_def rc_defs discover_def)
qed

interpretation reconnect: step_invariant "rc_step s name" "rc_inv s" for s name
proof
  fix st l st'
  assume inv: "rc_inv s st" and step: "rc_step s name l st st'"
  have le: "ls_initial s \<le> ls_max s" using inv by (auto simp: rc_inv_def)
  note bounds = nextBackoff_bounds [of "rc_backoff st" "ls_max s"]
  from step show "rc_inv s st'"
  proof (cases rule: rc_step.cases)
    case (discovered listed inspect)
    then show ?thesis using inv le by (simp add: rc_inv_discover)
  next
    case (waited why)
    then show ?thesis
      using inv bounds by (cases why) (auto simp: rc_wait_def rc_inv_def)
  next
    case (streamed c why)
    then have "\<exists>x \<in> set (rc_obs st). is_attach x"
      using inv attach_now_Some [of None "rc_obs st"] by (auto simp: rc_inv_def)
    then show ?thesis
      using inv streamed by (cases why) (auto simp: rc_stream_end_def rc_inv_def rc_tell_def is_reconnect_def)
  qed (use inv in \<open>auto simp: rc_inv_def split: rc_phase.splits\<close>)
qed

text \<open>The token after a sequence of labels: set by an event, taken by a wake-up.\<close>

definition token_after :: "string \<Rightarrow> rc_label list \<Rightarrow> bool" where
  "token_after name ls = fold (\<lambda>l t. case l of
      RcEvent ev \<Rightarrow> t \<or> isLifecycleAction (de_Action ev) \<and> normalizeName (de_Name ev) = name
    | RcWait why \<Rightarrow> t \<and> why \<noteq> WaitWake
    | RcStream why \<Rightarrow> t \<and> why \<noteq> StreamWake
    | _ \<Rightarrow> t) ls False"

lemma rc_token_discover: "rc_token (rc_discover s name listed inspect st) = rc_token st"
  by (cases listed; cases "discover listed inspect name")
     (auto simp: rc_discover_def rc_tell_def Let_def)

lemma token_step:
  "rc_step s name l st st' \<Longrightarrow> rc_token st' = (case l of
      RcEvent ev \<Rightarrow> rc_token st \<or> isLifecycleAction (de_Action ev) \<and> normalizeName (de_Name ev) = name
    | RcWait why \<Rightarrow> rc_token st \<and> why \<noteq> WaitWake
    | RcStream why \<Rightarrow> rc_token st \<and> why \<noteq> StreamWake
    | _ \<Rightarrow> rc_token st)"
  by (cases rule: rc_step.cases)
     (auto simp: rc_token_discover rc_wait_def rc_stream_end_def rc_tell_def
       split: wait_end.splits stream_end.splits)

lemma token_run: "run (rc_step s name) (rc_start s) ls st \<Longrightarrow> rc_token st = token_after name ls"
  by (induction rule: run.induct)
     (auto simp: rc_start_def token_after_def token_step split: rc_label.splits)


section \<open>Properties\<close>

text \<open>
  The reconnect loop keeps its protocol for every behaviour of the daemon. The waiting
  time stays between the initial and the maximal backoff. A container is reported as attached
  exactly while its stream is read, only when it runs and after the one before was reported as
  detached, with the same identifier. Every report of a loss after the first attachment is
  followed by one reconnect, and there is no other reconnect. A lifecycle event of the
  container is remembered until it wakes the loop.\<close>

theorem runContainer_protocol:
  assumes "docker_New hasAPI containers hasOutput starts initial maximum probe = Inr s"
    and "run (rc_step s name) (rc_start s) ls st"
  shows "ls_initial s \<le> rc_backoff st \<and> rc_backoff st \<le> ls_max s
    \<and> attach_ok None (rc_obs st)
    \<and> (rc_phase st \<noteq> RStopped \<longrightarrow> attach_now None (rc_obs st)
        = (case rc_phase st of RStream c \<Rightarrow> Some (dc_ID c) | _ \<Rightarrow> None))
    \<and> (\<forall>c. rc_phase st = RStream c \<longrightarrow> dc_Running c)
    \<and> length (filter is_reconnect (rc_obs st)) = losses False (rc_obs st)
    \<and> rc_token st = token_after name ls"
proof -
  have "rc_inv s (rc_start s)"
    using docker_New_ok(1,2) [OF assms(1)] by (simp add: rc_inv_def rc_start_def)
  from reconnect.run_keeps [OF assms(2) this] token_run [OF assms(2)] show ?thesis
    by (auto simp: rc_inv_def split: rc_phase.splits)
qed

text \<open>
  C28. Reconnecting backs off exponentially. In every run of the attach loop of a container from
  its start, with attachments, lost streams, lifecycle events and failed discoveries in any order, the
  delay of the next wait is the initial one doubled once for each wait since the last successful
  discovery, or since the start, until doubling would reach the maximum, and the maximum from
  then on; a successful discovery resets it, so that the wait after a stream that
  ended starts with the initial delay again. It never leaves these bounds.\<close>

theorem reconnect_backoff:
  assumes "docker_New hasAPI containers hasOutput starts initial maximum probe = Inr s"
    and "run (rc_step s name) (rc_start s) ls st"
  shows "(let k = waits_since_attach name ls in
      rc_backoff st = (if k = 0 then ls_initial s
        else if ls_initial s * 2 ^ k < 2 * (ls_max s div 2) then ls_initial s * 2 ^ k else ls_max s))
    \<and> ls_initial s \<le> rc_backoff st \<and> rc_backoff st \<le> ls_max s
    \<and> (\<forall>c. rc_phase st = RStream c \<longrightarrow> rc_backoff st = ls_initial s)"
proof -
  note new = docker_New_ok(1,2) [OF assms(1)]
  have "rc_inv s (rc_start s)" using new by (simp add: rc_inv_def rc_start_def)
  from reconnect.run_keeps [OF assms(2) this] have "ls_initial s \<le> rc_backoff st" "rc_backoff st \<le> ls_max s"
    by (simp_all add: rc_inv_def)
  moreover have "rc_backoff st = backoff_after (ls_initial s) (ls_max s) (waits_since_attach name ls)
      \<and> (\<forall>c. rc_phase st = RStream c \<longrightarrow> waits_since_attach name ls = 0)"
    using backoff_run [OF assms(2) new] .
  ultimately show ?thesis by (auto simp: backoff_after_def Let_def)
qed

text \<open>
  Discovery finds the container by name and nothing else. A source is built exactly from
  a non-empty list of names that, without blanks and leading slash, are neither empty nor
  repeated; a discovered container runs, is the inspected one of the first listed entry that
  carries the name, and its stream is read by the decoder of its format from the replay start
  on.\<close>

theorem discover_spec:
  "((\<exists>s. docker_New True containers True starts 0 0 probe = Inr s)
      \<longleftrightarrow> containers \<noteq> [] \<and> distinct (normalizedNames containers) \<and> [] \<notin> set (normalizedNames containers))
  \<and> (discover listed inspect name = Inr c \<longrightarrow>
      dc_Running c \<and> (\<exists>before item after. listed = Inr (before @ item # after)
        \<and> inspect (dc_ID item) = Inr c \<and> name \<in> normalizeName ` set (dc_Names item)
        \<and> (\<forall>x \<in> set before. name \<notin> normalizeName ` set (dc_Names x))))
  \<and> (logs (dc_ID c) (stream_start s (Some start) name) = Inr reader \<longrightarrow>
      docker_stream parse first logs s (Some start) name c out =
        apsnd Inr ((if dc_TTY c then decodePlain parse name (dc_ID c)
                    else decodeMultiplexed parse first name (dc_ID c)) out reader)
      \<and> stream_start s (Some start) name = start name)"
  using docker_New_iff [of containers starts probe] find_container_spec [of inspect name _ c]
  by (auto simp: discover_def docker_stream_def stream_start_def split: sum.splits) blast+


section \<open>Witnesses\<close>

definition example_container :: Container where
  "example_container = \<lparr>dc_ID = ''c1'', dc_Names = [''/graph-node''], dc_Running = True, dc_TTY = False\<rparr>"

definition example_source :: LogSource where
  "example_source = \<lparr>ls_containers = [''graph-node''], ls_replayStarts = [], ls_initial = 100000000,
     ls_max = 5000000000, ls_probeInterval = 30000000000, ls_wakes = [(''graph-node'', False)]\<rparr>"

lemma example_source_New: "docker_New True [''/graph-node''] True [] 0 0 0 = Inr example_source"
  by code_simp

lemma example_rc_run:
  "\<exists>st. run (rc_step example_source ''graph-node'') (rc_start example_source)
      [RcDiscover (Inl ''down'') (\<lambda>_. Inl ''gone''), RcWait WaitTimer,
       RcDiscover (Inr [example_container]) (\<lambda>_. Inr example_container)] st
    \<and> rc_phase st = RStream example_container
    \<and> rc_obs st = [ObsAttached ''graph-node'' [] False, ObsDockerAvailable, ObsAttached ''graph-node'' ''c1'' True]"
proof -
  let ?st1 = "rc_discover example_source ''graph-node'' (Inl ''down'') (\<lambda>_. Inl ''gone'') (rc_start example_source)"
  let ?st2 = "rc_wait example_source WaitTimer ?st1"
  let ?st3 = "rc_discover example_source ''graph-node'' (Inr [example_container]) (\<lambda>_. Inr example_container) ?st2"
  have wait: "rc_phase ?st1 = RWait"
    by (simp add: rc_discover_def discover_def rc_start_def rc_tell_def)
  have name: "hasName (dc_Names example_container) ''graph-node''" by code_simp
  have "rc_step example_source ''graph-node'' (RcDiscover (Inl ''down'') (\<lambda>_. Inl ''gone''))
      (rc_start example_source) ?st1"
    by (rule discovered) (simp add: rc_start_def)
  moreover have "rc_step example_source ''graph-node'' (RcWait WaitTimer) ?st1 ?st2"
    by (rule waited) (simp_all add: wait)
  moreover have "rc_step example_source ''graph-node''
      (RcDiscover (Inr [example_container]) (\<lambda>_. Inr example_container)) ?st2 ?st3"
    by (rule discovered) (simp add: rc_wait_def)
  moreover have "rc_phase ?st3 = RStream example_container
    \<and> rc_obs ?st3 = [ObsAttached ''graph-node'' [] False, ObsDockerAvailable, ObsAttached ''graph-node'' ''c1'' True]"
    using name
    by (simp add: rc_discover_def discover_def rc_start_def rc_tell_def rc_wait_def example_container_def)
  ultimately show ?thesis
    by (blast intro: run_Cons run_start)
qed

theorem runContainer_protocol_witness:
  "\<exists>st :: rc_state. rc_phase st = RStream example_container \<and> attach_now None (rc_obs st) = Some ''c1''
    \<and> losses False (rc_obs st) = 0
    \<and> 100000000 \<le> rc_backoff st \<and> rc_backoff st \<le> 5000000000"
proof -
  obtain ls st where st: "run (rc_step example_source ''graph-node'') (rc_start example_source) ls st"
    "rc_phase st = RStream example_container"
    "rc_obs st = [ObsAttached ''graph-node'' [] False, ObsDockerAvailable, ObsAttached ''graph-node'' ''c1'' True]"
    using example_rc_run by blast
  from runContainer_protocol [OF example_source_New st(1)] st(2,3) show ?thesis
    by - (rule exI [of _ st], simp add: example_container_def is_reconnect_def, simp add: example_source_def)
qed

theorem reconnect_backoff_witness:
  "\<exists>st :: rc_state. rc_backoff st = 200000000
     \<and> run (rc_step example_source ''graph-node'') (rc_start example_source)
         [RcDiscover (Inl ''down'') (\<lambda>_. Inl ''gone''), RcWait WaitTimer,
          RcDiscover (Inr [example_container]) (\<lambda>_. Inr example_container), RcStream StreamDone, RcWait WaitTimer] st"
proof -
  let ?step = "rc_step example_source ''graph-node''"
  let ?st1 = "rc_discover example_source ''graph-node'' (Inl ''down'') (\<lambda>_. Inl ''gone'') (rc_start example_source)"
  let ?st2 = "rc_wait example_source WaitTimer ?st1"
  let ?st3 = "rc_discover example_source ''graph-node'' (Inr [example_container]) (\<lambda>_. Inr example_container) ?st2"
  let ?st4 = "rc_stream_end ''graph-node'' example_container StreamDone ?st3"
  let ?st5 = "rc_wait example_source WaitTimer ?st4"
  have has: "hasName (dc_Names example_container) ''graph-node''" by code_simp
  then have found: "discover (Inr [example_container]) (\<lambda>_. Inr example_container) ''graph-node'' = Inr example_container"
    by (simp add: discover_def example_container_def)
  have phases: "rc_phase (rc_start example_source) = RDiscover" "rc_phase ?st1 = RWait" "rc_phase ?st2 = RDiscover"
    "rc_phase ?st3 = RStream example_container" "rc_phase ?st4 = RWait"
    by (simp_all add: rc_start_def rc_discover_def discover_def rc_tell_def rc_wait_def rc_stream_end_def found [unfolded discover_def, simplified])
  have steps: "?step (RcDiscover (Inl ''down'') (\<lambda>_. Inl ''gone'')) (rc_start example_source) ?st1"
    "?step (RcWait WaitTimer) ?st1 ?st2" "?step (RcDiscover (Inr [example_container]) (\<lambda>_. Inr example_container)) ?st2 ?st3"
    "?step (RcStream StreamDone) ?st3 ?st4" "?step (RcWait WaitTimer) ?st4 ?st5"
    using rc_step.discovered [OF phases(1)] rc_step.waited [OF phases(2)] rc_step.discovered [OF phases(3)]
      rc_step.streamed [OF phases(4)] rc_step.waited [OF phases(5)] by simp_all
  note ran = run_Cons [where step = ?step, OF steps(1) run_Cons [where step = ?step, OF steps(2) run_Cons [where step = ?step,
        OF steps(3) run_Cons [where step = ?step, OF steps(4) run_Cons [where step = ?step, OF steps(5) run_start]]]]]
  have "waits_since_attach ''graph-node''
         [RcDiscover (Inl ''down'') (\<lambda>_. Inl ''gone''), RcWait WaitTimer,
          RcDiscover (Inr [example_container]) (\<lambda>_. Inr example_container), RcStream StreamDone, RcWait WaitTimer] = 1"
    by (simp add: waits_since_attach_def waits_step_def found)
  with reconnect_backoff [OF example_source_New ran] have "rc_backoff ?st5 = 200000000"
    by (simp add: Let_def) (simp add: example_source_def)
  with ran show ?thesis by blast
qed

theorem discover_spec_witness:
  "dc_Running example_container
    \<and> (\<exists>before item after. [example_container] = before @ item # after
        \<and> ''graph-node'' \<in> normalizeName ` set (dc_Names item))"
proof -
  have "hasName (dc_Names example_container) ''graph-node''" by code_simp
  then have "discover (Inr [example_container]) (\<lambda>_. Inr example_container) ''graph-node'' = Inr example_container"
    by (simp add: discover_def example_container_def)
  with discover_spec [where listed = "Inr [example_container]" and inspect = "\<lambda>_. Inr example_container"
      and name = "''graph-node''" and c = example_container]
  show ?thesis by (metis sum.inject(2))
qed

end
