(* ===== verification/Health.thy ===== *)
theory Health
  imports Glw_Prelude
begin

text \<open>
  The health endpoint (\<open>internal/metrics/metrics.go\<close>): the state behind \<open>/healthz\<close>, its updates
  and the answer to a request. The clock is an argument of every operation that reads it. The
  Prometheus counters of the same file are calls into a library and are left out, and so is
  the JSON encoding of the answer: the model returns the status code and the two values that
  are encoded.
\<close>

record Health =
  h_lastDockerOK :: gotime
  h_attached :: "(string, bool) gomap"
  h_detachedSince :: "(string, gotime) gomap"
  h_checkpointErr :: bool
  h_dockerAfter :: duration
  h_detachedAfter :: duration

definition NewHealth :: "gotime \<Rightarrow> string list \<Rightarrow> duration \<Rightarrow> duration \<Rightarrow> Health" where
  "NewHealth now containers dockerAfter detachedAfter =
     \<lparr>h_lastDockerOK = now,
      h_attached = fold (\<lambda>c. gm_set c False) containers [],
      h_detachedSince = fold (\<lambda>c. gm_set c now) containers [],
      h_checkpointErr = False, h_dockerAfter = dockerAfter, h_detachedAfter = detachedAfter\<rparr>"

definition DockerOK :: "gotime \<Rightarrow> Health \<Rightarrow> Health" where
  "DockerOK now h = h\<lparr>h_lastDockerOK := now\<rparr>"

text \<open>Reading a missing key gives the zero value: not attached, the zero time.\<close>

definition attached_at :: "Health \<Rightarrow> string \<Rightarrow> bool" where
  "attached_at h n = (gm_get (h_attached h) n = Some True)"

definition since_at :: "Health \<Rightarrow> string \<Rightarrow> gotime" where
  "since_at h n = (case gm_get (h_detachedSince h) n of None \<Rightarrow> zero_time | Some t \<Rightarrow> t)"

definition health_Attached :: "gotime \<Rightarrow> string \<Rightarrow> bool \<Rightarrow> Health \<Rightarrow> Health" where
  "health_Attached now n ok h =
     (if ok then h\<lparr>h_attached := gm_set n True (h_attached h),
                   h_detachedSince := gm_del n (h_detachedSince h)\<rparr>
      else
        let h1 = (if attached_at h n \<or> since_at h n = zero_time
                  then h\<lparr>h_detachedSince := gm_set n now (h_detachedSince h)\<rparr> else h)
        in h1\<lparr>h_attached := gm_set n False (h_attached h1)\<rparr>)"

definition CheckpointOK :: "bool \<Rightarrow> Health \<Rightarrow> Health" where
  "CheckpointOK ok h = h\<lparr>h_checkpointErr := \<not> ok\<rparr>"

definition detached_long :: "gotime \<Rightarrow> Health \<Rightarrow> string \<times> bool \<Rightarrow> bool \<Rightarrow> bool" where
  "detached_long now h entry acc =
     (case entry of (name, ok) \<Rightarrow>
        let since = since_at h name
        in acc \<and> \<not> ok \<and> since \<noteq> zero_time \<and> time_sub now since > h_detachedAfter h)"

definition failed_components :: "gotime \<Rightarrow> Health \<Rightarrow> string list" where
  "failed_components now h =
     (let allDetachedLong = fold (detached_long now h) (h_attached h) (0 < length (h_attached h))
      in (if time_sub now (h_lastDockerOK h) > h_dockerAfter h then [''docker''] else [])
         @ (if allDetachedLong then [''containers''] else [])
         @ (if h_checkpointErr h then [''checkpoint''] else []))"

definition ServeHTTP :: "gotime \<Rightarrow> Health \<Rightarrow> nat \<times> string \<times> string list" where
  "ServeHTTP now h =
     (let bad = failed_components now h
      in (if 0 < length bad then 503 else 200, if bad = [] then ''ok'' else ''unhealthy'', bad))"


section \<open>What the answer means\<close>

text \<open>
  The updates as a history, and what the answer should be in terms of it: when Docker last
  answered, since when a container is detached (none when it is attached), and how the last
  checkpoint went.
\<close>

datatype health_op = HDocker gotime | HAttached gotime string bool | HCheckpoint bool

fun health_apply :: "health_op \<Rightarrow> Health \<Rightarrow> Health" where
  "health_apply (HDocker t) h = DockerOK t h"
| "health_apply (HAttached t n ok) h = health_Attached t n ok h"
| "health_apply (HCheckpoint ok) h = CheckpointOK ok h"

definition op_time_ok :: "health_op \<Rightarrow> bool" where
  "op_time_ok x \<longleftrightarrow> (\<forall>n ok. x \<noteq> HAttached zero_time n ok)"

definition attaches :: "string \<Rightarrow> health_op \<Rightarrow> bool" where
  "attaches n x \<longleftrightarrow> (\<exists>t. x = HAttached t n True)"

definition mentions :: "string \<Rightarrow> health_op \<Rightarrow> bool" where
  "mentions n x \<longleftrightarrow> (\<exists>t ok. x = HAttached t n ok)"

definition since_attach :: "string \<Rightarrow> health_op list \<Rightarrow> health_op list" where
  "since_attach n ops = rev (takeWhile (\<lambda>x. \<not> attaches n x) (rev ops))"

definition detach_times :: "string \<Rightarrow> health_op list \<Rightarrow> gotime list" where
  "detach_times n ops = List.map_filter (\<lambda>x. case x of
      HAttached t m ok \<Rightarrow> if m = n \<and> \<not> ok then Some t else None | _ \<Rightarrow> None) ops"

definition detached_ref :: "gotime \<Rightarrow> string list \<Rightarrow> string \<Rightarrow> health_op list \<Rightarrow> gotime option" where
  "detached_ref t0 cs n ops =
     (if n \<in> set cs \<and> \<not> list_ex (attaches n) ops then Some t0
      else case detach_times n (since_attach n ops) of [] \<Rightarrow> None | t # _ \<Rightarrow> Some t)"

definition docker_ref :: "gotime \<Rightarrow> health_op list \<Rightarrow> gotime" where
  "docker_ref t0 ops = last (t0 # List.map_filter (\<lambda>x. case x of HDocker t \<Rightarrow> Some t | _ \<Rightarrow> None) ops)"

definition checkpoint_ref :: "health_op list \<Rightarrow> bool" where
  "checkpoint_ref ops = last (True # List.map_filter (\<lambda>x. case x of HCheckpoint ok \<Rightarrow> Some ok | _ \<Rightarrow> None) ops)"

definition known :: "string list \<Rightarrow> health_op list \<Rightarrow> string set" where
  "known cs ops = {n. n \<in> set cs \<or> list_ex (mentions n) ops}"

lemma map_filter_append [simp]:
  "List.map_filter f (xs @ ys) = List.map_filter f xs @ List.map_filter f ys"
  by (induction xs) (auto simp: map_filter_simps split: option.splits)

lemma map_filter_single: "List.map_filter f [x] = (case f x of None \<Rightarrow> [] | Some y \<Rightarrow> [y])"
  by (simp add: map_filter_simps split: option.splits)

lemmas ref_simps = docker_ref_def checkpoint_ref_def map_filter_simps

lemma detached_ref_snoc:
  "detached_ref t0 cs n (ops @ [x]) =
     (case x of
        HAttached t m ok \<Rightarrow>
          if m \<noteq> n then detached_ref t0 cs n ops
          else if ok then None
          else (case detached_ref t0 cs n ops of None \<Rightarrow> Some t | Some t' \<Rightarrow> Some t')
      | _ \<Rightarrow> detached_ref t0 cs n ops)"
proof (cases "attaches n x")
  case True
  then show ?thesis
    by (auto simp: detached_ref_def since_attach_def attaches_def detach_times_def map_filter_simps)
next
  case False
  then have "since_attach n (ops @ [x]) = since_attach n ops @ [x]"
    by (simp add: since_attach_def)
  with False show ?thesis
    by (cases x)
       (auto simp: detached_ref_def detach_times_def map_filter_single attaches_def split: list.splits)
qed

lemma detached_ref_Nil: "detached_ref t0 cs n [] = (if n \<in> set cs then Some t0 else None)"
  by (simp add: detached_ref_def since_attach_def detach_times_def map_filter_simps)

lemma fold_gm_const:
  "gm_get (fold (\<lambda>c. gm_set c v) cs m) n = (if n \<in> set cs then Some v else gm_get m n)"
  by (induction cs arbitrary: m) (auto simp: gm_get_set)

definition health_inv :: "gotime \<Rightarrow> string list \<Rightarrow> health_op list \<Rightarrow> Health \<Rightarrow> bool" where
  "health_inv t0 cs ops h \<longleftrightarrow> gm_wf (h_attached h)
     \<and> h_lastDockerOK h = docker_ref t0 ops \<and> h_checkpointErr h = (\<not> checkpoint_ref ops)
     \<and> (\<forall>n. gm_get (h_detachedSince h) n = detached_ref t0 cs n ops)
     \<and> (\<forall>n. gm_get (h_attached h) n
          = (if n \<in> known cs ops then Some (detached_ref t0 cs n ops = None) else None))
     \<and> (\<forall>n t. detached_ref t0 cs n ops = Some t \<longrightarrow> t \<noteq> zero_time \<and> n \<in> known cs ops)"

lemma gm_wf_fold: "gm_wf m \<Longrightarrow> gm_wf (fold (\<lambda>c. gm_set c v) cs m)"
  by (induction cs arbitrary: m) auto

lemma health_inv_New: "t0 \<noteq> zero_time \<Longrightarrow> health_inv t0 cs [] (NewHealth t0 cs da de)"
  by (simp add: health_inv_def NewHealth_def ref_simps fold_gm_const detached_ref_Nil known_def gm_wf_fold)

lemma known_snoc: "n \<in> known cs (ops @ [x]) \<longleftrightarrow> n \<in> known cs ops \<or> mentions n x"
  by (auto simp: known_def)

lemma health_inv_attached:
  assumes "health_inv t0 cs ops h" and "t \<noteq> zero_time"
  shows "health_inv t0 cs (ops @ [HAttached t m ok]) (health_Attached t m ok h)"
proof -
  have refs: "docker_ref t0 (ops @ [HAttached t m b]) = docker_ref t0 ops"
    "checkpoint_ref (ops @ [HAttached t m b]) = checkpoint_ref ops" for b
    by (simp_all add: ref_simps)
  have cond: "attached_at h m \<or> since_at h m = zero_time \<longleftrightarrow> detached_ref t0 cs m ops = None"
    using assms(1) by (auto simp: health_inv_def attached_at_def since_at_def split: option.splits if_splits)
  show ?thesis
    using assms
    by (cases ok; cases "detached_ref t0 cs m ops")
       (auto simp: health_inv_def refs health_Attached_def cond Let_def gm_get_set gm_get_del
         detached_ref_snoc known_snoc mentions_def split: if_splits)
qed

lemma health_inv_run:
  assumes "t0 \<noteq> zero_time" and "list_all op_time_ok ops"
  shows "health_inv t0 cs ops (fold health_apply ops (NewHealth t0 cs da de))"
  using assms(2)
proof (induction ops rule: rev_induct)
  case Nil
  then show ?case using health_inv_New [OF assms(1)] by simp
next
  case (snoc x ops)
  define h where "h = fold health_apply ops (NewHealth t0 cs da de)"
  have inv: "health_inv t0 cs ops h" using snoc by (simp add: h_def)
  show ?case
  proof (cases x)
    case (HAttached t m ok)
    then have "t \<noteq> zero_time" using snoc.prems by (auto simp: op_time_ok_def)
    from health_inv_attached [OF inv this, of m ok] show ?thesis by (simp add: HAttached h_def)
  qed (use inv in \<open>auto simp: health_inv_def h_def [symmetric] ref_simps DockerOK_def CheckpointOK_def
        detached_ref_snoc known_snoc mentions_def\<close>)
qed

lemma fold_detached_long:
  "fold (detached_long now h) es acc \<longleftrightarrow>
     acc \<and> (\<forall>(n, ok) \<in> set es. \<not> ok \<and> since_at h n \<noteq> zero_time \<and> time_sub now (since_at h n) > h_detachedAfter h)"
  by (induction es arbitrary: acc) (auto simp: detached_long_def Let_def)

lemma settings_run:
  "h_dockerAfter (fold health_apply ops h) = h_dockerAfter h"
  "h_detachedAfter (fold health_apply ops h) = h_detachedAfter h"
proof (induction ops arbitrary: h)
  case (Cons x ops)
  { case 1 show ?case
      by (cases x) (simp_all add: Cons DockerOK_def CheckpointOK_def health_Attached_def Let_def) }
  { case 2 show ?case
      by (cases x) (simp_all add: Cons DockerOK_def CheckpointOK_def health_Attached_def Let_def) }
qed simp_all

lemma all_detached_iff:
  assumes "health_inv t0 cs ops h"
  shows "fold (detached_long now h) (h_attached h) (0 < length (h_attached h)) \<longleftrightarrow>
    known cs ops \<noteq> {} \<and> (\<forall>n \<in> known cs ops. \<exists>t. detached_ref t0 cs n ops = Some t \<and> h_detachedAfter h < time_sub now t)"
proof -
  have wf: "gm_wf (h_attached h)"
    and att: "\<And>n. gm_get (h_attached h) n
      = (if n \<in> known cs ops then Some (detached_ref t0 cs n ops = None) else None)"
    and since: "\<And>n. gm_get (h_detachedSince h) n = detached_ref t0 cs n ops"
    and nz: "\<And>n t. detached_ref t0 cs n ops = Some t \<Longrightarrow> t \<noteq> zero_time"
    using assms by (auto simp: health_inv_def)
  have mem: "(n, ok) \<in> set (h_attached h) \<longleftrightarrow> n \<in> known cs ops \<and> ok = (detached_ref t0 cs n ops = None)" for n ok
    using att [of n] map_of_eq_Some_iff [OF wf, of n ok] by (auto split: if_splits)
  have entries: "set (h_attached h) = (\<lambda>n. (n, detached_ref t0 cs n ops = None)) ` known cs ops"
    by (auto simp: mem image_iff)
  then have len: "0 < length (h_attached h) \<longleftrightarrow> known cs ops \<noteq> {}"
    by (metis image_is_empty length_greater_0_conv set_empty)
  have entry: "detached_ref t0 cs n ops \<noteq> None \<and> since_at h n \<noteq> zero_time
      \<and> h_detachedAfter h < time_sub now (since_at h n)
    \<longleftrightarrow> (\<exists>t. detached_ref t0 cs n ops = Some t \<and> h_detachedAfter h < time_sub now t)" for n
    using nz [of n] by (cases "detached_ref t0 cs n ops") (simp_all add: since_at_def since)
  show ?thesis
    unfolding fold_detached_long len entries using entry by simp
qed


section \<open>Property\<close>

text \<open>
  The health answer is what the history says. After any sequence of updates, with a
  clock that does not read zero, the endpoint reports \<open>docker\<close> exactly when the last
  successful call to Docker is longer ago than allowed, \<open>containers\<close> exactly when every known
  container is detached and has been so without interruption for longer than allowed,
  \<open>checkpoint\<close> exactly when the last checkpoint failed; it answers 200 exactly when it reports
  nothing, and repeated reports of a detached container do not restart its time.\<close>

theorem Health_reports:
  assumes "t0 \<noteq> zero_time" and "list_all op_time_ok ops"
  shows "let bad =
      (if dockerAfter < time_sub now (docker_ref t0 ops) then [''docker''] else [])
      @ (if known cs ops \<noteq> {} \<and> (\<forall>n \<in> known cs ops. \<exists>t. detached_ref t0 cs n ops = Some t
              \<and> detachedAfter < time_sub now t) then [''containers''] else [])
      @ (if checkpoint_ref ops then [] else [''checkpoint''])
    in ServeHTTP now (fold health_apply ops (NewHealth t0 cs dockerAfter detachedAfter))
      = (if bad = [] then (200, ''ok'', []) else (503, ''unhealthy'', bad))"
proof -
  define h where "h = fold health_apply ops (NewHealth t0 cs dockerAfter detachedAfter)"
  have inv: "health_inv t0 cs ops h"
    unfolding h_def by (rule health_inv_run [OF assms])
  have "h_lastDockerOK h = docker_ref t0 ops" "h_checkpointErr h = (\<not> checkpoint_ref ops)"
    using inv by (simp_all add: health_inv_def)
  moreover have "h_dockerAfter h = dockerAfter" "h_detachedAfter h = detachedAfter"
    by (simp_all add: h_def settings_run NewHealth_def)
  ultimately show ?thesis
    unfolding h_def [symmetric] ServeHTTP_def failed_components_def all_detached_iff [OF inv] Let_def
    by auto
qed

theorem Health_reports_witness:
  "ServeHTTP 500 (fold health_apply
      [HAttached 110 ''a'' True, HDocker 400, HAttached 200 ''a'' False, HAttached 450 ''a'' False, HCheckpoint True]
      (NewHealth 100 [''a''] 150 250)) = (503, ''unhealthy'', [''containers''])"
proof -
  let ?ops = "[HAttached 110 ''a'' True, HDocker 400, HAttached 200 ''a'' False,
    HAttached 450 ''a'' False, HCheckpoint True]"
  have refs: "docker_ref 100 ?ops = 400" "checkpoint_ref ?ops" "detached_ref 100 [''a''] ''a'' ?ops = Some 200"
    by (simp_all add: ref_simps detached_ref_def since_attach_def attaches_def detach_times_def)
  have "known [''a''] ?ops = {''a''}"
    by (auto simp: known_def mentions_def)
  then show ?thesis
    using Health_reports [of 100 ?ops 150 500 "[''a'']" 250] refs
    by (simp add: op_time_ok_def time_sub_def)
qed

end
