(* ===== verification/Runtime.thy ===== *)
theory Runtime
  imports Config_Load Notify Checkpoint_Store Replay_Gate Docker_Source Health
begin

text \<open>
  Package \<open>runtime\<close> (\<open>internal/runtime/runtime.go\<close>): how the components are built from a
  configuration (\<open>buildPipelineParts\<close>, \<open>buildNotifier\<close>), the observer that connects the Docker
  source, the checkpoint store, the replay gates and the health state, and what happens to one
  record (\<open>processRaw\<close>) and to a channel of records.

  The state is one record, because the code shares these objects by pointer. The writes of the
  store, the clock, the JSON codec, the pattern library and the digests are arguments. The
  Prometheus counters that the observer increments are left out.
\<close>

section \<open>Building the components\<close>

datatype build_error =
    BuildRedact redact_error | BuildRule rule_error | BuildRouter router_error
  | BuildContext context_error | BuildAggregate aggregate_error

fun compile_rules :: "'re regex_lib \<Rightarrow> RuleConfig list \<Rightarrow> rule_error + 're Rule list" where
  "compile_rules R [] = Inr []"
| "compile_rules R (r # rs) =
     (case Compile R r of
        Inl e \<Rightarrow> Inl e
      | Inr x \<Rightarrow> (case compile_rules R rs of Inl e \<Rightarrow> Inl e | Inr compiled \<Rightarrow> Inr (x # compiled)))"

definition buildPipelineParts ::
  "'re regex_lib \<Rightarrow> Config
     \<Rightarrow> build_error + 're Redactor \<times> 're Rule list \<times> Router \<times> Store \<times> Aggregator" where
  "buildPipelineParts R cfg =
     (case redact_New R (map (\<lambda>r. \<lparr>rr_Pattern = rdc_Pattern r, rr_Replace = rdc_Replace r\<rparr>)
                           (rdc_Rules (cf_Redaction cfg))) of
        Inl e \<Rightarrow> Inl (BuildRedact e)
      | Inr redactor \<Rightarrow>
     (case compile_rules R (cf_Rules cfg) of
        Inl e \<Rightarrow> Inl (BuildRule e)
      | Inr compiled \<Rightarrow>
     (case NewFromNames (lv_Context (cf_Levels cfg)) (lv_AlertCandidates (cf_Levels cfg)) of
        Inl e \<Rightarrow> Inl (BuildRouter e)
      | Inr gate \<Rightarrow>
     (case NewStore (cx_BufferLines (cf_Context cfg)) of
        Inl e \<Rightarrow> Inl (BuildContext e)
      | Inr contexts \<Rightarrow>
     (case aggregate_New (ag_MaxGroups (cf_Aggregation cfg)) (ag_GroupTTL (cf_Aggregation cfg))
             (ag_MaxSamples (cf_Aggregation cfg)) of
        Inl e \<Rightarrow> Inl (BuildAggregate e)
      | Inr agg \<Rightarrow> Inr (redactor, compiled, gate, contexts, agg))))))"

datatype notifier_error = ChannelError string "string option" | WorkerError notify_error

fun build_channels ::
  "string option \<Rightarrow> AlertConfig \<Rightarrow> string list \<Rightarrow> notifier_error + DingTalkConfig list" where
  "build_channels fmtErr alert [] = Inr []"
| "build_channels fmtErr alert (cid # ids) =
     (case gm_get (al_Channels alert) cid of
        None \<Rightarrow> build_channels fmtErr alert ids
      | Some ch \<Rightarrow>
          (case NewDingTalkNotifier fmtErr
                  \<lparr>dt_ID = cid, dt_Webhook = nc_Webhook ch, dt_Secret = nc_Secret ch,
                   dt_AtMobiles = nc_AtMobiles ch, dt_IsAtAll = nc_IsAtAll ch,
                   dt_CustomTags = al_CustomTags alert\<rparr> of
             Inl e \<Rightarrow> Inl (ChannelError cid e)
           | Inr n \<Rightarrow>
               (case build_channels fmtErr alert ids of Inl e \<Rightarrow> Inl e | Inr ns \<Rightarrow> Inr (n # ns))))"

definition buildNotifier ::
  "string option \<Rightarrow> Config \<Rightarrow> notifier_error + DingTalkConfig list \<times> Worker" where
  "buildNotifier fmtErr cfg =
     (case build_channels fmtErr (cf_Alert cfg) (sort (map fst (al_Channels (cf_Alert cfg)))) of
        Inl e \<Rightarrow> Inl e
      | Inr notifiers \<Rightarrow>
          (case NewWorker True (nf_QueueSize (cf_Notifier cfg)) (nf_MaxAlertsPerMinute (cf_Notifier cfg))
                  (nf_StormCooldown (cf_Notifier cfg)) [] of
             Inl e \<Rightarrow> Inl (WorkerError e)
           | Inr worker \<Rightarrow> Inr (notifiers, worker)))"


section \<open>The observer\<close>

record 're Runtime =
  rn_processor :: "'re Processor"
  rn_store :: ckpt_Store
  rn_health :: Health
  rn_overlap :: duration
  rn_initialReplayWindow :: duration
  rn_gates :: "(string, ReplayGate) gomap"
  rn_ids :: "(string, string) gomap"
  rn_initialStarts :: "(string, gotime) gomap"

definition newRuntime :: "'re Processor \<Rightarrow> ckpt_Store \<Rightarrow> Health \<Rightarrow> duration \<Rightarrow> duration \<Rightarrow> 're Runtime" where
  "newRuntime p store health overlap initialReplayWindow =
     \<lparr>rn_processor = p, rn_store = store, rn_health = health, rn_overlap = overlap,
      rn_initialReplayWindow = initialReplayWindow, rn_gates = [], rn_ids = [], rn_initialStarts = []\<rparr>"

definition DockerAvailable :: "gotime \<Rightarrow> 're Runtime \<Rightarrow> 're Runtime" where
  "DockerAvailable now rn = rn\<lparr>rn_health := DockerOK now (rn_health rn)\<rparr>"

text \<open>
  \<open>o.processor\<close> is set before the source starts, so it is not nil here. The whole callback is one
  function; the code takes the lock of the observer twice, around the update of the identifiers and
  around that of the gates.
\<close>

definition ContainerAttached ::
  "ckpt_codec \<Rightarrow> io \<Rightarrow> gotime \<Rightarrow> string \<Rightarrow> string \<Rightarrow> bool \<Rightarrow> 're Runtime \<Rightarrow> 're Runtime" where
  "ContainerAttached codec io now name cid attached rn =
     (let rn = rn\<lparr>rn_health := health_Attached now name attached (rn_health rn)\<rparr>
      in if \<not> attached then rn
         else
           let previousID = gm_str (rn_ids rn) name;
               rn = rn\<lparr>rn_ids := gm_set name cid (rn_ids rn)\<rparr>;
               rn = (if previousID \<noteq> [] \<and> previousID \<noteq> cid
                     then rn\<lparr>rn_processor := RemoveContainer name (rn_processor rn)\<rparr> else rn)
           in case ckpt_Load codec io (rn_store rn) name of
                Inl _ \<Rightarrow> rn\<lparr>rn_health := CheckpointOK False (rn_health rn)\<rparr>
              | Inr (cp, ok) \<Rightarrow>
                  if ok then rn\<lparr>rn_gates := gm_set name (NewReplayGate cp) (rn_gates rn)\<rparr>
                  else rn\<lparr>rn_gates := gm_del name (rn_gates rn)\<rparr>)"

definition replayStart ::
  "ckpt_codec \<Rightarrow> io \<Rightarrow> gotime \<Rightarrow> string \<Rightarrow> 're Runtime \<Rightarrow> 're Runtime \<times> gotime" where
  "replayStart codec io now name rn =
     (case ckpt_Load codec io (rn_store rn) name of
        Inl _ \<Rightarrow> (rn\<lparr>rn_health := CheckpointOK False (rn_health rn)\<rparr>, zero_time)
      | Inr (cp, ok) \<Rightarrow>
          if \<not> ok then
            (case gm_get (rn_initialStarts rn) name of
               Some start \<Rightarrow> (rn, start)
             | None \<Rightarrow>
                 let start = now + dur_neg (rn_initialReplayWindow rn)
                 in (rn\<lparr>rn_initialStarts := gm_set name start (rn_initialStarts rn)\<rparr>, start))
          else (rn\<lparr>rn_initialStarts := gm_del name (rn_initialStarts rn)\<rparr>,
                ReplayStart cp (rn_overlap rn)))"

definition observer_filter ::
  "(RawLog \<Rightarrow> string) \<Rightarrow> RawLog \<Rightarrow> 're Runtime \<Rightarrow> 're Runtime \<times> RawLog list" where
  "observer_filter hash raw rn =
     (case gm_get (rn_gates rn) (rl_ContainerName raw) of
        Some gate \<Rightarrow>
          (let (gate, items) = gate_Accept hash gate raw
           in (rn\<lparr>rn_gates := gm_set (rl_ContainerName raw) gate (rn_gates rn)\<rparr>, items))
      | None \<Rightarrow> (rn, [raw]))"


section \<open>One record\<close>

definition checkpoint_of :: "(RawLog \<Rightarrow> string) \<Rightarrow> RawLog \<Rightarrow> ContainerCheckpoint" where
  "checkpoint_of hash item =
     \<lparr>cpt_ContainerName = rl_ContainerName item, cpt_ContainerID = rl_ContainerID item,
      cpt_LastTimestamp = rl_Timestamp item, cpt_LastEventHash = hash item\<rparr>"

text \<open>What the environment decides for one item: the clock readings and the outcome of a write.\<close>

type_synonym item_env = "(nat \<Rightarrow> gotime) \<times> io"

record 're libs =
  lb_regex :: "'re regex_lib"
  lb_sha :: "string \<Rightarrow> string"
  lb_hash :: "RawLog \<Rightarrow> string"
  lb_codec :: ckpt_codec

definition save_item :: "'re libs \<Rightarrow> io \<Rightarrow> RawLog \<Rightarrow> 're Runtime \<Rightarrow> 're Runtime" where
  "save_item L io item rn =
     (case ckpt_Save (lb_codec L) io (checkpoint_of (lb_hash L) item) (rn_store rn) of
        (store, Inl _) \<Rightarrow> rn\<lparr>rn_store := store, rn_health := CheckpointOK False (rn_health rn)\<rparr>
      | (store, Inr _) \<Rightarrow>
          rn\<lparr>rn_store := store, rn_health := CheckpointOK (ckpt_Err store = None) (rn_health rn)\<rparr>)"

fun process_items ::
  "'re libs \<Rightarrow> (nat \<Rightarrow> item_env) \<Rightarrow> nat \<Rightarrow> RawLog list \<Rightarrow> 're Runtime \<Rightarrow> 're Runtime \<times> processor_error option" where
  "process_items L env i [] rn = (rn, None)"
| "process_items L env i (item # items) rn =
     (case processor_Process (lb_regex L) (lb_sha L) (fst (env i)) (rn_processor rn) item of
        (p, _, Some e) \<Rightarrow> (rn\<lparr>rn_processor := p\<rparr>, Some e)
      | (p, _, None) \<Rightarrow>
          process_items L env (Suc i) items (save_item L (snd (env i)) item (rn\<lparr>rn_processor := p\<rparr>)))"

text \<open>
  \<open>processRaw\<close> as one function; the code holds the locks of the observer, the processor and the store
  one after the other.
\<close>

definition processRaw ::
  "'re libs \<Rightarrow> (nat \<Rightarrow> item_env) \<Rightarrow> RawLog \<Rightarrow> 're Runtime \<Rightarrow> 're Runtime \<times> processor_error option" where
  "processRaw L env raw rn =
     (let (rn, items) = observer_filter (lb_hash L) raw rn in process_items L env 0 items rn)"

text \<open>
  A tick of the flush loop of the store, with the callback that \<open>Run\<close> installs for its status.
\<close>

definition flush_status :: "'re libs \<Rightarrow> io \<Rightarrow> 're Runtime \<Rightarrow> 're Runtime" where
  "flush_status L io rn =
     (case flush_tick (lb_codec L) io (rn_store rn) of
        (store, err) \<Rightarrow> rn\<lparr>rn_store := store, rn_health := CheckpointOK (err = None) (rn_health rn)\<rparr>)"

text \<open>
  The main loop on the records of the channel, which leaves at the first error, interleaved
  with ticks of the flush loop. The other cases of the loop, the drain and the shutdown are in
  theory \<open>Lifecycle\<close>.
\<close>

datatype rn_event = Received "nat \<Rightarrow> item_env" RawLog | FlushTick io

fun run_logs :: "'re libs \<Rightarrow> rn_event list \<Rightarrow> 're Runtime \<Rightarrow> 're Runtime \<times> processor_error option" where
  "run_logs L [] rn = (rn, None)"
| "run_logs L (FlushTick io # rest) rn = run_logs L rest (flush_status L io rn)"
| "run_logs L (Received env raw # rest) rn =
     (case processRaw L env raw rn of
        (rn, Some e) \<Rightarrow> (rn, Some e)
      | (rn, None) \<Rightarrow> run_logs L rest rn)"

section \<open>Starting up\<close>

lemma compile_rules_ok:
  "list_all (\<lambda>r. \<exists>x. Compile R r = Inr x) rs \<Longrightarrow> \<exists>xs. compile_rules R rs = Inr xs"
  by (induction rs) auto

lemma build_channels_ok:
  assumes "\<forall>n \<in> set ids. n \<noteq> [] \<and> (\<forall>ch. gm_get (al_Channels alert) n = Some ch \<longrightarrow> nc_Webhook ch \<noteq> [])"
  shows "\<exists>ns. build_channels None alert ids = Inr ns"
  using assms by (induction ids) (auto simp: NewDingTalkNotifier_def split: option.splits)

lemma trim_nonempty: "trim_space s \<noteq> [] \<Longrightarrow> s \<noteq> []"
  by auto

lemma validateChannels_ok:
  assumes "validateChannels channels = []" and "(n, ch) \<in> set channels"
  shows "n \<noteq> [] \<and> nc_Webhook ch \<noteq> []"
proof -
  have "trim_space n \<noteq> [] \<and> trim_space (nc_Webhook ch) \<noteq> []"
    using assms by (auto simp: validateChannels_def Let_def split: if_splits)
  then show ?thesis by (auto dest: trim_nonempty)
qed

lemma validated_redaction:
  assumes "validateRegexRules R path rules = []"
  shows "\<exists>rd. redact_New R (map (\<lambda>r. \<lparr>rr_Pattern = rdc_Pattern r, rr_Replace = rdc_Replace r\<rparr>) rules) = Inr rd"
proof -
  have "list_all (\<lambda>r. rdc_Pattern r \<noteq> [] \<and> \<not> isl (re_compile R (rdc_Pattern r))) rules"
    by (rule concat_enumerate_Nil [OF assms [unfolded validateRegexRules_def]])
       (auto simp: required_pattern_ok dest: trim_nonempty)
  then have "list_all (\<lambda>r. rr_Pattern r \<noteq> [] \<and> \<not> isl (re_compile R (rr_Pattern r)))
      (map (\<lambda>r. \<lparr>rr_Pattern = rdc_Pattern r, rr_Replace = rdc_Replace r\<rparr>) rules)"
    by (simp add: list_all_iff)
  then obtain cs where "redact_compile R 0
      (map (\<lambda>r. \<lparr>rr_Pattern = rdc_Pattern r, rr_Replace = rdc_Replace r\<rparr>) rules) = Inr cs"
    using redact_compile_ok by blast
  then show ?thesis by (simp add: redact_New_def)
qed

lemma validated_rules:
  assumes "validateRules R rules = []"
  shows "\<exists>xs. compile_rules R rules = Inr xs"
proof (rule compile_rules_ok)
  have "check_rules R 0 [] rules = []" using assms by (simp add: validateRules_def split: if_splits)
  from check_rules_ok [OF this] show "list_all (\<lambda>r. \<exists>x. Compile R r = Inr x) rules"
    by (auto simp: list_all_iff dest: Compile_validated)
qed

lemma validated_levels:
  assumes "validateLevels path xs True = []" and "validateLevels path' ys True = []"
  shows "\<exists>r. NewFromNames xs ys = Inr r"
proof -
  from validateLevels_parse [OF assms(1)] validateLevels_parse [OF assms(2)]
  obtain a b where "parseLevels xs = Inr a" "parseLevels ys = Inr b"
    using parseLevels_ok by blast
  then show ?thesis by (simp add: NewFromNames_def)
qed

lemma Validate_parts:
  assumes "Validate R cfg = []"
  shows "\<exists>parts. buildPipelineParts R cfg = Inr parts"
proof -
  have settings: "validate_settings cfg = []"
    and redaction: "validateRegexRules R [At ''redaction'', At ''rules''] (rdc_Rules (cf_Redaction cfg)) = []"
    and rules: "validateRules R (cf_Rules cfg) = []"
    using assms by (simp_all add: Validate_def)
  obtain rd where "redact_New R (map (\<lambda>r. \<lparr>rr_Pattern = rdc_Pattern r, rr_Replace = rdc_Replace r\<rparr>)
      (rdc_Rules (cf_Redaction cfg))) = Inr rd"
    using validated_redaction [OF redaction] by blast
  moreover obtain xs where "compile_rules R (cf_Rules cfg) = Inr xs"
    using validated_rules [OF rules] by blast
  moreover have "validateLevels [At ''levels'', At ''context''] (lv_Context (cf_Levels cfg)) True = []"
    "validateLevels [At ''levels'', At ''alert_candidates''] (lv_AlertCandidates (cf_Levels cfg)) True = []"
    using settings by (simp_all add: validate_settings_def Let_def)
  from validated_levels [OF this]
  obtain gate where "NewFromNames (lv_Context (cf_Levels cfg)) (lv_AlertCandidates (cf_Levels cfg)) = Inr gate" ..
  ultimately show ?thesis
    using settings by (simp add: buildPipelineParts_def validate_settings_def Let_def NewStore_def aggregate_New_def)
qed

lemma Validate_notifier:
  assumes "Validate R cfg = []"
  shows "\<exists>w. buildNotifier None cfg = Inr w"
proof -
  have channels: "validateChannels (al_Channels (cf_Alert cfg)) = []"
    and settings: "validate_settings cfg = []"
    using assms by (simp_all add: Validate_def)
  obtain ns where ns: "build_channels None (cf_Alert cfg) (sort (map fst (al_Channels (cf_Alert cfg)))) = Inr ns"
    using build_channels_ok [of "sort (map fst (al_Channels (cf_Alert cfg)))" "cf_Alert cfg"]
      validateChannels_ok [OF channels] by (force dest: map_of_SomeD)
  show ?thesis
    using settings
    by (simp add: buildNotifier_def ns NewWorker_def validate_settings_def Let_def defaultRetryDelays_def)
qed

text \<open>Two spellings of one container pass the checks of \<open>Validate\<close>, but no source is built from them.\<close>

lemma validated_names_clash:
  "validateNames [At ''containers''] [''graph-node'', ''/graph-node''] True = []"
  "docker_New True [''graph-node'', ''/graph-node''] True [] 0 0 0 = Inl (DuplicateName ''graph-node'')"
  by code_simp+

section \<open>Checkpoints follow processing\<close>

text \<open>
  The checkpoints after a list of processed records, over those there were at the start: the
  last record of a container that has all its parts decides.
\<close>

definition saves :: "'re libs \<Rightarrow> RawLog list \<Rightarrow> (string \<Rightarrow> ContainerCheckpoint option) \<Rightarrow> string \<Rightarrow> ContainerCheckpoint option" where
  "saves L items base = fold (\<lambda>r m. if ckpt_validate (checkpoint_of (lb_hash L) r) = None
     then m(rl_ContainerName r \<mapsto> checkpoint_of (lb_hash L) r) else m) items base"

text \<open>
  The store is in step with the records processed so far: a reader sees their last
  checkpoints, and the database holds those of an initial part of the same records.
\<close>

definition in_step :: "'re libs \<Rightarrow> (string \<Rightarrow> ContainerCheckpoint option) \<Rightarrow> RawLog list \<Rightarrow> ckpt_Store \<Rightarrow> bool" where
  "in_step L base items s \<longleftrightarrow> codec_ok (lb_codec L) \<and> ckpt_ok (lb_codec L) s
     \<and> visible (lb_codec L) s = saves L items base
     \<and> (\<exists>k \<le> length items. durable (lb_codec L) (st_db s) = saves L (take k items) base)"

lemma save_item_frame:
  "rn_processor (save_item L io r rn) = rn_processor rn" "rn_gates (save_item L io r rn) = rn_gates rn"
  "rn_overlap (save_item L io r rn) = rn_overlap rn"
  "rn_store (save_item L io r rn) = fst (ckpt_Save (lb_codec L) io (checkpoint_of (lb_hash L) r) (rn_store rn))"
  by (auto simp: save_item_def split: prod.splits sum.splits)

lemma saves_snoc:
  "saves L (items @ [r]) base = (if ckpt_validate (checkpoint_of (lb_hash L) r) = None
     then (saves L items base)(rl_ContainerName r \<mapsto> checkpoint_of (lb_hash L) r) else saves L items base)"
  by (simp add: saves_def)

lemma in_step_save:
  assumes "in_step L base items (rn_store rn)"
  shows "in_step L base (items @ [r]) (rn_store (save_item L io r rn))"
proof -
  let ?codec = "lb_codec L" and ?cp = "checkpoint_of (lb_hash L) r"
  obtain s' res where save: "ckpt_Save ?codec io ?cp (rn_store rn) = (s', res)" by fastforce
  from assms obtain k where ok: "codec_ok ?codec" "ckpt_ok ?codec (rn_store rn)"
    "visible ?codec (rn_store rn) = saves L items base"
    and k: "k \<le> length items" "durable ?codec (st_db (rn_store rn)) = saves L (take k items) base"
    by (auto simp: in_step_def)
  have "cpt_ContainerName ?cp = rl_ContainerName r" by (simp add: checkpoint_of_def)
  with ckpt_Save_spec [OF ok(1,2) save] have s': "ckpt_ok ?codec s'"
    "visible ?codec s' = saves L (items @ [r]) base"
    using ok(3) by (simp_all add: saves_snoc)
  have "\<exists>k \<le> length (items @ [r]). durable ?codec (st_db s') = saves L (take k (items @ [r])) base"
    using ckpt_Save_durable [OF ok(1,2) save] s'(2) k
    by (auto intro: exI [of _ k] exI [of _ "Suc (length items)"])
  then show ?thesis
    using ok(1) s' by (simp add: in_step_def save_item_frame save)
qed

text \<open>A tick of the flush loop between two records keeps the store in step.\<close>

lemma in_step_tick:
  assumes "in_step L base items s"
  shows "in_step L base items (fst (flush_tick (lb_codec L) io s))"
proof -
  let ?codec = "lb_codec L"
  from assms obtain k where ok: "codec_ok ?codec" "ckpt_ok ?codec s" "visible ?codec s = saves L items base"
    and k: "k \<le> length items" "durable ?codec (st_db s) = saves L (take k items) base"
    by (auto simp: in_step_def)
  obtain s' res where fl: "flushLocked ?codec io s = (s', res)" by fastforce
  have "fst (flush_tick ?codec io s) = s'"
    using ok(2) fl by (auto simp: flush_tick_def ckpt_Flush_def ckpt_ok_def split: sum.splits)
  moreover note spec = flushLocked_spec [OF ok(1,2) fl]
  have "\<exists>k \<le> length items. durable ?codec (st_db s') = saves L (take k items) base"
    using spec k ok(3) by (auto split: sum.splits intro: exI [of _ k] exI [of _ "length items"])
  ultimately show ?thesis
    using ok spec by (simp add: in_step_def)
qed

text \<open>
  The records that a run of the processor was given, and what a call of \<open>processRaw\<close> does in
  terms of them: the checkpoints are those of records that were processed before.
\<close>

definition processed :: "proc_label list \<Rightarrow> RawLog list" where
  "processed ls = List.map_filter (\<lambda>l. case l of PProcess clock r \<Rightarrow> Some r | _ \<Rightarrow> None) ls"

lemma processed_simps [simp]:
  "processed [] = []" "processed (PProcess clock r # ls) = r # processed ls"
  "processed (ls @ ls') = processed ls @ processed ls'"
  by (simp_all add: processed_def map_filter_simps)

lemma process_items_run:
  assumes "process_items L env i items rn = (rn', err)" and "in_step L base done (rn_store rn)"
  shows "\<exists>ls saved. run (proc_step (lb_regex L) (lb_sha L)) (rn_processor rn) ls (rn_processor rn')
    \<and> prefix saved (processed ls) \<and> prefix (processed ls) items
    \<and> in_step L base (done @ saved) (rn_store rn') \<and> rn_gates rn' = rn_gates rn
    \<and> (err = None \<longrightarrow> saved = items)"
  using assms
proof (induction items arbitrary: i rn "done")
  case Nil
  then show ?case
    by (intro exI [of _ "[]"]) (auto intro: run_start)
next
  case (Cons r items)
  obtain p ack e where pr: "processor_Process (lb_regex L) (lb_sha L) (fst (env i)) (rn_processor rn) r = (p, ack, e)"
    by (cases "processor_Process (lb_regex L) (lb_sha L) (fst (env i)) (rn_processor rn) r") auto
  have step: "proc_step (lb_regex L) (lb_sha L) (PProcess (fst (env i)) r) (rn_processor rn) p"
    by (rule proc_Process [OF pr])
  show ?case
  proof (cases e)
    case (Some x)
    then have "rn' = rn\<lparr>rn_processor := p\<rparr>" "err = Some x"
      using Cons.prems(1) pr by simp_all
    then show ?thesis
      using Cons.prems(2) run_Cons [where step = "proc_step (lb_regex L) (lb_sha L)", OF step run_start]
      by (intro exI [of _ "[PProcess (fst (env i)) r]"] exI [of _ "[]"]) auto
  next
    case None
    define rn1 where "rn1 = save_item L (snd (env i)) r (rn\<lparr>rn_processor := p\<rparr>)"
    have "process_items L env (Suc i) items rn1 = (rn', err)"
      using Cons.prems(1) pr None by (simp add: rn1_def)
    moreover have "in_step L base (done @ [r]) (rn_store rn1)"
      unfolding rn1_def by (rule in_step_save) (use Cons.prems(2) in simp)
    ultimately obtain ls saved where IH:
      "run (proc_step (lb_regex L) (lb_sha L)) (rn_processor rn1) ls (rn_processor rn')"
      "prefix saved (processed ls)" "prefix (processed ls) items"
      "in_step L base ((done @ [r]) @ saved) (rn_store rn')" "rn_gates rn' = rn_gates rn1"
      "err = None \<longrightarrow> saved = items"
      using Cons.IH by blast
    have "rn_processor rn1 = p" "rn_gates rn1 = rn_gates rn" by (simp_all add: rn1_def save_item_frame)
    then show ?thesis
      using IH run_Cons [where step = "proc_step (lb_regex L) (lb_sha L)", OF step]
      by (intro exI [of _ "PProcess (fst (env i)) r # ls"] exI [of _ "r # saved"]) auto
  qed
qed

text \<open>The records that the gates let through.\<close>

fun gates_stream ::
  "(RawLog \<Rightarrow> string) \<Rightarrow> (string, ReplayGate) gomap \<Rightarrow> RawLog list \<Rightarrow> (string, ReplayGate) gomap \<times> RawLog list" where
  "gates_stream hash gates [] = (gates, [])"
| "gates_stream hash gates (r # rs) =
     (case gm_get gates (rl_ContainerName r) of
        None \<Rightarrow> apsnd (\<lambda>items. r # items) (gates_stream hash gates rs)
      | Some g \<Rightarrow>
          (let (g', items) = gate_Accept hash g r
           in apsnd (\<lambda>more. items @ more) (gates_stream hash (gm_set (rl_ContainerName r) g' gates) rs)))"

lemma observer_filter_eq:
  "observer_filter hash r rn = (rn', items) \<Longrightarrow>
    gates_stream hash (rn_gates rn) (r # rs) = apsnd (\<lambda>more. items @ more) (gates_stream hash (rn_gates rn') rs)
    \<and> rn_processor rn' = rn_processor rn \<and> rn_store rn' = rn_store rn"
  by (cases "gates_stream hash (rn_gates rn) rs")
     (auto simp: observer_filter_def split: option.splits prod.splits)

definition received :: "rn_event list \<Rightarrow> RawLog list" where
  "received evs = List.map_filter (\<lambda>ev. case ev of Received env r \<Rightarrow> Some r | FlushTick io \<Rightarrow> None) evs"

lemma received_simps [simp]:
  "received [] = []" "received (Received env r # evs) = r # received evs"
  "received (FlushTick io # evs) = received evs"
  by (simp_all add: received_def map_filter_simps)

lemma flush_status_frame:
  "rn_processor (flush_status L io rn) = rn_processor rn" "rn_gates (flush_status L io rn) = rn_gates rn"
  "rn_store (flush_status L io rn) = fst (flush_tick (lb_codec L) io (rn_store rn))"
  by (auto simp: flush_status_def split: prod.splits)

text \<open>What one call of \<open>processRaw\<close> does, in terms of the gates.\<close>

lemma processRaw_run:
  assumes "processRaw L env r rn = (rn', err)" and "in_step L base done (rn_store rn)"
  obtains ls saved items where
    "run (proc_step (lb_regex L) (lb_sha L)) (rn_processor rn) ls (rn_processor rn')"
    and "prefix saved (processed ls)" and "prefix (processed ls) items"
    and "in_step L base (done @ saved) (rn_store rn')" and "err = None \<longrightarrow> saved = items"
    and "\<And>rs. gates_stream (lb_hash L) (rn_gates rn) (r # rs)
          = apsnd (\<lambda>more. items @ more) (gates_stream (lb_hash L) (rn_gates rn') rs)"
proof -
  obtain rn1 items where filtered: "observer_filter (lb_hash L) r rn = (rn1, items)" by fastforce
  have items: "process_items L env 0 items rn1 = (rn', err)"
    using assms(1) filtered by (simp add: processRaw_def)
  note f = observer_filter_eq [OF filtered]
  obtain ls saved where "run (proc_step (lb_regex L) (lb_sha L)) (rn_processor rn) ls (rn_processor rn')"
    "prefix saved (processed ls)" "prefix (processed ls) items"
    "in_step L base (done @ saved) (rn_store rn')" "rn_gates rn' = rn_gates rn1" "err = None \<longrightarrow> saved = items"
    using process_items_run [OF items, of base "done"] assms(2) f by auto
  then show ?thesis using that [of ls saved items] f by simp
qed

lemma run_logs_run:
  assumes "run_logs L evs rn = (rn', err)" and "in_step L base done (rn_store rn)"
  shows "\<exists>ls saved. run (proc_step (lb_regex L) (lb_sha L)) (rn_processor rn) ls (rn_processor rn')
    \<and> prefix saved (processed ls)
    \<and> prefix (processed ls) (snd (gates_stream (lb_hash L) (rn_gates rn) (received evs)))
    \<and> in_step L base (done @ saved) (rn_store rn')
    \<and> (err = None \<longrightarrow> saved = snd (gates_stream (lb_hash L) (rn_gates rn) (received evs)))"
  using assms
proof (induction evs arbitrary: rn "done")
  case Nil
  then show ?case
    by (intro exI [of _ "[]"]) (auto intro: run_start)
next
  case (Cons ev evs)
  show ?case
  proof (cases ev)
    case (FlushTick io)
    have "in_step L base done (rn_store (flush_status L io rn))"
      unfolding flush_status_frame by (rule in_step_tick [OF Cons.prems(2)])
    from Cons.IH [OF _ this] Cons.prems(1) show ?thesis
      by (simp add: FlushTick flush_status_frame)
  next
    case (Received env r)
    obtain rn2 e where raw: "processRaw L env r rn = (rn2, e)" by fastforce
    from processRaw_run [OF raw Cons.prems(2)] obtain ls saved items where one:
      "run (proc_step (lb_regex L) (lb_sha L)) (rn_processor rn) ls (rn_processor rn2)"
      "prefix saved (processed ls)" "prefix (processed ls) items"
      "in_step L base (done @ saved) (rn_store rn2)" "e = None \<longrightarrow> saved = items"
      "\<And>rs. gates_stream (lb_hash L) (rn_gates rn) (r # rs)
          = apsnd (\<lambda>more. items @ more) (gates_stream (lb_hash L) (rn_gates rn2) rs)"
      by blast
    define more where "more = snd (gates_stream (lb_hash L) (rn_gates rn2) (received evs))"
    have stream: "snd (gates_stream (lb_hash L) (rn_gates rn) (received (ev # evs))) = items @ more"
      unfolding Received received_simps one(6) more_def by simp
    show ?thesis
    proof (cases e)
      case (Some y)
      then have "rn' = rn2" "err = Some y"
        using Cons.prems(1) raw by (simp_all add: Received)
      then show ?thesis
        using one unfolding stream by (intro exI [of _ ls] exI [of _ saved]) (auto intro: prefix_prefix)
    next
      case None
      then have all: "saved = items" "processed ls = items"
        using one(2,3,5) by (auto intro: prefix_order.antisym)
      have "run_logs L evs rn2 = (rn', err)"
        using Cons.prems(1) raw None by (simp add: Received)
      from Cons.IH [OF this one(4)] obtain ls' saved' where rest:
        "run (proc_step (lb_regex L) (lb_sha L)) (rn_processor rn2) ls' (rn_processor rn')"
        "prefix saved' (processed ls')" "prefix (processed ls') more"
        "in_step L base ((done @ saved) @ saved') (rn_store rn')" "err = None \<longrightarrow> saved' = more"
        unfolding more_def by blast
      from run_trans [OF rest(1) one(1)] rest all show ?thesis
        unfolding stream by (intro exI [of _ "ls @ ls'"] exI [of _ "saved @ saved'"]) auto
    qed
  qed
qed

lemma gates_stream_none:
  assumes "\<forall>r \<in> set rs. gm_get gates (rl_ContainerName r) = None"
  shows "gates_stream hash gates rs = (gates, rs)"
  using assms by (induction rs) auto

lemma gates_stream_one:
  assumes "\<forall>r \<in> set rs. rl_ContainerName r = n" and "gm_get gates n = Some g"
  shows "snd (gates_stream hash gates rs) = snd (gate_stream hash g rs)"
  using assms
proof (induction rs arbitrary: gates g)
  case (Cons r rs)
  obtain g' items where accept: "gate_Accept hash g r = (g', items)" by fastforce
  have "gm_get (gm_set n g' gates) n = Some g'" by (simp add: gm_get_set)
  with Cons.IH [of "gm_set n g' gates" g'] Cons.prems accept show ?case
    by (simp split: prod.splits)
qed simp

section \<open>Properties of the composed system\<close>

lemma checkpoints_run:
  assumes "codec_ok (lb_codec L)" and "db_ok (lb_codec L) db" and "ckpt_Open None db path iv ev = Inr store"
    and "run_logs L evs (newRuntime p store health overlap window) = (rn, err)"
  shows "\<exists>ls saved. run (proc_step (lb_regex L) (lb_sha L)) p ls (rn_processor rn)
    \<and> prefix saved (processed ls) \<and> prefix (processed ls) (received evs)
    \<and> ckpt_ok (lb_codec L) (rn_store rn)
    \<and> visible (lb_codec L) (rn_store rn) = saves L saved (durable (lb_codec L) db)
    \<and> (\<exists>k \<le> length saved. durable (lb_codec L) (st_db (rn_store rn))
         = saves L (take k saved) (durable (lb_codec L) db))
    \<and> (err = None \<longrightarrow> saved = received evs)"
proof -
  let ?rn0 = "newRuntime p store health overlap window"
  have "in_step L (durable (lb_codec L) db) [] (rn_store ?rn0)"
    using ckpt_Open_ok [OF assms(3,2)] assms(1) ckpt_Open_db [OF assms(3)]
    by (simp add: in_step_def newRuntime_def saves_def)
  from run_logs_run [OF assms(4) this] show ?thesis
    by (auto simp: newRuntime_def gates_stream_none in_step_def)
qed

text \<open>
  A checkpoint never runs ahead of processing. Whatever the clock, the writes of the
  store and the ticks of its flush loop do, after any sequence of records the processor was
  given a prefix of them, in order; the checkpoints that a reader sees are those of records
  that were processed without an error; and the database holds the checkpoints of an initial
  part of these, a state that once was the visible one. When no error stopped the loop, every
  record was processed and saved.\<close>

theorem checkpoints_follow_processing:
  assumes "codec_ok (lb_codec L)" and "db_ok (lb_codec L) db" and "ckpt_Open None db path iv ev = Inr store"
    and "run_logs L evs (newRuntime p store health overlap window) = (rn, err)"
  shows "\<exists>ls saved. run (proc_step (lb_regex L) (lb_sha L)) p ls (rn_processor rn)
    \<and> prefix saved (processed ls) \<and> prefix (processed ls) (received evs)
    \<and> visible (lb_codec L) (rn_store rn) = saves L saved (durable (lb_codec L) db)
    \<and> (\<exists>k \<le> length saved. durable (lb_codec L) (st_db (rn_store rn))
         = saves L (take k saved) (durable (lb_codec L) db))
    \<and> (err = None \<longrightarrow> saved = received evs)"
  using checkpoints_run [OF assms] by blast

lemma saves_one:
  assumes "\<forall>r \<in> set items. rl_ContainerName r = n \<and> ckpt_validate (checkpoint_of (lb_hash L) r) = None"
  shows "saves L items base n = (if items = [] then base n else Some (checkpoint_of (lb_hash L) (last items)))"
  using assms by (induction items rule: rev_induct) (auto simp: saves_snoc saves_def [of L "[]"])

lemma checkpoint_valid:
  "ckpt_validate (checkpoint_of hash r) = None \<longleftrightarrow>
     rl_ContainerName r \<noteq> [] \<and> rl_ContainerID r \<noteq> [] \<and> rl_Timestamp r \<noteq> zero_time \<and> hash r \<noteq> []"
  by (auto simp: ckpt_validate_def checkpoint_of_def)

text \<open>Attaching and asking for the replay start, for a process that has just been started.\<close>

lemma attach_fresh:
  assumes "ckpt_ok codec store"
  shows "ContainerAttached codec None now n cid True (newRuntime p store health overlap window) =
    (newRuntime p store (health_Attached now n True health) overlap window)
      \<lparr>rn_ids := [(n, cid)], rn_gates := (case visible codec store n of None \<Rightarrow> [] | Some cp \<Rightarrow> [(n, NewReplayGate cp)])\<rparr>"
  by (simp add: ContainerAttached_def newRuntime_def ckpt_Load_visible [OF assms] gm_str_def split: option.splits)

lemma replayStart_visible:
  assumes "ckpt_ok codec (rn_store rn)" and "rn_initialStarts rn = []"
  shows "snd (replayStart codec None now n rn) =
      (case visible codec (rn_store rn) n of
         None \<Rightarrow> now + dur_neg (rn_initialReplayWindow rn) | Some cp \<Rightarrow> ReplayStart cp (rn_overlap rn))"
    and "rn_gates (fst (replayStart codec None now n rn)) = rn_gates rn"
    and "rn_store (fst (replayStart codec None now n rn)) = rn_store rn"
    and "rn_processor (fst (replayStart codec None now n rn)) = rn_processor rn"
  using assms by (auto simp: replayStart_def ckpt_Load_visible Let_def split: option.splits)

lemma resume_stream:
  assumes "0 < k" and "k \<le> length log" and "0 \<le> overlap"
    and "\<forall>r \<in> set log. rl_ContainerName r = n \<and> rl_ContainerID r = cid \<and> rl_Timestamp r \<noteq> zero_time \<and> hash r \<noteq> []"
    and "cid \<noteq> []" and "sorted (map rl_Timestamp log)" and "distinct (map hash log)"
  shows "snd (gates_stream hash [(n, NewReplayGate (checkpoint_of hash (log ! (k - 1))))]
      (filter (\<lambda>r. rl_Timestamp (log ! (k - 1)) - overlap \<le> rl_Timestamp r) log)) = drop k log"
proof -
  let ?m = "log ! (k - 1)" and ?g = "NewReplayGate (checkpoint_of hash (log ! (k - 1)))"
  let ?recent = "\<lambda>r. rl_Timestamp ?m - overlap \<le> rl_Timestamp r"
  have m: "?m \<in> set log" using assms(1,2) by (intro nth_mem) simp
  have log: "log = take (k - 1) log @ ?m # drop k log"
    using id_take_nth_drop [of "k - 1" log] assms(1,2) by simp
  have "sorted (map rl_Timestamp (take (k - 1) log @ ?m # drop k log))"
    "distinct (map hash (take (k - 1) log @ ?m # drop k log))"
    using assms(6,7) log by simp_all
  then have before: "\<forall>r \<in> set (take (k - 1) log). rl_Timestamp r \<le> rl_Timestamp ?m \<and> hash r \<noteq> hash ?m"
    and after: "\<forall>r \<in> set (drop k log). rl_Timestamp ?m \<le> rl_Timestamp r"
    by (auto simp: sorted_append image_iff)
  have "filter ?recent (drop k log) = drop k log"
    by (rule filter_True) (use after assms(3) in force)
  then have stream: "filter ?recent log = filter ?recent (take (k - 1) log) @ ?m # drop k log"
    using assms(3) by (subst log) simp
  have "snd (gate_stream hash ?g (filter ?recent (take (k - 1) log) @ ?m # drop k log)) = drop k log"
  proof (rule gate_stream_resume)
    show "rg_looking ?g" using m assms(4,5) by (simp add: NewReplayGate_def checkpoint_of_def)
    show "\<forall>r \<in> set (filter ?recent (take (k - 1) log) @ [?m]). rl_ContainerID r = cpt_ContainerID (rg_checkpoint ?g)"
      using m assms(4) by (auto simp: NewReplayGate_def checkpoint_of_def dest: in_set_takeD)
    show "\<forall>r \<in> set (filter ?recent (take (k - 1) log)). \<not> is_marker hash (rg_checkpoint ?g) r
        \<and> rl_Timestamp r \<le> cpt_LastTimestamp (rg_checkpoint ?g)"
      using before by (auto simp: NewReplayGate_def checkpoint_of_def is_marker_def)
    show "is_marker hash (rg_checkpoint ?g) ?m"
      by (simp add: NewReplayGate_def checkpoint_of_def is_marker_def)
  qed
  then have "snd (gate_stream hash ?g (filter ?recent log)) = drop k log" unfolding stream .
  moreover have "snd (gates_stream hash [(n, ?g)] (filter ?recent log)) = snd (gate_stream hash ?g (filter ?recent log))"
    by (rule gates_stream_one) (use assms(4) in simp_all)
  ultimately show ?thesis by simp
qed

text \<open>What a process that attaches a container handles, by the checkpoint it finds in its store.\<close>

lemma restart_handles:
  assumes "codec_ok (lb_codec L)" and "ckpt_ok (lb_codec L) store"
    and "rn2 = ContainerAttached (lb_codec L) None now n cid True (newRuntime p store health overlap window)"
    and "replayStart (lb_codec L) None now' n rn2 = (rn3, start)" and "run_logs L evs rn3 = (rn4, None)"
    and "visible (lb_codec L) store = durable (lb_codec L) (st_db store)"
  shows "\<exists>ls. run (proc_step (lb_regex L) (lb_sha L)) p ls (rn_processor rn4)
    \<and> (case visible (lb_codec L) store n of
         None \<Rightarrow> start = now' + dur_neg window \<and> processed ls = received evs
       | Some cp \<Rightarrow> start = ReplayStart cp overlap
           \<and> processed ls = snd (gates_stream (lb_hash L) [(n, NewReplayGate cp)] (received evs)))"
proof -
  let ?C = "lb_codec L"
  have rn2: "rn_store rn2 = store" "rn_initialStarts rn2 = []" "rn_overlap rn2 = overlap"
    "rn_initialReplayWindow rn2 = window" "rn_processor rn2 = p"
    "rn_gates rn2 = (case visible ?C store n of None \<Rightarrow> [] | Some cp \<Rightarrow> [(n, NewReplayGate cp)])"
    unfolding assms(3) attach_fresh [OF assms(2)] by (simp_all add: newRuntime_def)
  have rn3: "rn_gates rn3 = rn_gates rn2" "rn_store rn3 = store" "rn_processor rn3 = p"
    "start = (case visible ?C store n of None \<Rightarrow> now' + dur_neg window | Some cp \<Rightarrow> ReplayStart cp overlap)"
    using replayStart_visible [of ?C rn2 now' n] assms(2,4) rn2 by auto
  have "in_step L (visible ?C store) [] (rn_store rn3)"
    using assms(1,2,6) rn3(2) by (simp add: in_step_def saves_def)
  from run_logs_run [OF assms(5) this] obtain ls where "run (proc_step (lb_regex L) (lb_sha L)) p ls (rn_processor rn4)"
    "processed ls = snd (gates_stream (lb_hash L) (rn_gates rn2) (received evs))"
    unfolding rn3 by (auto dest: prefix_order.antisym)
  then show ?thesis
    using rn2(6) rn3(4) by (intro exI [of _ ls]) (auto simp: gates_stream_none split: option.splits)
qed

text \<open>
  C1. Crash and restart. A first process handles the records \<open>old\<close> of a container, starting
  with an empty database, and is killed at any moment, so that only the database survives. A
  second process attaches the same container, asks the observer where to start the replay and
  reads every record of the log \<open>old @ new\<close> from that time on. If the database has a
  checkpoint, it is that of the \<open>k\<close>-th record and the second process handles exactly the
  records after it: nothing is lost and nothing before the checkpoint is handled twice. If it
  has none, the second process handles every record within the initial replay window. Both
  processes receive records of this container only, in time order, with pairwise
  different event hashes and times that are not zero, and neither meets an error.\<close>

theorem crash_restart:
  assumes "codec_ok (lb_codec L)" and "ckpt_Open None [] path iv ev = Inr store1"
    and "run_logs L evs1 (newRuntime p1 store1 health1 overlap window) = (rn1, None)" and "received evs1 = old"
    and "ckpt_Open None (st_db (rn_store rn1)) path iv ev = Inr store2"
    and "rn2 = ContainerAttached (lb_codec L) None now n cid True (newRuntime p2 store2 health2 overlap window)"
    and "replayStart (lb_codec L) None now' n rn2 = (rn3, start)"
    and "run_logs L evs2 rn3 = (rn4, None)"
    and "received evs2 = filter (\<lambda>r. start \<le> rl_Timestamp r) (old @ new)"
    and "n \<noteq> []" and "cid \<noteq> []" and "0 \<le> overlap"
    and "\<forall>r \<in> set (old @ new). rl_ContainerName r = n \<and> rl_ContainerID r = cid
           \<and> rl_Timestamp r \<noteq> zero_time \<and> lb_hash L r \<noteq> []"
    and "sorted (map rl_Timestamp (old @ new))" and "distinct (map (lb_hash L) (old @ new))"
  shows "\<exists>ls1 ls2 k. run (proc_step (lb_regex L) (lb_sha L)) p1 ls1 (rn_processor rn1) \<and> processed ls1 = old
    \<and> run (proc_step (lb_regex L) (lb_sha L)) p2 ls2 (rn_processor rn4) \<and> k \<le> length old
    \<and> durable (lb_codec L) (st_db (rn_store rn1)) n
        = (if k = 0 then None else Some (checkpoint_of (lb_hash L) (old ! (k - 1))))
    \<and> (if k = 0 then start = now' + dur_neg window
           \<and> processed ls2 = filter (\<lambda>r. start \<le> rl_Timestamp r) (old @ new)
       else processed ls2 = drop k (old @ new))"
proof -
  let ?C = "lb_codec L" and ?step = "proc_step (lb_regex L) (lb_sha L)"
  have db: "db_ok ?C []" by (simp add: db_ok_def)
  from checkpoints_run [OF assms(1) db assms(2,3)] obtain ls1 k where run1:
    "run ?step p1 ls1 (rn_processor rn1)" "processed ls1 = old" "k \<le> length old"
    "ckpt_ok ?C (rn_store rn1)" "durable ?C (st_db (rn_store rn1)) = saves L (take k old) (durable ?C [])"
    using assms(4) by (auto dest: prefix_order.antisym)
  have names: "\<forall>r \<in> set (take k old). rl_ContainerName r = n \<and> ckpt_validate (checkpoint_of (lb_hash L) r) = None"
    using assms(10,11,13) by (auto simp: checkpoint_valid dest: in_set_takeD)
  have cp: "durable ?C (st_db (rn_store rn1)) n
      = (if k = 0 then None else Some (checkpoint_of (lb_hash L) (old ! (k - 1))))"
    using saves_one [OF names] run1(3,5) by (auto simp: durable_def last_conv_nth)
  have store2: "ckpt_ok ?C store2" "visible ?C store2 = durable ?C (st_db (rn_store rn1))" "st_db store2 = st_db (rn_store rn1)"
    using ckpt_Open_ok [OF assms(5)] run1(4) ckpt_Open_db [OF assms(5)] by (auto simp: ckpt_ok_def)
  from restart_handles [OF assms(1) store2(1) assms(6-8)] store2(2,3) obtain ls2 where
    run2: "run ?step p2 ls2 (rn_processor rn4)" and handled: "case visible ?C store2 n of
         None \<Rightarrow> start = now' + dur_neg window \<and> processed ls2 = received evs2
       | Some cp \<Rightarrow> start = ReplayStart cp overlap
           \<and> processed ls2 = snd (gates_stream (lb_hash L) [(n, NewReplayGate cp)] (received evs2))"
    by auto
  have "if k = 0 then start = now' + dur_neg window
      \<and> processed ls2 = filter (\<lambda>r. start \<le> rl_Timestamp r) (old @ new) else processed ls2 = drop k (old @ new)"
  proof (cases "k = 0")
    case True
    then show ?thesis
      using handled store2(2) cp assms(9) by simp
  next
    case False
    define m where "m = (old @ new) ! (k - 1)"
    have m: "m = old ! (k - 1)" "m \<in> set (old @ new)"
      using False run1(3) by (auto simp: m_def nth_append intro!: nth_mem)
    have "start = rl_Timestamp m - overlap"
      using handled cp store2(2) False assms(12,13) m by (simp add: ReplayStart_def checkpoint_of_def)
    then show ?thesis
      using handled cp store2(2) m False run1(3) assms(9,11-15)
        resume_stream [of k "old @ new" overlap n cid "lb_hash L"] by (simp add: m_def)
  qed
  with run1 run2 cp show ?thesis by blast
qed

section \<open>Witnesses\<close>

definition example_hash :: "RawLog \<Rightarrow> string" where
  "example_hash r = CHR ''#'' # rl_Raw r"

definition example_item :: "nat \<Rightarrow> RawLog" where
  "example_item i = example_rec (10 + int i) (replicate i CHR ''a'')"

text \<open>A codec for the checkpoints of the example records.\<close>

definition item_codec :: ckpt_codec where
  "item_codec =
     \<lparr>cd_marshal = (\<lambda>cp. let i = length (cpt_LastEventHash cp) - 1
        in if cp = checkpoint_of example_hash (example_item i) then Inr (replicate i CHR ''1'') else Inl ''unsupported''),
      cd_unmarshal = (\<lambda>v. Inr (checkpoint_of example_hash (example_item (length v))))\<rparr>"

lemma item_codec_ok: "codec_ok item_codec" "db_ok item_codec []"
  by (auto simp: codec_ok_def db_ok_def item_codec_def Let_def split: if_splits)

definition example_libs :: "(bool \<times> string) libs" where
  "example_libs = \<lparr>lb_regex = literal_lib, lb_sha = id, lb_hash = example_hash, lb_codec = item_codec\<rparr>"

definition quiet_processor :: "(bool \<times> string) Processor" where
  "quiet_processor = example_processor\<lparr>p_rules := NewEngine []\<rparr>"

definition quiet :: "'re Processor \<Rightarrow> bool" where
  "quiet p \<longleftrightarrow> p_rules p = NewEngine [] \<and> \<not> p_closed p"

lemma quiet_heap: "quiet (heap_map a f p) = quiet p"
  by (auto simp: quiet_def heap_map_def split: option.splits)

lemma quiet_Process:
  assumes "quiet p"
  shows "\<exists>p' ack. processor_Process R sha clock p r = (p', ack, None) \<and> quiet p'"
proof -
  have "engine_Match R (NewEngine []) e = []" for e
    by (simp add: engine_Match_def NewEngine_def)
  then have none: "matches_of R (observe x p) e = []" for x e
    using assms by (simp add: matches_of_def observe_def quiet_def)
  have "quiet (addAfterContext e q) = quiet q" for e and q :: "'a Processor"
  proof -
    have "quiet (fold (\<lambda>address. heap_map address (pa_Add e)) xs q) = quiet q" for xs q
      by (induction xs arbitrary: q) (simp_all add: quiet_heap)
    then show ?thesis by (simp add: addAfterContext_def)
  qed
  moreover have "quiet (observe x p)" for x using assms by (simp add: quiet_def observe_def)
  moreover have "quiet (q\<lparr>p_context := s\<rparr>) = quiet q" for q :: "'a Processor" and s by (simp add: quiet_def)
  ultimately show ?thesis
    using assms by (auto simp: processor_Process_def none Let_def quiet_def [of p])
qed

lemma quiet_items:
  "quiet (rn_processor rn) \<Longrightarrow>
    \<exists>rn'. process_items L env i items rn = (rn', None) \<and> quiet (rn_processor rn')"
proof (induction items arbitrary: i rn)
  case (Cons r items)
  from quiet_Process [OF Cons.prems, of "lb_regex L" "lb_sha L" "fst (env i)" r]
  obtain p ack where "processor_Process (lb_regex L) (lb_sha L) (fst (env i)) (rn_processor rn) r = (p, ack, None)"
    "quiet p" by blast
  with Cons.IH [of "save_item L (snd (env i)) r (rn\<lparr>rn_processor := p\<rparr>)" "Suc i"] show ?case
    by (simp add: save_item_frame)
qed simp

lemma quiet_run_logs:
  "quiet (rn_processor rn) \<Longrightarrow> \<exists>rn'. run_logs L evs rn = (rn', None)"
proof (induction evs arbitrary: rn)
  case (Cons ev evs)
  show ?case
  proof (cases ev)
    case (FlushTick io)
    then show ?thesis using Cons by (simp add: flush_status_frame)
  next
    case (Received env r)
    obtain rn1 items where f: "observer_filter (lb_hash L) r rn = (rn1, items)" by fastforce
    have "quiet (rn_processor rn1)" using observer_filter_eq [OF f] Cons.prems by simp
    from quiet_items [OF this, of L env 0 items] obtain rn2 where
      "processRaw L env r rn = (rn2, None)" "quiet (rn_processor rn2)"
      by (auto simp: processRaw_def f)
    with Cons.IH [of rn2] show ?thesis by (simp add: Received)
  qed
qed simp

lemma quiet_processor_quiet: "quiet quiet_processor"
  by (simp add: quiet_def quiet_processor_def example_processor_def)

definition example_env :: "nat \<Rightarrow> item_env" where
  "example_env i = ((\<lambda>_. 100), None)"

lemma example_open: "ckpt_Open None [] ''p'' 1 1 = Inr (example_store\<lparr>st_limit := 1\<rparr>)"
  by (simp add: ckpt_Open_def example_store_def)

lemma example_item_simps [simp]:
  "rl_ContainerName (example_item i) = ''index-node-0''" "rl_ContainerID (example_item i) = ''c1''"
  "rl_Timestamp (example_item i) = 10 + int i" "example_hash (example_item i) = CHR ''#'' # replicate i CHR ''a''"
  by (simp_all add: example_item_def example_rec_def example_hash_def)

lemma example_libs_simps [simp]:
  "lb_hash example_libs = example_hash" "lb_codec example_libs = item_codec"
  by (simp_all add: example_libs_def)

lemma example_save:
  "ckpt_Save item_codec None (checkpoint_of example_hash (example_item 1)) (example_store\<lparr>st_limit := 1\<rparr>)
    = (example_store\<lparr>st_limit := 1, st_db := [(''index-node-0'', ''1'')]\<rparr>, Inr ())"
proof -
  let ?cp = "checkpoint_of example_hash (example_item 1)"
  have valid: "ckpt_validate ?cp = None" by (simp add: checkpoint_valid)
  have name: "cpt_ContainerName ?cp = ''index-node-0''" by (simp add: checkpoint_of_def)
  have put: "cd_marshal item_codec ?cp = Inr ''1''"
    by (simp add: item_codec_def Let_def) (simp add: checkpoint_of_def)
  show ?thesis
    unfolding ckpt_Save_def valid name
    by (simp add: flushLocked_def example_store_def put [simplified] Let_def)
qed

lemma example_first_run:
  assumes "run_logs example_libs [Received example_env (example_item 1)]
      (newRuntime quiet_processor (example_store\<lparr>st_limit := 1\<rparr>) health 0 0) = (rn1, None)"
  shows "rn_store rn1 = example_store\<lparr>st_limit := 1, st_db := [(''index-node-0'', ''1'')]\<rparr>"
proof -
  obtain p ack where p: "processor_Process (lb_regex example_libs) (lb_sha example_libs) (fst (example_env 0))
      quiet_processor (example_item 1) = (p, ack, None)"
    using quiet_Process [OF quiet_processor_quiet] by blast
  show ?thesis
    using assms p example_save
    by (auto simp: processRaw_def observer_filter_def newRuntime_def save_item_frame example_env_def)
qed

theorem checkpoints_follow_processing_witness:
  "\<exists>rn ls. run_logs example_libs [Received example_env (example_item 1), FlushTick (Some ''disk full'')]
      (newRuntime quiet_processor (example_store\<lparr>st_limit := 1\<rparr>) (NewHealth 1 [] 1 1) 0 0) = (rn, None)
    \<and> processed ls = [example_item 1]
    \<and> visible item_codec (rn_store rn) ''index-node-0'' = Some (checkpoint_of example_hash (example_item 1))"
proof -
  let ?rn0 = "newRuntime quiet_processor (example_store\<lparr>st_limit := 1\<rparr>) (NewHealth 1 [] 1 1) 0 0"
  have "quiet (rn_processor ?rn0)" using quiet_processor_quiet by (simp add: newRuntime_def)
  then obtain rn where run: "run_logs example_libs
      [Received example_env (example_item 1), FlushTick (Some ''disk full'')] ?rn0 = (rn, None)"
    using quiet_run_logs by blast
  from checkpoints_follow_processing [OF _ _ example_open run] obtain ls where
    "processed ls = [example_item 1]"
    "visible item_codec (rn_store rn) = saves example_libs [example_item 1] (durable item_codec [])"
    using item_codec_ok by (auto dest: prefix_order.antisym)
  moreover have "saves example_libs [example_item 1] b ''index-node-0'' = Some (checkpoint_of example_hash (example_item 1))" for b
    by (simp add: saves_def checkpoint_valid)
  ultimately show ?thesis using run by auto
qed

theorem crash_restart_witness:
  "\<exists>(rn :: (bool \<times> string) Runtime) ls. run (proc_step literal_lib id) quiet_processor ls (rn_processor rn) \<and> processed ls = [example_item 2]"
proof -
  let ?new = "\<lambda>s. newRuntime quiet_processor s (NewHealth 1 [] 1 1) 0 0"
  have q: "quiet (rn_processor (?new s))" for s using quiet_processor_quiet by (simp add: newRuntime_def)
  obtain rn1 where run1: "run_logs example_libs [Received example_env (example_item 1)]
      (?new (example_store\<lparr>st_limit := 1\<rparr>)) = (rn1, None)"
    using quiet_run_logs [OF q] by blast
  note store1 = example_first_run [OF run1]
  define store2 where "store2 = example_store\<lparr>st_limit := 1, st_db := [(''index-node-0'', ''1'')]\<rparr>"
  have open2: "ckpt_Open None (st_db (rn_store rn1)) ''p'' 1 1 = Inr store2"
    by (simp add: store1 store2_def ckpt_Open_def example_store_def)
  have db: "durable item_codec (st_db (rn_store rn1)) ''index-node-0'' = Some (checkpoint_of example_hash (example_item 1))"
    by (simp add: store1 durable_def item_codec_def)
  define rn2 where "rn2 = ContainerAttached (lb_codec example_libs) None 5 ''index-node-0'' ''c1'' True (?new store2)"
  obtain rn3 start where rn3: "replayStart (lb_codec example_libs) None 5 ''index-node-0'' rn2 = (rn3, start)" by fastforce
  have "ckpt_ok item_codec store2"
    by (simp add: ckpt_ok_def db_ok_def store2_def example_store_def item_codec_def checkpoint_of_def)
  then have "rn_processor rn2 = quiet_processor" "ckpt_ok item_codec (rn_store rn2)" "rn_initialStarts rn2 = []"
    by (simp_all add: rn2_def attach_fresh) (simp_all add: newRuntime_def)
  then have "rn_processor rn3 = quiet_processor"
    using replayStart_visible(4) [of item_codec rn2 5 "''index-node-0''"] rn3 by simp
  then obtain rn4 where run2: "run_logs example_libs (map (Received example_env)
      (filter (\<lambda>r. start \<le> rl_Timestamp r) ([example_item 1] @ [example_item 2]))) rn3 = (rn4, None)"
    using quiet_run_logs quiet_processor_quiet by metis
  have rec: "received (map (Received example_env) rs) = rs" for rs by (induction rs) simp_all
  have hyps: "codec_ok (lb_codec example_libs)" "received [Received example_env (example_item 1)] = [example_item 1]"
    "''index-node-0'' \<noteq> []" "''c1'' \<noteq> []" "0 \<le> (0 :: int)"
    "\<forall>r \<in> set ([example_item 1] @ [example_item 2]). rl_ContainerName r = ''index-node-0'' \<and> rl_ContainerID r = ''c1''
       \<and> rl_Timestamp r \<noteq> zero_time \<and> lb_hash example_libs r \<noteq> []"
    "sorted (map rl_Timestamp ([example_item 1] @ [example_item 2]))"
    "distinct (map (lb_hash example_libs) ([example_item 1] @ [example_item 2]))"
    using item_codec_ok by (simp_all add: numeral_2_eq_2)
  from crash_restart [OF hyps(1) example_open run1 hyps(2) open2 rn2_def rn3 run2 rec hyps(3-8)]
  obtain ls2 k where "run (proc_step (lb_regex example_libs) (lb_sha example_libs)) quiet_processor ls2 (rn_processor rn4)"
    "k \<le> 1" "durable item_codec (st_db (rn_store rn1)) ''index-node-0''
        = (if k = 0 then None else Some (checkpoint_of example_hash ([example_item 1] ! (k - 1))))"
    "k \<noteq> 0 \<longrightarrow> processed ls2 = drop k ([example_item 1] @ [example_item 2])"
    by auto
  with db have "run (proc_step literal_lib id) quiet_processor ls2 (rn_processor rn4) \<and> processed ls2 = [example_item 2]"
    by (cases k) (auto simp: example_libs_def)
  then show ?thesis by blast
qed

text \<open>A document that names a container, a rule and a channel, for a decoder that merges it into the defaults.\<close>

definition example_config :: "Config \<Rightarrow> Config" where
  "example_config c = c\<lparr>cf_Containers := [''index-node-0''], cf_Rules := [example_rule_config],
     cf_Alert := \<lparr>al_CustomTags = [], al_Channels = [(''ops'',
       \<lparr>nc_Platform = ''dingtalk'', nc_Webhook = ''https://hook'', nc_Secret = '''', nc_AtMobiles = [],
        nc_IsAtAll = False\<rparr>)]\<rparr>\<rparr>"

definition example_yaml :: "string \<Rightarrow> Config \<Rightarrow> (string + Config) \<times> yaml_rest" where
  "example_yaml s c = (Inr (example_config c), RestEOF)"

lemma example_config_valid: "Validate literal_lib (applyRuleDefaults (example_config DefaultConfig)) = []"
  by code_simp


end
