(* ===== verification/Docker_Run.thy ===== *)
theory Docker_Run
  imports Docker_Source
begin

text \<open>
  The goroutines of \<open>LogSource.Run\<close> (\<open>internal/source/docker/source.go\<close>) together: the event
  watcher \<open>watchEvents\<close>, the health probe \<open>probeDocker\<close> and one attach loop per container,
  which share the wake channels and the observer. One step of the relation is one blocking
  operation of one goroutine; every interleaving is a run. The attach loop of a container is
  the relation \<open>rc_step\<close>, whose token is the content of the container's wake channel here.
\<close>

section \<open>The goroutines\<close>

text \<open>
  \<open>watchEvents\<close>: at the head of the loop, reading from the channels that are not nil yet, in
  \<open>wait\<close>, or returned.
\<close>

datatype we_phase = WHead | WRead bool bool | WWait | WStopped

text \<open>The condition of the inner loop: a nil channel is never read again.\<close>

definition we_reading :: "bool \<Rightarrow> bool \<Rightarrow> we_phase" where
  "we_reading events errors = (if events \<or> errors then WRead events errors else WWait)"

datatype probe_phase = PFirst | PTicking | PStopped

record src_state =
  sr_source :: LogSource
  sr_canceled :: bool
  sr_watch :: we_phase
  sr_watchBackoff :: duration
  sr_probe :: probe_phase
  sr_loops :: "(string, rc_state) gomap"
  sr_obs :: "source_obs list"

definition source_Run :: "LogSource \<Rightarrow> src_state" where
  "source_Run s = \<lparr>sr_source = s, sr_canceled = False, sr_watch = WHead, sr_watchBackoff = ls_initial s,
     sr_probe = PFirst, sr_loops = map (\<lambda>name. (name, rc_start s)) (ls_containers s), sr_obs = []\<rparr>"

definition sr_token :: "string \<Rightarrow> src_state \<Rightarrow> bool" where
  "sr_token name st = (gm_get (ls_wakes (sr_source st)) name = Some True)"

definition probe_once :: "string + Container list \<Rightarrow> src_state \<Rightarrow> src_state" where
  "probe_once listed st =
     (case listed of
        Inl _ \<Rightarrow> st
      | Inr _ \<Rightarrow> st\<lparr>sr_obs := sr_obs st @ [ObsDockerAvailable]\<rparr>)"

text \<open>What the attach loop of a container changes: its own state, its channel, the observer.\<close>

definition rc_joined :: "string \<Rightarrow> rc_state \<Rightarrow> rc_state \<Rightarrow> src_state \<Rightarrow> src_state" where
  "rc_joined name rc rc' st =
     st\<lparr>sr_loops := gm_set name rc' (sr_loops st),
        sr_source := (sr_source st)\<lparr>ls_wakes := gm_set name (rc_token rc') (ls_wakes (sr_source st))\<rparr>,
        sr_obs := sr_obs st @ drop (length (rc_obs rc)) (rc_obs rc')\<rparr>"

definition rc_cancels :: "rc_label \<Rightarrow> bool" where
  "rc_cancels l \<longleftrightarrow> l = RcCanceled \<or> l = RcWait WaitCanceled \<or> l = RcStream StreamCanceled"

definition rc_own :: "rc_label \<Rightarrow> bool" where
  "rc_own l = (case l of RcEvent _ \<Rightarrow> False | _ \<Rightarrow> True)"

datatype src_label =
    SrCancel
  | SrWatchStop | SrSubscribe | SrEvent docker_Event | SrEventsClosed | SrError | SrErrorsClosed | SrWatchTimer
  | SrProbe "string + Container list" | SrProbeStop
  | SrLoop string rc_label

text \<open>
  The goroutines. A step that leaves a goroutine because of the context needs the context to
  be cancelled; every other step may still be taken, because the context may be cancelled
  between a check and what follows it.
\<close>

inductive src_step :: "src_label \<Rightarrow> src_state \<Rightarrow> src_state \<Rightarrow> bool" where
  cancel: "src_step SrCancel st (st\<lparr>sr_canceled := True\<rparr>)"
| watch_stop: "sr_canceled st \<Longrightarrow> sr_watch st \<noteq> WStopped \<Longrightarrow> src_step SrWatchStop st (st\<lparr>sr_watch := WStopped\<rparr>)"
| subscribe: "sr_watch st = WHead \<Longrightarrow> src_step SrSubscribe st (st\<lparr>sr_watch := WRead True True\<rparr>)"
| watch_read: "sr_watch st = WRead True errors \<Longrightarrow>
    src_step (SrEvent ev) st (st\<lparr>sr_source := watch_event ev (sr_source st)\<rparr>)"
| events_closed: "sr_watch st = WRead True errors \<Longrightarrow>
    src_step SrEventsClosed st (st\<lparr>sr_watch := we_reading False errors\<rparr>)"
| error_read: "sr_watch st = WRead events True \<Longrightarrow> src_step SrError st st"
| errors_closed: "sr_watch st = WRead events True \<Longrightarrow>
    src_step SrErrorsClosed st (st\<lparr>sr_watch := we_reading events False\<rparr>)"
| watch_timer: "sr_watch st = WWait \<Longrightarrow>
    src_step SrWatchTimer st (st\<lparr>sr_watch := WHead,
      sr_watchBackoff := nextBackoff (sr_watchBackoff st) (ls_max (sr_source st))\<rparr>)"
| probed: "sr_probe st \<noteq> PStopped \<Longrightarrow> src_step (SrProbe listed) st ((probe_once listed st)\<lparr>sr_probe := PTicking\<rparr>)"
| probe_stop: "sr_canceled st \<Longrightarrow> sr_probe st = PTicking \<Longrightarrow> src_step SrProbeStop st (st\<lparr>sr_probe := PStopped\<rparr>)"
| loop: "gm_get (sr_loops st) name = Some rc \<Longrightarrow> rc_own l \<Longrightarrow> rc_cancels l \<longrightarrow> sr_canceled st \<Longrightarrow>
    rc_step (sr_source st) name l (rc\<lparr>rc_token := sr_token name st\<rparr>) rc' \<Longrightarrow>
    src_step (SrLoop name l) st (rc_joined name rc rc' st)"

inductive_cases src_stepE: "src_step l st st'"

text \<open>\<open>workers.Wait\<close> returns when every goroutine has.\<close>

definition sr_done :: "src_state \<Rightarrow> bool" where
  "sr_done st \<longleftrightarrow> sr_watch st = WStopped \<and> sr_probe st = PStopped
     \<and> (\<forall>(name, rc) \<in> set (sr_loops st). rc_phase rc = RStopped)"


section \<open>Projection to one container\<close>

text \<open>The labels of a run that concern a container, and the state of its loop.\<close>

fun projected :: "string \<Rightarrow> src_label \<Rightarrow> rc_label option" where
  "projected name (SrLoop n l) = (if n = name then Some l else None)"
| "projected name (SrEvent ev) = Some (RcEvent ev)"
| "projected name _ = None"

definition sr_view :: "string \<Rightarrow> src_state \<Rightarrow> rc_state option" where
  "sr_view name st = map_option (\<lambda>rc. rc\<lparr>rc_token := sr_token name st\<rparr>) (gm_get (sr_loops st) name)"

definition about :: "string \<Rightarrow> source_obs \<Rightarrow> bool" where
  "about name ob \<longleftrightarrow> (\<exists>i a. ob = ObsAttached name i a) \<or> ob = ObsReconnect name"

text \<open>Only the two delays of the source matter to the attach loop.\<close>

lemma rc_step_source:
  assumes "rc_step s name l st st'" and "ls_initial s = ls_initial s'" and "ls_max s = ls_max s'"
  shows "rc_step s' name l st st'"
proof -
  have "rc_discover s = rc_discover s'" "rc_wait s = rc_wait s'"
    by (intro ext, simp only: rc_discover_def rc_wait_def assms(2,3))+
  with assms(1) show ?thesis
    by (cases rule: rc_step.cases) (auto intro: rc_step.intros)
qed

text \<open>An attach loop only adds observations, of its own container.\<close>

lemma rc_step_obs:
  assumes "rc_step s name l st st'"
  shows "\<exists>obs. rc_obs st' = rc_obs st @ obs
    \<and> (\<forall>ob \<in> set obs. about name ob \<or> ob = ObsDockerAvailable)"
  using assms
  by (cases rule: rc_step.cases)
     (auto simp: rc_discover_def rc_wait_def rc_stream_end_def rc_tell_def Let_def about_def
        split: sum.splits wait_end.splits stream_end.splits)

lemma source_frame:
  assumes "src_step l st st'"
  shows "ls_initial (sr_source st') = ls_initial (sr_source st)" and "ls_max (sr_source st') = ls_max (sr_source st)"
    and "ls_containers (sr_source st') = ls_containers (sr_source st)"
  using assms
  by (induction rule: src_step.induct)
     (auto simp: rc_joined_def watch_event_def wake_def probe_once_def split: option.splits sum.splits)

lemma sr_token_joined:
  "sr_token n (rc_joined name rc rc' st) = (if n = name then rc_token rc' else sr_token n st)"
  by (simp add: sr_token_def rc_joined_def gm_get_set)

text \<open>Every step is a step of the loop of a container, or leaves its view unchanged.\<close>

lemma view_step:
  assumes "src_step l st st'" and "sr_view name st = Some rc"
    and "gm_get (ls_wakes (sr_source st)) name \<noteq> None"
  shows "\<exists>rc'. sr_view name st' = Some rc' \<and> gm_get (ls_wakes (sr_source st')) name \<noteq> None
    \<and> (case projected name l of None \<Rightarrow> rc' = rc | Some l' \<Rightarrow> rc_step (sr_source st) name l' rc rc')"
  using assms(1)
proof (cases rule: src_step.cases)
  case (watch_read errors ev)
  have "sr_token name st' = (sr_token name st \<or> isLifecycleAction (de_Action ev) \<and> normalizeName (de_Name ev) = name)"
    using watch_read assms(3) by (auto simp: sr_token_def watch_event_token)
  then have "sr_view name st' = Some (rc\<lparr>rc_token := rc_token rc
      \<or> isLifecycleAction (de_Action ev) \<and> normalizeName (de_Name ev) = name\<rparr>)"
    using assms(2) watch_read by (auto simp: sr_view_def)
  then show ?thesis
    using watch_read assms(3) rc_step.event [of "sr_source st" name ev rc]
    by (simp add: watch_event_token)
next
  case (loop n rc0 l' rc0')
  then show ?thesis
    using assms(2,3)
    by (auto simp: sr_view_def sr_token_joined) (auto simp: rc_joined_def gm_get_set)
qed (use assms(2,3) in \<open>auto simp: sr_view_def sr_token_def probe_once_def split: sum.splits\<close>)

lemma obs_step:
  assumes "src_step l st st'" and "sr_view name st = Some rc" and "sr_view name st' = Some rc'"
    and "filter (about name) (sr_obs st) = filter (about name) (rc_obs rc)"
  shows "filter (about name) (sr_obs st') = filter (about name) (rc_obs rc')"
  using assms(1)
proof (cases rule: src_step.cases)
  case (loop n rc0 l' rc0')
  obtain obs where obs: "rc_obs rc0' = rc_obs rc0 @ obs" "\<forall>ob \<in> set obs. about n ob \<or> ob = ObsDockerAvailable"
    using rc_step_obs [OF loop(6)] by auto
  have "filter (about name) (sr_obs st') = filter (about name) (sr_obs st) @ filter (about name) obs"
    using loop(2) obs(1) by (simp add: rc_joined_def)
  moreover have "filter (about name) obs = []" if "n \<noteq> name"
    using obs(2) that by (auto simp: filter_empty_conv about_def)
  ultimately show ?thesis
    using assms(2-4) loop(2,3) obs(1)
    by (auto simp: sr_view_def) (auto simp: rc_joined_def gm_get_set split: if_splits)
qed (use assms(2-4) in \<open>auto simp: sr_view_def about_def probe_once_def split: sum.splits\<close>)

lemma source_Run_view:
  assumes "docker_New hasAPI containers hasOutput starts initial maximum probe = Inr s"
    and "name \<in> set (ls_containers s)"
  shows "sr_view name (source_Run s) = Some (rc_start s)" and "gm_get (ls_wakes s) name = Some False"
proof -
  show wakes: "gm_get (ls_wakes s) name = Some False" using docker_New_ok(6) [OF assms(1)] assms(2) by simp
  have "gm_get (map (\<lambda>n. (n, rc_start s)) ns) name = Some (rc_start s)" if "name \<in> set ns" for ns
    using that by (induction ns) auto
  with assms(2) wakes show "sr_view name (source_Run s) = Some (rc_start s)"
    by (simp add: sr_view_def source_Run_def sr_token_def) (simp add: rc_start_def)
qed

text \<open>The source simulates the attach loop of every configured container.\<close>

lemma source_simulates:
  assumes "docker_New hasAPI containers hasOutput starts initial maximum probe = Inr s"
    and "run src_step (source_Run s) ls st" and "name \<in> set (ls_containers s)"
  shows "\<exists>rc. sr_view name st = Some rc \<and> run (rc_step s name) (rc_start s) (List.map_filter (projected name) ls) rc
    \<and> filter (about name) (sr_obs st) = filter (about name) (rc_obs rc)
    \<and> gm_get (ls_wakes (sr_source st)) name \<noteq> None
    \<and> ls_initial (sr_source st) = ls_initial s \<and> ls_max (sr_source st) = ls_max s"
  using assms(2)
proof (induction rule: run.induct)
  case run_start
  then show ?case
    using source_Run_view [OF assms(1,3)]
    by (intro exI [of _ "rc_start s"])
       (simp add: map_filter_simps run.run_start, simp add: source_Run_def rc_start_def, blast)
next
  case (run_step ls st l st')
  then obtain rc where rc: "sr_view name st = Some rc" "gm_get (ls_wakes (sr_source st)) name \<noteq> None"
    "run (rc_step s name) (rc_start s) (List.map_filter (projected name) ls) rc"
    "filter (about name) (sr_obs st) = filter (about name) (rc_obs rc)"
    "ls_initial (sr_source st) = ls_initial s" "ls_max (sr_source st) = ls_max s" by blast
  from view_step [OF run_step.hyps(2) rc(1,2)] obtain rc' where rc': "sr_view name st' = Some rc'"
    "gm_get (ls_wakes (sr_source st')) name \<noteq> None"
    "case projected name l of None \<Rightarrow> rc' = rc | Some l' \<Rightarrow> rc_step (sr_source st) name l' rc rc'" by blast
  have "run (rc_step s name) (rc_start s) (List.map_filter (projected name) (ls @ [l])) rc'"
    using rc(3) rc'(3) rc_step_source [OF _ rc(5,6)]
    by (auto simp: map_filter_def split: option.splits intro: run.run_step)
  then show ?case
    using rc' obs_step [OF run_step.hyps(2) rc(1) rc'(1) rc(4)] source_frame [OF run_step.hyps(2)] rc(5,6)
    by auto
qed

text \<open>The observations of an attach loop are about its container or about the daemon.\<close>

lemma rc_run_obs:
  assumes "run (rc_step s name) (rc_start s) ls rc"
  shows "\<forall>ob \<in> set (rc_obs rc). about name ob \<or> ob = ObsDockerAvailable"
  using assms
proof (induction rule: run.induct)
  case (run_step ls st l st')
  from rc_step_obs [OF run_step.hyps(2)] run_step.IH show ?case by auto
qed (simp add: rc_start_def)

lemma about_filter:
  assumes "\<forall>ob \<in> set obs. about name ob \<or> ob = ObsDockerAvailable"
  shows "attach_ok a (filter (about name) obs) = attach_ok a obs"
    and "attach_now a (filter (about name) obs) = attach_now a obs"
    and "losses once (filter (about name) obs) = losses once obs"
    and "filter is_reconnect (filter (about name) obs) = filter is_reconnect obs"
proof -
  have "\<not> is_reconnect ObsDockerAvailable" "\<not> about name ObsDockerAvailable"
    by (auto simp: is_reconnect_def about_def)
  note simps = this
  show "attach_ok a (filter (about name) obs) = attach_ok a obs"
    using assms simps by (induction a obs rule: attach_ok.induct) auto
  show "attach_now a (filter (about name) obs) = attach_now a obs"
    using assms simps by (induction a obs rule: attach_now.induct) auto
  show "losses once (filter (about name) obs) = losses once obs"
    using assms simps by (induction once obs rule: losses.induct) auto
  show "filter is_reconnect (filter (about name) obs) = filter is_reconnect obs"
    using assms simps by (induction obs) auto
qed

text \<open>Nothing else is observed, and the watcher ends only with the context.\<close>

lemma loop_names:
  assumes "src_step l st st'"
  shows "fst ` set (sr_loops st') = fst ` set (sr_loops st)" and "gm_wf (sr_loops st) \<Longrightarrow> gm_wf (sr_loops st')"
    and "fst ` set (sr_loops st) = N \<Longrightarrow>
      (\<forall>ob \<in> set (sr_obs st). ob = ObsDockerAvailable \<or> (\<exists>n \<in> N. about n ob)) \<Longrightarrow>
      \<forall>ob \<in> set (sr_obs st'). ob = ObsDockerAvailable \<or> (\<exists>n \<in> N. about n ob)"
    and "(sr_watch st = WStopped \<longrightarrow> sr_canceled st) \<Longrightarrow> sr_watch st' = WStopped \<longrightarrow> sr_canceled st'"
proof -
  have key: "name \<in> fst ` set (sr_loops st)" if "gm_get (sr_loops st) name = Some rc" for name rc
    using that gm_get_None [of "sr_loops st" name] by auto
  show names: "fst ` set (sr_loops st') = fst ` set (sr_loops st)"
    using assms key
    by (cases rule: src_step.cases) (auto simp: rc_joined_def gm_keys_set probe_once_def split: sum.splits)
  show "gm_wf (sr_loops st) \<Longrightarrow> gm_wf (sr_loops st')"
    using assms by (cases rule: src_step.cases) (auto simp: rc_joined_def probe_once_def split: sum.splits)
  show "fst ` set (sr_loops st) = N \<Longrightarrow>
      (\<forall>ob \<in> set (sr_obs st). ob = ObsDockerAvailable \<or> (\<exists>n \<in> N. about n ob)) \<Longrightarrow>
      \<forall>ob \<in> set (sr_obs st'). ob = ObsDockerAvailable \<or> (\<exists>n \<in> N. about n ob)"
    using assms
  proof (cases rule: src_step.cases)
    case (loop n rc l' rc')
    assume N: "fst ` set (sr_loops st) = N"
      and old: "\<forall>ob \<in> set (sr_obs st). ob = ObsDockerAvailable \<or> (\<exists>n \<in> N. about n ob)"
    obtain obs where "rc_obs rc' = rc_obs rc @ obs" "\<forall>ob \<in> set obs. about n ob \<or> ob = ObsDockerAvailable"
      using rc_step_obs [OF loop(6)] by auto
    with loop(2) old key [OF loop(3)] N show ?thesis by (auto simp: rc_joined_def)
  qed (auto simp: probe_once_def split: sum.splits)
  show "(sr_watch st = WStopped \<longrightarrow> sr_canceled st) \<Longrightarrow> sr_watch st' = WStopped \<longrightarrow> sr_canceled st'"
    using assms by (cases rule: src_step.cases)
      (auto simp: rc_joined_def probe_once_def we_reading_def split: sum.splits)
qed

definition src_inv :: "LogSource \<Rightarrow> src_state \<Rightarrow> bool" where
  "src_inv s st \<longleftrightarrow> gm_wf (sr_loops st) \<and> fst ` set (sr_loops st) = set (ls_containers s)
     \<and> (\<forall>ob \<in> set (sr_obs st). ob = ObsDockerAvailable \<or> (\<exists>n \<in> set (ls_containers s). about n ob))
     \<and> (sr_watch st = WStopped \<longrightarrow> sr_canceled st)"

interpretation source: step_invariant src_step "src_inv s" for s
proof
  fix st l st'
  assume inv: "src_inv s st" and step: "src_step l st st'"
  note loop_names [OF step]
  with inv show "src_inv s st'" unfolding src_inv_def by simp
qed

lemma src_inv_run:
  assumes "docker_New hasAPI containers hasOutput starts initial maximum probe = Inr s"
    and "run src_step (source_Run s) ls st"
  shows "src_inv s st"
proof (rule source.run_keeps [OF assms(2)])
  show "src_inv s (source_Run s)"
    using docker_New_ok(4) [OF assms(1)] by (auto simp: src_inv_def source_Run_def comp_def image_image)
qed

subsection \<open>Stopping\<close>

definition rc_stopped :: "string \<Rightarrow> src_state \<Rightarrow> bool" where
  "rc_stopped name st \<longleftrightarrow> (\<exists>rc. gm_get (sr_loops st) name = Some rc \<and> rc_phase rc = RStopped)"

fun stop_label :: "rc_phase \<Rightarrow> rc_label" where
  "stop_label RWait = RcWait WaitCanceled"
| "stop_label (RStream _) = RcStream StreamCanceled"
| "stop_label _ = RcCanceled"

lemma loop_can_stop:
  assumes "sr_canceled st" and "gm_get (sr_loops st) name = Some rc" and "rc_phase rc \<noteq> RStopped"
  shows "\<exists>rc'. src_step (SrLoop name (stop_label (rc_phase rc))) st (rc_joined name rc rc' st)
    \<and> rc_phase rc' = RStopped \<and> rc_obs rc' = rc_obs rc"
proof -
  let ?rc = "rc\<lparr>rc_token := sr_token name st\<rparr>" and ?l = "stop_label (rc_phase rc)"
  have own: "rc_own ?l" by (cases "rc_phase rc") (simp_all add: rc_own_def)
  have "rc_step (sr_source st) name ?l ?rc (?rc\<lparr>rc_phase := RStopped\<rparr>)"
  proof (cases "rc_phase rc")
    case RDiscover
    then show ?thesis using rc_step.canceled [of ?rc] by simp
  next
    case RWait
    then show ?thesis using rc_step.waited [of ?rc WaitCanceled] by (simp add: rc_wait_def)
  next
    case (RStream c)
    then show ?thesis using rc_step.streamed [of ?rc c StreamCanceled] by (simp add: rc_stream_end_def)
  qed (use assms(3) in simp)
  from src_step.loop [OF assms(2) own _ this] assms(1) show ?thesis
    by (intro exI [of _ "?rc\<lparr>rc_phase := RStopped\<rparr>"]) simp
qed

lemma loops_stop:
  assumes "sr_canceled st" and "set names \<subseteq> fst ` set (sr_loops st)"
  shows "\<exists>ls st'. run src_step st ls st' \<and> length ls \<le> length names \<and> (\<forall>n \<in> set names. rc_stopped n st')
    \<and> (\<forall>n. rc_stopped n st \<longrightarrow> rc_stopped n st')
    \<and> sr_canceled st' \<and> sr_watch st' = sr_watch st \<and> sr_probe st' = sr_probe st"
  using assms
proof (induction names arbitrary: st)
  case Nil
  then show ?case by (intro exI [of _ "[]"] exI [of _ st]) (simp add: run_start)
next
  case (Cons n names)
  then obtain rc where rc: "gm_get (sr_loops st) n = Some rc"
    using gm_get_None [of "sr_loops st" n] by (cases "gm_get (sr_loops st) n") auto
  show ?case
  proof (cases "rc_phase rc = RStopped")
    case True
    then have "rc_stopped n st" using rc by (simp add: rc_stopped_def)
    with Cons.IH [of st] Cons.prems show ?thesis by fastforce
  next
    case False
    from loop_can_stop [OF Cons.prems(1) rc False] obtain l rc' where
      step: "src_step (SrLoop n l) st (rc_joined n rc rc' st)" and stop: "rc_phase rc' = RStopped" by blast
    let ?st = "rc_joined n rc rc' st"
    have now: "rc_stopped n ?st" and others: "rc_stopped m st \<Longrightarrow> rc_stopped m ?st" for m
      using stop by (auto simp: rc_stopped_def rc_joined_def gm_get_set)
    have "sr_canceled ?st" "set names \<subseteq> fst ` set (sr_loops ?st)"
      and frame: "sr_watch ?st = sr_watch st" "sr_probe ?st = sr_probe st"
      using Cons.prems by (auto simp: rc_joined_def gm_keys_set)
    from Cons.IH [OF this(1,2)] obtain ls st' where rest: "run src_step ?st ls st'" "length ls \<le> length names"
      "\<forall>n \<in> set names. rc_stopped n st'" "\<forall>n. rc_stopped n ?st \<longrightarrow> rc_stopped n st'"
      "sr_canceled st'" "sr_watch st' = sr_watch ?st" "sr_probe st' = sr_probe ?st" by blast
    show ?thesis
      using rest run_Cons [where step = src_step, OF step rest(1)] now others frame
      by (intro exI [of _ "SrLoop n l # ls"] exI [of _ st']) auto
  qed
qed

lemma helpers_stop:
  assumes "sr_canceled st"
  shows "\<exists>ls st'. run src_step st ls st' \<and> length ls \<le> 3 \<and> sr_watch st' = WStopped \<and> sr_probe st' = PStopped
    \<and> sr_loops st' = sr_loops st \<and> sr_canceled st'"
proof -
  obtain l1 st1 where w: "run src_step st l1 st1" "length l1 \<le> 1" "sr_watch st1 = WStopped"
    "sr_loops st1 = sr_loops st" "sr_canceled st1" "sr_probe st1 = sr_probe st"
    using assms src_step.watch_stop [OF assms] run_Cons [where step = src_step] run_start [of src_step]
    by (cases "sr_watch st = WStopped") fastforce+
  obtain l2 st2 where p: "run src_step st1 l2 st2" "length l2 \<le> 1" "sr_probe st2 \<noteq> PFirst"
    "sr_watch st2 = WStopped" "sr_loops st2 = sr_loops st" "sr_canceled st2"
    using w(3-6) src_step.probed [of st1 "Inl []"] run_Cons [where step = src_step] run_start [of src_step]
    by (cases "sr_probe st1") (fastforce simp: probe_once_def)+
  obtain l3 st3 where t: "run src_step st2 l3 st3" "length l3 \<le> 1" "sr_probe st3 = PStopped"
    "sr_watch st3 = WStopped" "sr_loops st3 = sr_loops st" "sr_canceled st3"
    using p(3-6) src_step.probe_stop [of st2] run_Cons [where step = src_step] run_start [of src_step]
    by (cases "sr_probe st2") fastforce+
  show ?thesis
    using run_trans [OF t(1) run_trans [OF p(1) w(1)]] w(2) p(2) t
    by (intro exI [of _ "(l1 @ l2) @ l3"] exI [of _ st3]) simp
qed

section \<open>Properties\<close>

text \<open>
  C10. The goroutines of the source share the daemon, the wake channels and the observer, and
  still keep the protocol of every container. In every interleaving, what the observer is told
  about a configured container is a well-formed alternation of attached and detached, which
  agrees with what its loop is doing, with one reconnect for every loss after the first
  attachment; and nothing is reported about any other container. The loop of each container
  behaves as it would alone, with the lifecycle events that the watcher read.\<close>

theorem source_protocol:
  assumes "docker_New hasAPI containers hasOutput starts initial maximum probe = Inr s"
    and "run src_step (source_Run s) ls st"
  shows "(\<forall>name \<in> set (ls_containers s). \<exists>rc. sr_view name st = Some rc
      \<and> run (rc_step s name) (rc_start s) (List.map_filter (projected name) ls) rc
      \<and> (let obs = filter (about name) (sr_obs st) in attach_ok None obs
        \<and> (rc_phase rc \<noteq> RStopped \<longrightarrow>
            attach_now None obs = (case rc_phase rc of RStream c \<Rightarrow> Some (dc_ID c) | _ \<Rightarrow> None))
        \<and> length (filter is_reconnect obs) = losses False obs))
    \<and> (\<forall>ob \<in> set (sr_obs st). ob = ObsDockerAvailable \<or> (\<exists>name \<in> set (ls_containers s). about name ob))"
proof (intro conjI ballI)
  fix name
  assume "name \<in> set (ls_containers s)"
  from source_simulates [OF assms this] obtain rc where rc: "sr_view name st = Some rc"
    "run (rc_step s name) (rc_start s) (List.map_filter (projected name) ls) rc"
    "filter (about name) (sr_obs st) = filter (about name) (rc_obs rc)" by blast
  have "rc_inv s rc"
    using docker_New_ok(1,2) [OF assms(1)] by (intro reconnect.run_keeps [OF rc(2)]) (simp add: rc_inv_def rc_start_def)
  with rc about_filter [OF rc_run_obs [OF rc(2)]] show "\<exists>rc. sr_view name st = Some rc
      \<and> run (rc_step s name) (rc_start s) (List.map_filter (projected name) ls) rc
      \<and> (let obs = filter (about name) (sr_obs st) in attach_ok None obs
        \<and> (rc_phase rc \<noteq> RStopped \<longrightarrow>
            attach_now None obs = (case rc_phase rc of RStream c \<Rightarrow> Some (dc_ID c) | _ \<Rightarrow> None))
        \<and> length (filter is_reconnect obs) = losses False obs)"
    by (intro exI [of _ rc]) (auto simp: rc_inv_def Let_def split: rc_phase.splits)
qed (use src_inv_run [OF assms] in \<open>auto simp: src_inv_def\<close>)

text \<open>
  C25. \<open>Run\<close> returns only after its context was cancelled, and then it can always return: from
  every reachable state with a cancelled context, at most three steps and one for each
  container end every goroutine.\<close>

theorem source_Run_stops:
  assumes "docker_New hasAPI containers hasOutput starts initial maximum probe = Inr s"
    and "run src_step (source_Run s) ls st"
  shows "(sr_done st \<longrightarrow> sr_canceled st)
    \<and> (sr_canceled st \<longrightarrow> (\<exists>ls' st'. run src_step st ls' st' \<and> length ls' \<le> length (ls_containers s) + 3 \<and> sr_done st'))"
proof (intro conjI impI)
  have inv: "src_inv s st" by (rule src_inv_run [OF assms])
  show "sr_canceled st" if "sr_done st" using inv that by (simp add: src_inv_def sr_done_def)
  assume canceled: "sr_canceled st"
  from helpers_stop [OF this] obtain l1 st1 where h: "run src_step st l1 st1" "length l1 \<le> 3"
    "sr_watch st1 = WStopped" "sr_probe st1 = PStopped" "sr_loops st1 = sr_loops st" "sr_canceled st1" by blast
  have "set (ls_containers s) \<subseteq> fst ` set (sr_loops st1)" using inv h(5) by (simp add: src_inv_def)
  from loops_stop [OF h(6) this] obtain l2 st2 where l: "run src_step st1 l2 st2"
    "length l2 \<le> length (ls_containers s)" "\<forall>n \<in> set (ls_containers s). rc_stopped n st2"
    "sr_watch st2 = sr_watch st1" "sr_probe st2 = sr_probe st1" by blast
  note all = run_trans [OF l(1) h(1)]
  have inv2: "gm_wf (sr_loops st2)" "fst ` set (sr_loops st2) = set (ls_containers s)"
    using source.run_keeps [OF all inv] by (simp_all add: src_inv_def)
  have "rc_phase rc = RStopped" if "(n, rc) \<in> set (sr_loops st2)" for n rc
  proof -
    have "n \<in> set (ls_containers s)" using that inv2(2) by force
    then show ?thesis using l(3) map_of_is_SomeI [OF inv2(1) that] by (auto simp: rc_stopped_def)
  qed
  then have "sr_done st2" using l(4,5) h(3,4) by (auto simp: sr_done_def)
  with all h(2) l(2) show "\<exists>ls' st'. run src_step st ls' st' \<and> length ls' \<le> length (ls_containers s) + 3 \<and> sr_done st'"
    by (intro exI [of _ "l1 @ l2"] exI [of _ st2]) simp
qed

text \<open>
  The watcher subscribes again only after both channels of a subscription were closed and its
  delay is over; an error value alone never ends a subscription. So when the daemon's stream
  breaks and only the error channel is closed, no later lifecycle event is ever read. The
  delay grows with every subscription and is not reset by one that works.
\<close>

lemma watch_step:
  assumes "src_step l st st'" and "sr_watch st = WRead True errors" and "l \<noteq> SrEventsClosed"
  shows "\<exists>errors'. sr_watch st' = WRead True errors' \<or> sr_watch st' = WStopped"
  using assms
  by (cases rule: src_step.cases) (auto simp: rc_joined_def we_reading_def probe_once_def split: sum.splits)

lemma watch_stopped: "src_step l st st' \<Longrightarrow> sr_watch st = WStopped \<Longrightarrow> sr_watch st' = WStopped"
  by (cases rule: src_step.cases) (auto simp: rc_joined_def probe_once_def split: sum.splits)

lemma watch_stuck:
  assumes "run src_step st ls st'" and "sr_watch st = WRead True errors" and "SrEventsClosed \<notin> set ls"
  shows "SrSubscribe \<notin> set ls \<and> ((\<exists>errors'. sr_watch st' = WRead True errors') \<or> sr_watch st' = WStopped)"
  using assms
proof (induction rule: run.induct)
  case (run_step ls st1 l st2)
  then have IH: "SrSubscribe \<notin> set ls" "(\<exists>errors'. sr_watch st1 = WRead True errors') \<or> sr_watch st1 = WStopped" by auto
  have "l \<noteq> SrSubscribe"
    using run_step.hyps(2) IH(2) by (auto elim: src_stepE)
  then show ?case
    using IH watch_step [OF run_step.hyps(2)] watch_stopped [OF run_step.hyps(2)] run_step.prems by auto
qed simp


section \<open>Witnesses\<close>

lemma example_source_run:
  "\<exists>st. run src_step (source_Run example_source)
      [SrSubscribe, SrProbe (Inr []), SrLoop ''graph-node'' (RcDiscover (Inr [example_container]) (\<lambda>_. Inr example_container)),
       SrCancel] st
    \<and> sr_canceled st \<and> sr_obs st = [ObsDockerAvailable, ObsDockerAvailable, ObsAttached ''graph-node'' ''c1'' True]"
proof -
  let ?st0 = "source_Run example_source"
  let ?st1 = "?st0\<lparr>sr_watch := WRead True True\<rparr>"
  let ?st2 = "(probe_once (Inr []) ?st1)\<lparr>sr_probe := PTicking\<rparr>"
  let ?rc = "rc_start example_source"
  let ?rc' = "rc_discover example_source ''graph-node'' (Inr [example_container]) (\<lambda>_. Inr example_container) ?rc"
  let ?st3 = "rc_joined ''graph-node'' ?rc ?rc' ?st2"
  have name: "hasName (dc_Names example_container) ''graph-node''" by code_simp
  have token: "?rc\<lparr>rc_token := sr_token ''graph-node'' ?st2\<rparr> = ?rc"
    by (simp add: sr_token_def source_Run_def probe_once_def example_source_def rc_start_def)
  have src: "sr_source ?st2 = example_source" by (simp add: source_Run_def probe_once_def)
  have "src_step SrSubscribe ?st0 ?st1" by (rule src_step.subscribe) (simp add: source_Run_def)
  moreover have "src_step (SrProbe (Inr [])) ?st1 ?st2" by (rule src_step.probed) (simp add: source_Run_def)
  moreover have "src_step (SrLoop ''graph-node'' (RcDiscover (Inr [example_container]) (\<lambda>_. Inr example_container))) ?st2 ?st3"
  proof (rule src_step.loop)
    show "gm_get (sr_loops ?st2) ''graph-node'' = Some ?rc"
      by (simp add: source_Run_def probe_once_def) (simp add: example_source_def)
    show "rc_step (sr_source ?st2) ''graph-node'' (RcDiscover (Inr [example_container]) (\<lambda>_. Inr example_container))
        (?rc\<lparr>rc_token := sr_token ''graph-node'' ?st2\<rparr>) ?rc'"
      unfolding token src by (rule rc_step.discovered) (simp add: rc_start_def)
  qed (simp_all add: rc_own_def rc_cancels_def)
  moreover have "src_step SrCancel ?st3 (?st3\<lparr>sr_canceled := True\<rparr>)" by (rule src_step.cancel)
  ultimately have "run src_step ?st0 [SrSubscribe, SrProbe (Inr []),
      SrLoop ''graph-node'' (RcDiscover (Inr [example_container]) (\<lambda>_. Inr example_container)), SrCancel] (?st3\<lparr>sr_canceled := True\<rparr>)"
    by (blast intro: run_Cons run_start)
  moreover have "sr_obs ?st3 = [ObsDockerAvailable, ObsDockerAvailable, ObsAttached ''graph-node'' ''c1'' True]"
    using name by (simp add: rc_joined_def probe_once_def source_Run_def rc_discover_def discover_def rc_start_def
        rc_tell_def) (simp add: example_container_def)
  ultimately show ?thesis by (intro exI [of _ "?st3\<lparr>sr_canceled := True\<rparr>"]) simp
qed

theorem source_protocol_witness:
  "\<exists>st ls. run src_step (source_Run example_source) ls st \<and> (SrProbe (Inr []) \<in> set ls)
    \<and> (\<exists>rc :: rc_state. sr_view ''graph-node'' st = Some rc
        \<and> run (rc_step example_source ''graph-node'') (rc_start example_source) (List.map_filter (projected ''graph-node'') ls) rc)
    \<and> attach_ok None (filter (about ''graph-node'') (sr_obs st))"
proof -
  obtain st where st: "run src_step (source_Run example_source)
      [SrSubscribe, SrProbe (Inr []), SrLoop ''graph-node'' (RcDiscover (Inr [example_container]) (\<lambda>_. Inr example_container)),
       SrCancel] st"
    using example_source_run by blast
  have "''graph-node'' \<in> set (ls_containers example_source)" by (simp add: example_source_def)
  with source_protocol [OF example_source_New st] st show ?thesis
    by (intro exI [of _ st] exI) (auto simp: Let_def)
qed

theorem source_Run_stops_witness:
  "\<exists>ls st. run src_step (source_Run example_source) ls st \<and> sr_done st"
proof -
  from example_source_run obtain ls st where st: "run src_step (source_Run example_source) ls st" "sr_canceled st" by blast
  with source_Run_stops [OF example_source_New st(1)] obtain ls' st' where "run src_step st ls' st'" "sr_done st'" by blast
  with run_trans [OF this(1) st(1)] show ?thesis by blast
qed

end
