(* ===== verification/Lifecycle.thy ===== *)
theory Lifecycle
  imports Runtime Docker_Run
begin

text \<open>
  The life of the service (\<open>Run\<close> in \<open>internal/runtime/runtime.go\<close>): building the parts and
  releasing them again when a later one fails, the main loop, the drain, and the shutdown
  sequence. The goroutines of the processor, the notification worker, the flush loop of the
  store and the callbacks of the Docker source run beside the main goroutine; one step of the
  relation is one critical section or one case of a \<open>select\<close>, and every interleaving is a run.
  The Prometheus counters are left out.
\<close>

section \<open>Starting\<close>

text \<open>
  What \<open>Run\<close> acquires while it starts and releases when the start fails, deferred calls included, in
  the order of the calls. The goroutines of the source are started after that; what the shutdown
  releases are effects of the steps below.
\<close>

datatype resource = ResStore | ResWorker | ResProcessor | ResServer | ResAPI

datatype act = Acquire resource | Release resource

datatype start_error =
    StartStore ckpt_error | StartBuild build_error | StartNotifier notifier_error
  | StartProcessor processor_error | StartClient string | StartSource source_error

datatype run_error =
    RunProcess processor_error | RunHTTP string | RunSource string | RunDrainExpired
  | RunCheckpoint ckpt_error | RunNotifierExpired | RunServer string

datatype run_phase =
    Running | Draining bool bool | ProcessorClosing | WorkerClosing bool | Tail | Returned

record 're run_state =
  ru_rn :: "'re Runtime"
  ru_worker :: "Worker option"
  ru_phase :: run_phase
  ru_err :: "run_error list"

definition ru_start :: "'re Runtime \<Rightarrow> Worker option \<Rightarrow> 're run_state" where
  "ru_start rn worker = \<lparr>ru_rn = rn, ru_worker = worker, ru_phase = Running, ru_err = []\<rparr>"

text \<open>
  \<open>openErr\<close>, \<open>fmtErr\<close> and \<open>clientErr\<close> are the errors of the database file, of the upstream
  formatter and of the Docker client, \<open>now\<close> the clock. In a dry run there is no worker. The half of
  the interval is only used when it is positive, where the quotients of Go and HOL agree.
\<close>

definition runtime_start ::
  "'re regex_lib \<Rightarrow> io \<Rightarrow> string option \<Rightarrow> string option \<Rightarrow> gotime \<Rightarrow> (string, string) gomap \<Rightarrow> Config \<Rightarrow> bool
     \<Rightarrow> (start_error + 're run_state \<times> LogSource) \<times> act list" where
  "runtime_start R openErr fmtErr clientErr now db cfg dry =
     (let health = NewHealth now (cf_Containers cfg) (hc_DockerUnavailableAfter (cf_Health cfg))
                     (hc_AllContainersDetachedAfter (cf_Health cfg))
      in case ckpt_Open openErr db (ck_Path (cf_Checkpoint cfg)) (ck_FlushInterval (cf_Checkpoint cfg))
                (ck_FlushEvents (cf_Checkpoint cfg)) of
        Inl e \<Rightarrow> (Inl (StartStore e), [])
      | Inr store \<Rightarrow>
     (let acts = [Acquire ResStore]; deferred = [Release ResStore] in
      case buildPipelineParts R cfg of
        Inl e \<Rightarrow> (Inl (StartBuild e), acts @ deferred)
      | Inr (redactor, compiled, gate, contexts, agg) \<Rightarrow>
     (case (if dry then Inr None else map_sum id (\<lambda>nw. Some (snd nw)) (buildNotifier fmtErr cfg)) of
        Inl e \<Rightarrow> (Inl (StartNotifier e), acts @ deferred)
      | Inr worker \<Rightarrow>
     (let acts = acts @ (if worker = None then [] else [Acquire ResWorker]);
          closeWorker = (if worker = None then [] else [Release ResWorker]) in
      case processor_New (Some Parse) (Some redactor) (Some contexts) gate (NewEngine compiled) (Some agg)
             (Some []) (Some []) of
        Inl e \<Rightarrow> (Inl (StartProcessor e), acts @ closeWorker @ deferred)
      | Inr p \<Rightarrow>
     (let acts = acts @ [Acquire ResProcessor, Acquire ResServer];
          stop = [Release ResServer, Release ResProcessor] @ closeWorker in
      case clientErr of
        Some e \<Rightarrow> (Inl (StartClient e), acts @ stop @ deferred)
      | None \<Rightarrow>
     (let acts = acts @ [Acquire ResAPI]; deferred = [Release ResAPI] @ deferred;
          after = hc_DockerUnavailableAfter (cf_Health cfg);
          half = after div 2;
          probeInterval = (if half \<le> 0 then after else half) in
      case docker_New True (cf_Containers cfg) True [] 0 0 probeInterval of
        Inl e \<Rightarrow> (Inl (StartSource e), acts @ stop @ deferred)
      | Inr source \<Rightarrow>
          (Inr (ru_start (newRuntime p store health (ck_ReplayOverlap (cf_Checkpoint cfg))
                  (ck_InitialReplayWindow (cf_Checkpoint cfg))) worker, source), acts)))))))"

section \<open>Running and shutting down\<close>

text \<open>The alerts that a step of the processor handed to the sink go to the worker, in order.\<close>

definition handed :: "'re Processor \<Rightarrow> 're Processor \<Rightarrow> Alert list" where
  "handed p p' = drop (length (p_sink p)) (p_sink p')"

definition with_runtime :: "'re Runtime \<Rightarrow> 're run_state \<Rightarrow> 're run_state" where
  "with_runtime rn st =
     st\<lparr>ru_rn := rn,
        ru_worker := map_option (fold worker_Alert (handed (rn_processor (ru_rn st)) (rn_processor rn))) (ru_worker st)\<rparr>"

definition proc_own :: "proc_label \<Rightarrow> bool" where
  "proc_own l = (case l of PTimer _ \<Rightarrow> True | PAwait _ \<Rightarrow> True | PDiscard _ \<Rightarrow> True | _ \<Rightarrow> False)"

definition worker_own :: "worker_label \<Rightarrow> bool" where
  "worker_own l = (case l of WTurn _ \<Rightarrow> True | WSent _ \<Rightarrow> True | WStorm _ _ \<Rightarrow> True | _ \<Rightarrow> False)"

text \<open>\<open>runErr = err\<close> only if there is none yet, and \<open>errors.Join\<close>.\<close>

definition first_err :: "run_error list \<Rightarrow> run_error list \<Rightarrow> run_error list" where
  "first_err old new = (if old = [] then new else old)"

definition proc_err :: "processor_error option \<Rightarrow> run_error list" where
  "proc_err e = (case e of None \<Rightarrow> [] | Some e \<Rightarrow> [RunProcess e])"

definition ckpt_err :: "ckpt_error + unit \<Rightarrow> run_error list" where
  "ckpt_err r = (case r of Inl e \<Rightarrow> [RunCheckpoint e] | Inr _ \<Rightarrow> [])"

definition log_phase :: "run_phase \<Rightarrow> run_error list \<Rightarrow> run_phase" where
  "log_phase phase errs = (if phase = Running \<and> errs \<noteq> [] then Draining True True else phase)"

definition store_flushed :: "'re libs \<Rightarrow> io \<Rightarrow> 're run_state \<Rightarrow> 're run_state" where
  "store_flushed L io st =
     (let (store, flushed) = ckpt_Flush (lb_codec L) io (rn_store (ru_rn st)); rn = ru_rn st
      in st\<lparr>ru_rn := rn\<lparr>rn_store := store,
              rn_health := (if isl flushed then CheckpointOK False (rn_health rn) else rn_health rn)\<rparr>,
            ru_err := ru_err st @ ckpt_err flushed,
            ru_worker := map_option close_queue (ru_worker st),
            ru_phase := WorkerClosing False\<rparr>)"

definition store_closed :: "'re libs \<Rightarrow> string option \<Rightarrow> io \<Rightarrow> io \<Rightarrow> 're run_state \<Rightarrow> 're run_state" where
  "store_closed L serverErr io closeIO st =
     (let (store, closed) = ckpt_Close (lb_codec L) io closeIO (rn_store (ru_rn st))
      in st\<lparr>ru_rn := (ru_rn st)\<lparr>rn_store := store\<rparr>,
            ru_err := ru_err st @ (case serverErr of None \<Rightarrow> [] | Some e \<Rightarrow> [RunServer e]) @ ckpt_err closed,
            ru_phase := Returned\<rparr>)"

datatype ru_label =
    RuProc proc_label | RuWorker worker_label | RuTick io
  | RuDocker gotime | RuAttached io gotime string string bool | RuReplay io gotime string
  | RuLog "nat \<Rightarrow> item_env" RawLog | RuLogsClosed | RuCancel | RuHTTP string
  | RuSourceDone "string option" | RuDrainExpired
  | RuCloseProcessor | RuFlush io | RuWorkerExpired | RuWorkerDone | RuEnd "string option" io io

inductive ru_step :: "'re libs \<Rightarrow> ru_label \<Rightarrow> 're run_state \<Rightarrow> 're run_state \<Rightarrow> bool" for L where
  proc: "ru_phase st \<noteq> Returned \<Longrightarrow> proc_own l \<Longrightarrow>
    proc_step (lb_regex L) (lb_sha L) l (rn_processor (ru_rn st)) p' \<Longrightarrow>
    ru_step L (RuProc l) st (with_runtime ((ru_rn st)\<lparr>rn_processor := p'\<rparr>) st)"
| worker: "ru_phase st \<noteq> Returned \<Longrightarrow> worker_own l \<Longrightarrow> ru_worker st = Some w \<Longrightarrow> worker_step l w w' \<Longrightarrow>
    ru_step L (RuWorker l) st (st\<lparr>ru_worker := Some w'\<rparr>)"
| tick: "ru_phase st \<noteq> Returned \<Longrightarrow> ru_step L (RuTick io) st (st\<lparr>ru_rn := flush_status L io (ru_rn st)\<rparr>)"
| docker: "ru_phase st \<noteq> Returned \<Longrightarrow> ru_step L (RuDocker now) st (st\<lparr>ru_rn := DockerAvailable now (ru_rn st)\<rparr>)"
| attached: "ru_phase st \<noteq> Returned \<Longrightarrow>
    ru_step L (RuAttached io now name cid b) st
      (with_runtime (ContainerAttached (lb_codec L) io now name cid b (ru_rn st)) st)"
| replay: "ru_phase st \<noteq> Returned \<Longrightarrow>
    ru_step L (RuReplay io now name) st (st\<lparr>ru_rn := fst (replayStart (lb_codec L) io now name (ru_rn st))\<rparr>)"
| log: "ru_phase st = Running \<or> ru_phase st = Draining True running \<Longrightarrow>
    processRaw L env raw (ru_rn st) = (rn', e) \<Longrightarrow>
    ru_step L (RuLog env raw) st ((with_runtime rn' st)
      \<lparr>ru_err := first_err (ru_err st) (proc_err e), ru_phase := log_phase (ru_phase st) (proc_err e)\<rparr>)"
| logs_closed_running: "ru_phase st = Running \<Longrightarrow> ru_step L RuLogsClosed st (st\<lparr>ru_phase := Draining True True\<rparr>)"
| logs_closed_draining: "ru_phase st = Draining True running \<Longrightarrow>
    ru_step L RuLogsClosed st (st\<lparr>ru_phase := Draining False running\<rparr>)"
| canceled: "ru_phase st = Running \<Longrightarrow> ru_step L RuCancel st (st\<lparr>ru_phase := Draining True True\<rparr>)"
| http: "ru_phase st = Running \<Longrightarrow>
    ru_step L (RuHTTP e) st (st\<lparr>ru_err := [RunHTTP e], ru_phase := Draining True True\<rparr>)"
| source_done: "ru_phase st = Draining logs True \<Longrightarrow>
    ru_step L (RuSourceDone e) st (st\<lparr>ru_phase := Draining logs False,
      ru_err := first_err (ru_err st) (case e of None \<Rightarrow> [] | Some e \<Rightarrow> [RunSource e])\<rparr>)"
| drain_expired: "ru_phase st = Draining logs running \<Longrightarrow> logs \<or> running \<Longrightarrow>
    ru_step L RuDrainExpired st (st\<lparr>ru_phase := Draining False False, ru_err := ru_err st @ [RunDrainExpired]\<rparr>)"
| close_processor: "ru_phase st = Draining False False \<Longrightarrow>
    ru_step L RuCloseProcessor st ((with_runtime
      ((ru_rn st)\<lparr>rn_processor := processor_Close (rn_processor (ru_rn st))\<rparr>) st)\<lparr>ru_phase := ProcessorClosing\<rparr>)"
| flush: "ru_phase st = ProcessorClosing \<Longrightarrow> p_heap (rn_processor (ru_rn st)) = [] \<Longrightarrow>
    ru_step L (RuFlush io) st (store_flushed L io st)"
| worker_expired: "ru_phase st = WorkerClosing False \<Longrightarrow> ru_worker st = Some w \<Longrightarrow>
    ru_step L RuWorkerExpired st (st\<lparr>ru_worker := Some (cancel_worker w), ru_phase := WorkerClosing True\<rparr>)"
| worker_done: "ru_phase st = WorkerClosing expired \<Longrightarrow> (\<forall>w. ru_worker st = Some w \<longrightarrow> worker_done w) \<Longrightarrow>
    ru_step L RuWorkerDone st (st\<lparr>ru_phase := Tail,
      ru_err := ru_err st @ (if expired then [RunNotifierExpired] else [])\<rparr>)"
| finish: "ru_phase st = Tail \<Longrightarrow> ru_step L (RuEnd serverErr io closeIO) st (store_closed L serverErr io closeIO st)"

inductive_cases ru_stepE: "ru_step L l st st'"

text \<open>The steps that neither the source nor its channel takes part in, apart from the drain timeout.\<close>

definition ru_own :: "ru_label \<Rightarrow> bool" where
  "ru_own l = (case l of RuDocker _ \<Rightarrow> False | RuAttached _ _ _ _ _ \<Rightarrow> False | RuReplay _ _ _ \<Rightarrow> False
     | RuLog _ _ \<Rightarrow> False | RuLogsClosed \<Rightarrow> False | RuSourceDone _ \<Rightarrow> False | RuDrainExpired \<Rightarrow> False | _ \<Rightarrow> True)"

lemma ru_own_simps [simp]:
  "ru_own (RuProc pl)" "ru_own (RuWorker wl)" "ru_own (RuTick io)" "ru_own RuCancel" "ru_own (RuHTTP e)"
  "ru_own RuCloseProcessor" "ru_own (RuFlush io)" "ru_own RuWorkerExpired" "ru_own RuWorkerDone" "ru_own (RuEnd se io io')"
  "\<not> ru_own (RuLog env raw)"
  by (simp_all add: ru_own_def)

section \<open>Resources\<close>

text \<open>The resources that are held after a list of acts; acquiring or releasing one twice is an error.\<close>

fun held :: "act list \<Rightarrow> resource list \<Rightarrow> resource list option" where
  "held [] rs = Some rs"
| "held (Acquire r # as) rs = (if r \<in> set rs then None else held as (r # rs))"
| "held (Release r # as) rs = (if r \<in> set rs then held as (remove1 r rs) else None)"

text \<open>
  When a step of the start fails, everything that was acquired before is released again, each
  resource once and not before it was acquired; when the start succeeds, what it holds is
  what the shutdown has to release. There is a worker exactly when the run is not dry.
\<close>

lemma start_resources:
  "case runtime_start R openErr fmtErr clientErr now db cfg dry of
     (Inl e, acts) \<Rightarrow> held acts [] = Some []
   | (Inr (st, source), acts) \<Rightarrow>
       held acts [] = Some (rev ([ResStore] @ (if dry then [] else [ResWorker]) @ [ResProcessor, ResServer, ResAPI]))
       \<and> (ru_worker st = None \<longleftrightarrow> dry) \<and> ru_phase st = Running"
  by (cases "buildNotifier fmtErr cfg")
     (auto simp: runtime_start_def Let_def ru_start_def split: sum.splits option.splits prod.splits)


section \<open>The sink\<close>

lemma sink_queueAlert: "p_sink p = sink \<Longrightarrow> prefix sink (p_sink (queueAlert matched entry fp result p))"
  by (auto simp: queueAlert_def emit_def Let_def)

lemma sink_handle_match: "prefix (p_sink p) (p_sink (fst (handle_match R sha entry m (p, e))))"
  by (cases m) (auto simp: handle_match_def Let_def observe_def intro!: sink_queueAlert split: sum.splits prod.splits)

lemma sink_matches: "prefix (p_sink (fst st)) (p_sink (fst (fold (handle_match R sha entry) ms st)))"
proof (induction ms arbitrary: st)
  case (Cons m ms)
  obtain p e where st: "st = (p, e)" by fastforce
  from Cons.IH [of "handle_match R sha entry m st"] sink_handle_match [of p R sha entry m e] show ?case
    by (auto simp: st intro: prefix_order.trans)
qed simp

lemma sink_Process:
  assumes "processor_Process R sha clock p raw = (p', ack, err)"
  shows "prefix (p_sink p) (p_sink p')"
proof (cases "p_closed p")
  case False
  define entry where "entry = sanitize R p raw"
  define q where "q = observe (ObsParsed entry) p"
  define keeps where "keeps = (KeepsContext (router_Route (p_router q) entry) \<or> matches_of R q entry \<noteq> [])"
  define q1 where "q1 = (if keeps then addAfterContext entry q else q)"
  obtain q2 e2 where f: "fold (handle_match R sha entry)
      (zip (map clock [0..<length (matches_of R q entry)]) (matches_of R q entry)) (q1, None) = (q2, e2)" by fastforce
  have "p_sink q1 = p_sink p"
    using heap_fold_frame [of "pa_Add entry" _ q]
    by (simp add: q1_def addAfterContext_def same_frame_def) (simp add: q_def observe_def)
  moreover have "prefix (p_sink q1) (p_sink q2)"
    using sink_matches [of "(q1, None)" R sha entry] f by (metis fst_conv)
  moreover have "p_sink p' = p_sink q2"
    using assms False
    unfolding processor_Process_def Let_def entry_def [symmetric] q_def [symmetric] keeps_def [symmetric]
      q1_def [symmetric] f by auto
  ultimately show ?thesis by simp
qed (use assms in \<open>simp add: processor_Process_def\<close>)

lemma sink_Remove: "p_sink (RemoveContainer c p) = p_sink p" "p_closed (RemoveContainer c p) = p_closed p"
  "p_heap p = [] \<Longrightarrow> p_heap (RemoveContainer c p) = []"
  using heap_fold_frame [of "\<lambda>pa. pa_Cancel (pa\<lparr>pa_discard := True\<rparr>)" _ p]
  by (auto simp: RemoveContainer_def Let_def same_frame_def split: option.splits)

lemma sink_Close: "p_sink (processor_Close p) = p_sink p"
  using heap_fold_frame [of pa_Cancel _ "p\<lparr>p_closed := True\<rparr>"]
  by (auto simp: processor_Close_def same_frame_def)

lemma sink_step: "proc_step R sha l p p' \<Longrightarrow> prefix (p_sink p) (p_sink p')"
proof (induction rule: proc_step.induct)
  case (proc_Timer p address pending)
  then show ?case using heap_map_frame [of address pa_Cancel p] by (simp add: same_frame_def)
qed (auto simp: sink_Process sink_Close sink_Remove awaitContext_def emit_def Let_def split: option.splits)


lemma sink_items:
  "process_items L env i items rn = (rn', e) \<Longrightarrow> prefix (p_sink (rn_processor rn)) (p_sink (rn_processor rn'))"
proof (induction items arbitrary: i rn)
  case (Cons r items)
  obtain p ack err where pr: "processor_Process (lb_regex L) (lb_sha L) (fst (env i)) (rn_processor rn) r = (p, ack, err)"
    by (cases "processor_Process (lb_regex L) (lb_sha L) (fst (env i)) (rn_processor rn) r") auto
  note sink_Process [OF pr]
  with Cons.prems Cons.IH [of "Suc i" "save_item L (snd (env i)) r (rn\<lparr>rn_processor := p\<rparr>)"] pr show ?case
    by (cases err) (auto simp: save_item_frame intro: prefix_order.trans)
qed simp

lemma sink_processRaw:
  assumes "processRaw L env raw rn = (rn', e)"
  shows "prefix (p_sink (rn_processor rn)) (p_sink (rn_processor rn'))"
proof -
  obtain rn1 items where f: "observer_filter (lb_hash L) raw rn = (rn1, items)" by fastforce
  have "process_items L env 0 items rn1 = (rn', e)" using assms f by (simp add: processRaw_def)
  from sink_items [OF this] observer_filter_eq [OF f] show ?thesis by simp
qed

text \<open>An observer callback reaches the processor only through \<open>RemoveContainer\<close> and never the store.\<close>

lemma attached_frame:
  "rn_store (ContainerAttached codec io now name cid b rn) = rn_store rn"
  "rn_processor (ContainerAttached codec io now name cid b rn) = rn_processor rn
    \<or> rn_processor (ContainerAttached codec io now name cid b rn) = RemoveContainer name (rn_processor rn)"
  by (auto simp: ContainerAttached_def Let_def split: sum.splits prod.splits)

lemma replay_frame:
  "rn_store (fst (replayStart codec io now name rn)) = rn_store rn"
  "rn_processor (fst (replayStart codec io now name rn)) = rn_processor rn"
  by (auto simp: replayStart_def Let_def split: sum.splits prod.splits option.splits)


lemma store_flushed_frame:
  "rn_processor (ru_rn (store_flushed L io st)) = rn_processor (ru_rn st)"
  "rn_store (ru_rn (store_flushed L io st)) = fst (ckpt_Flush (lb_codec L) io (rn_store (ru_rn st)))"
  "ru_worker (store_flushed L io st) = map_option close_queue (ru_worker st)"
  "ru_phase (store_flushed L io st) = WorkerClosing False"
  "ru_err (store_flushed L io st) = ru_err st @ ckpt_err (snd (ckpt_Flush (lb_codec L) io (rn_store (ru_rn st))))"
  by (simp_all add: store_flushed_def Let_def split: prod.splits)

lemma store_closed_frame:
  "rn_processor (ru_rn (store_closed L se io cio st)) = rn_processor (ru_rn st)"
  "rn_store (ru_rn (store_closed L se io cio st)) = fst (ckpt_Close (lb_codec L) io cio (rn_store (ru_rn st)))"
  "ru_worker (store_closed L se io cio st) = ru_worker st"
  "ru_phase (store_closed L se io cio st) = Returned"
  "ru_err (store_closed L se io cio st) = ru_err st @ (case se of None \<Rightarrow> [] | Some e \<Rightarrow> [RunServer e])
     @ ckpt_err (snd (ckpt_Close (lb_codec L) io cio (rn_store (ru_rn st))))"
  by (simp_all add: store_closed_def split: prod.splits)

lemmas ru_frames = store_flushed_frame store_closed_frame replay_frame flush_status_frame DockerAvailable_def

section \<open>The worker gets every alert of the sink\<close>

definition submitted :: "worker_label list \<Rightarrow> Alert list" where
  "submitted ls = List.map_filter (\<lambda>l. case l of WSubmit a \<Rightarrow> Some a | _ \<Rightarrow> None) ls"

lemma submitted_simps [simp]:
  "submitted [] = []" "submitted (WSubmit a # ls) = a # submitted ls"
  "submitted (ls @ ls') = submitted ls @ submitted ls'"
  by (simp_all add: submitted_def map_filter_simps)

lemma length_submitted: "length (filter is_submit ls) = length (submitted ls)"
  by (induction ls) (auto simp: submitted_def map_filter_simps is_submit_def split: worker_label.splits)

lemma submit_all: "\<exists>ls. run worker_step w ls (fold worker_Alert as w) \<and> submitted ls = as"
proof (induction as arbitrary: w)
  case Nil
  then show ?case by (intro exI [of _ "[]"]) (simp add: run_start)
next
  case (Cons a as)
  have step: "worker_step (WSubmit a) w (worker_Alert a w)"
    by (rule worker_Submit [of a w _ "snd (Submit a w)"]) (simp add: worker_Alert_def)
  from Cons.IH [of "worker_Alert a w"] obtain ls where
    ls: "run worker_step (worker_Alert a w) ls (fold worker_Alert as (worker_Alert a w))" "submitted ls = as" by blast
  from run_Cons [where step = worker_step, OF step ls(1)] ls(2) show ?case by (intro exI [of _ "WSubmit a # ls"]) simp
qed

text \<open>The worker of a state has run from the first one, with the alerts of the sink as its submissions.\<close>

definition fed :: "Worker option \<Rightarrow> Alert list \<Rightarrow> Worker option \<Rightarrow> bool" where
  "fed w0 sink w = (case (w0, w) of
      (None, None) \<Rightarrow> True
    | (Some w0, Some w) \<Rightarrow> \<exists>ls. run worker_step w0 ls w \<and> submitted ls = sink
    | _ \<Rightarrow> False)"

lemma fed_runtime:
  assumes "fed w0 (p_sink (rn_processor (ru_rn st))) (ru_worker st)"
    and "prefix (p_sink (rn_processor (ru_rn st))) (p_sink (rn_processor rn))"
  shows "fed w0 (p_sink (rn_processor rn)) (ru_worker (with_runtime rn st))"
proof (cases w0)
  case (Some v)
  obtain more where more: "p_sink (rn_processor rn) = p_sink (rn_processor (ru_rn st)) @ more"
    using assms(2) by (auto simp: prefix_def)
  obtain w ls where w: "ru_worker st = Some w" "run worker_step v ls w"
    "submitted ls = p_sink (rn_processor (ru_rn st))"
    using assms(1) Some by (auto simp: fed_def split: option.splits)
  obtain ls' where ls': "run worker_step w ls' (fold worker_Alert more w)" "submitted ls' = more"
    using submit_all by blast
  from run_trans [OF ls'(1) w(2)] w ls' show ?thesis
    by (auto simp: fed_def Some with_runtime_def handed_def more intro: exI [of _ "ls @ ls'"])
qed (use assms in \<open>auto simp: fed_def with_runtime_def split: option.splits\<close>)

lemma fed_step:
  assumes "fed w0 sink (Some w)" and "worker_step l w w'" and "\<not> is_submit l"
  shows "fed w0 sink (Some w')"
proof -
  obtain v ls where v: "w0 = Some v" "run worker_step v ls w" "submitted ls = sink"
    using assms(1) by (auto simp: fed_def split: option.splits)
  have "submitted [l] = []" using assms(3) by (auto simp: submitted_def map_filter_simps is_submit_def split: worker_label.splits)
  with run.run_step [OF v(2) assms(2)] v show ?thesis
    by (auto simp: fed_def intro!: exI [of _ "ls @ [l]"])
qed

interpretation sink: step_invariant "ru_step L" "\<lambda>st. fed w0 (p_sink (rn_processor (ru_rn st))) (ru_worker st)" for L w0
proof
  fix st l st'
  assume inv: "fed w0 (p_sink (rn_processor (ru_rn st))) (ru_worker st)" and step: "ru_step L l st st'"
  note fed_runtime [OF inv]
  note feed = this
  from step show "fed w0 (p_sink (rn_processor (ru_rn st'))) (ru_worker st')"
  proof (cases rule: ru_step.cases)
    case (proc l p')
    then show ?thesis using feed [of "(ru_rn st)\<lparr>rn_processor := p'\<rparr>"] sink_step [OF proc(5)]
      by (simp add: with_runtime_def)
  next
    case (worker l w w')
    then show ?thesis using inv fed_step [of w0 _ w l w'] by (auto simp: worker_own_def is_submit_def split: worker_label.splits)
  next
    case (attached io now name cid b)
    then show ?thesis
      using feed [of "ContainerAttached (lb_codec L) io now name cid b (ru_rn st)"]
        attached_frame(2) [of "lb_codec L" io now name cid b "ru_rn st"]
      by (auto simp: with_runtime_def sink_Remove)
  next
    case (log running env raw rn' e)
    then show ?thesis using feed [of rn'] sink_processRaw [OF log(4)] by (simp add: with_runtime_def)
  next
    case close_processor
    then show ?thesis
      using feed [of "(ru_rn st)\<lparr>rn_processor := processor_Close (rn_processor (ru_rn st))\<rparr>"]
      by (simp add: with_runtime_def sink_Close)
  next
    case (flush io)
    then show ?thesis
      using inv fed_step [OF _ worker_Close, of w0 _ "the (ru_worker st)"]
      by (cases "ru_worker st") (simp_all add: ru_frames is_submit_def)
  next
    case (worker_expired w)
    then show ?thesis using inv fed_step [OF _ worker_Cancel, of w0 _ w] by (simp add: is_submit_def)
  qed (use inv in \<open>simp_all add: ru_frames\<close>)
qed


section \<open>The order of the shutdown\<close>

fun closing :: "run_phase \<Rightarrow> bool" where
  "closing Running = False" | "closing (Draining _ _) = False" | "closing _ = True"

fun late :: "run_phase \<Rightarrow> bool" where
  "late (WorkerClosing _) = True" | "late Tail = True" | "late Returned = True" | "late _ = False"

fun over :: "run_phase \<Rightarrow> bool" where
  "over Tail = True" | "over Returned = True" | "over _ = False"

definition order_inv :: "'re run_state \<Rightarrow> bool" where
  "order_inv st \<longleftrightarrow> (closing (ru_phase st) \<longrightarrow> p_closed (rn_processor (ru_rn st)))
     \<and> (late (ru_phase st) \<longrightarrow> p_heap (rn_processor (ru_rn st)) = [] \<and> (\<forall>w. ru_worker st = Some w \<longrightarrow> w_closed w))
     \<and> (over (ru_phase st) \<longrightarrow> (\<forall>w. ru_worker st = Some w \<longrightarrow> worker_done w))"

lemma late_closing: "late ph \<Longrightarrow> closing ph" "over ph \<Longrightarrow> late ph"
  by (cases ph; simp)+

lemma await_closed: "p_closed (awaitContext key a p) = p_closed p"
  by (auto simp: awaitContext_def emit_def Let_def split: option.splits)

lemma proc_own_closed:
  assumes "proc_step R sha l p p'" and "proc_own l"
  shows "p_closed p' = p_closed p" and "p_heap p \<noteq> []"
  using assms heap_map_frame [of _ pa_Cancel p]
  by (auto elim!: proc_stepE simp: proc_own_def same_frame_def await_closed)

lemma worker_own_closed:
  assumes "worker_step l w w'" and "worker_own l"
  shows "w_closed w' = w_closed w" and "\<not> worker_done w"
  using assms
  by (auto elim!: worker_step.cases simp: worker_own_def worker_done_def run_turn_def allow_def send_result_def
      sendStorm_result_def count_result_def count_dropped_def Let_def split: list.splits if_splits)

lemma processor_Close_closed: "p_closed (processor_Close p)"
  using heap_fold_frame [of pa_Cancel _ "p\<lparr>p_closed := True\<rparr>"] by (auto simp: processor_Close_def same_frame_def)

lemma with_runtime_same:
  "p_sink (rn_processor rn) = p_sink (rn_processor (ru_rn st)) \<Longrightarrow> with_runtime rn st = st\<lparr>ru_rn := rn\<rparr>"
  by (cases "ru_worker st") (simp_all add: with_runtime_def handed_def)

lemma with_runtime_simps [simp]:
  "ru_rn (with_runtime rn st) = rn" "ru_phase (with_runtime rn st) = ru_phase st" "ru_err (with_runtime rn st) = ru_err st"
  by (simp_all add: with_runtime_def)

lemma log_phase_open: "\<not> closing ph \<Longrightarrow> \<not> closing (log_phase ph errs)"
  by (simp add: log_phase_def)

interpretation order: step_invariant "ru_step L" order_inv for L
proof
  fix st l st'
  assume inv: "order_inv st" and step: "ru_step L l st st'"
  from step show "order_inv st'"
  proof (cases rule: ru_step.cases)
    case (proc l p')
    have "\<not> late (ru_phase st)" using inv proc_own_closed(2) [OF proc(5,4)] by (auto simp: order_inv_def)
    then show ?thesis
      using inv proc proc_own_closed(1) [OF proc(5,4)] late_closing by (auto simp: order_inv_def)
  next
    case (worker l w w')
    then show ?thesis using inv worker_own_closed [OF worker(6,4)] late_closing by (auto simp: order_inv_def)
  next
    case (attached io now name cid b)
    let ?rn = "ContainerAttached (lb_codec L) io now name cid b (ru_rn st)"
    have p: "p_sink (rn_processor ?rn) = p_sink (rn_processor (ru_rn st))"
      "p_closed (rn_processor ?rn) = p_closed (rn_processor (ru_rn st))"
      "p_heap (rn_processor (ru_rn st)) = [] \<Longrightarrow> p_heap (rn_processor ?rn) = []"
      using attached_frame(2) [of "lb_codec L" io now name cid b "ru_rn st"] by (auto simp: sink_Remove)
    show ?thesis using inv attached p with_runtime_same [OF p(1)] by (simp add: order_inv_def)
  next
    case (log running env raw rn' e)
    then have "\<not> closing (ru_phase st')" using log_phase_open [of "ru_phase st"] by auto
    then show ?thesis using late_closing by (auto simp: order_inv_def)
  next
    case close_processor
    then show ?thesis by (simp add: order_inv_def processor_Close_closed)
  next
    case (flush io)
    then show ?thesis using inv by (auto simp: order_inv_def ru_frames close_queue_def)
  next
    case (worker_expired w)
    then show ?thesis using inv by (auto simp: order_inv_def cancel_worker_def)
  qed (use inv in \<open>auto simp: order_inv_def ru_frames\<close>)
qed


section \<open>The checkpoints\<close>

text \<open>
  The records that the processor was given, those of them that were saved, and the store. The
  two lists are the same while no error is reported.
\<close>

definition books :: "'re libs \<Rightarrow> (string \<Rightarrow> ContainerCheckpoint option) \<Rightarrow> 're Processor \<Rightarrow> 're run_state
    \<Rightarrow> proc_label list \<Rightarrow> RawLog list \<Rightarrow> bool" where
  "books L base p0 st ls saved \<longleftrightarrow> run (proc_step (lb_regex L) (lb_sha L)) p0 ls (rn_processor (ru_rn st))
     \<and> subseq saved (processed ls) \<and> (ru_err st = [] \<longrightarrow> saved = processed ls)
     \<and> (ru_phase st \<noteq> Returned \<longrightarrow> in_step L base saved (rn_store (ru_rn st)))
     \<and> (ru_phase st = Returned \<and> ru_err st = [] \<longrightarrow>
          durable (lb_codec L) (st_db (rn_store (ru_rn st))) = saves L saved base)"

text \<open>A step that gives the processor no record.\<close>

lemma books_quiet:
  assumes "books L base p0 st ls saved" and "ru_phase st \<noteq> Returned" and "ru_phase st' \<noteq> Returned"
    and "run (proc_step (lb_regex L) (lb_sha L)) (rn_processor (ru_rn st)) pls (rn_processor (ru_rn st'))" and "processed pls = []"
    and "\<And>items. in_step L base items (rn_store (ru_rn st)) \<Longrightarrow> in_step L base items (rn_store (ru_rn st'))"
    and "ru_err st' = [] \<Longrightarrow> ru_err st = []"
  shows "books L base p0 st' (ls @ pls) saved"
  using assms run_trans [OF assms(4), of p0 ls] by (auto simp: books_def)

text \<open>What a step gives to the processor: a record of the channel passes the gate of its container.\<close>

definition given :: "'re libs \<Rightarrow> ru_label \<Rightarrow> 're run_state \<Rightarrow> 're run_state \<Rightarrow> proc_label list \<Rightarrow> bool" where
  "given L l st st' pls = (case l of
     RuLog env raw \<Rightarrow> (\<exists>items. gates_stream (lb_hash L) (rn_gates (ru_rn st)) [raw] = (rn_gates (ru_rn st'), items)
       \<and> prefix (processed pls) items \<and> (ru_err st' = [] \<longrightarrow> processed pls = items))
   | _ \<Rightarrow> processed pls = [])"

lemma books_same:
  assumes "books L base p0 st ls saved" and "ru_phase st \<noteq> Returned" and "ru_phase st' \<noteq> Returned"
    and "rn_processor (ru_rn st') = rn_processor (ru_rn st)"
    and "\<And>items. in_step L base items (rn_store (ru_rn st)) \<Longrightarrow> in_step L base items (rn_store (ru_rn st'))"
    and "ru_err st' = [] \<Longrightarrow> ru_err st = []" and "given L l st st' []"
  shows "\<exists>pls saved'. books L base p0 st' (ls @ pls) saved' \<and> given L l st st' pls"
  using books_quiet [OF assms(1-3), of "[]"] assms(4-7) run_start by fastforce


lemma quiet_steps:
  "\<exists>pls. run (proc_step R sha) p pls p \<and> processed pls = []"
  "proc_step R sha l p p' \<Longrightarrow> processed [l] = [] \<Longrightarrow> \<exists>pls. run (proc_step R sha) p pls p' \<and> processed pls = []"
  using run_start [of "proc_step R sha" p] run_Cons [where step = "proc_step R sha", OF _ run_start, of l p p']
  by (auto intro: exI [of _ "[]"] exI [of _ "[l]"])

lemma in_step_flush:
  "in_step L base items s \<Longrightarrow> in_step L base items (fst (ckpt_Flush (lb_codec L) io s))"
  using in_step_tick [of L base items s io] by (simp add: flush_tick_def split: prod.splits sum.splits)

lemma books_log:
  assumes "books L base p0 st ls saved" and "ru_phase st \<noteq> Returned" and "processRaw L env raw (ru_rn st) = (rn', e)"
    and "ru_rn st' = rn'" and "ru_phase st' \<noteq> Returned" and "ru_err st' = first_err (ru_err st) (proc_err e)"
  shows "\<exists>pls saved'. books L base p0 st' (ls @ pls) saved' \<and> given L (RuLog env raw) st st' pls"
proof -
  have "in_step L base saved (rn_store (ru_rn st))" using assms(1,2) by (simp add: books_def)
  with assms(3) obtain pls more items where more:
    "run (proc_step (lb_regex L) (lb_sha L)) (rn_processor (ru_rn st)) pls (rn_processor rn')"
    "prefix more (processed pls)" "prefix (processed pls) items"
    "in_step L base (saved @ more) (rn_store rn')" "e = None \<longrightarrow> more = items"
    "\<And>rs. gates_stream (lb_hash L) (rn_gates (ru_rn st)) (raw # rs)
      = apsnd (\<lambda>more. items @ more) (gates_stream (lb_hash L) (rn_gates rn') rs)"
    by (rule processRaw_run) (rule that, assumption+)
  have "subseq (saved @ more) (processed (ls @ pls))"
    using assms(1) prefix_imp_subseq [OF more(2)] by (simp add: books_def list_emb_append_mono)
  moreover have all: "processed pls = items" "more = items" if "ru_err st' = []"
    using that assms(6) more(2,3,5)
    by (auto simp: first_err_def proc_err_def dest: prefix_order.antisym split: if_splits option.splits)
  moreover have "saved @ more = processed (ls @ pls)" if "ru_err st' = []"
    using that assms(1,6) all [OF that] by (auto simp: books_def first_err_def split: if_splits)
  moreover have "given L (RuLog env raw) st st' pls"
    using more(6) [of "[]"] more(3) all(1) assms(4) by (simp add: given_def)
  ultimately show ?thesis
    using assms(1,4,5) more(1,4) run_trans [OF more(1), of p0 ls]
    by (intro exI [of _ pls] exI [of _ "saved @ more"]) (auto simp: books_def)
qed

lemma books_end:
  assumes "books L base p0 st ls saved" and "ru_phase st = Tail"
  shows "books L base p0 (store_closed L se io cio st) ls saved"
proof -
  have ok: "codec_ok (lb_codec L)" "ckpt_ok (lb_codec L) (rn_store (ru_rn st))"
    "visible (lb_codec L) (rn_store (ru_rn st)) = saves L saved base"
    using assms by (auto simp: books_def in_step_def)
  obtain s' res where cl: "ckpt_Close (lb_codec L) io cio (rn_store (ru_rn st)) = (s', res)" by fastforce
  have "durable (lb_codec L) (st_db s') = saves L saved base" if "res = Inr ()"
    using ckpt_Close_db [OF ok(1,2) cl [unfolded that]] ok(3) by simp
  then show ?thesis
    using assms cl by (auto simp: books_def ru_frames ckpt_err_def split: sum.splits)
qed

lemma books_step:
  assumes "books L base p0 st ls saved" and "ru_step L l st st'"
  shows "\<exists>pls saved'. books L base p0 st' (ls @ pls) saved' \<and> given L l st st' pls"
  using assms(2)
proof (cases rule: ru_step.cases)
  case (proc l p')
  have "processed [l] = []" using proc(4) by (auto simp: processed_def map_filter_simps proc_own_def split: proc_label.splits)
  from quiet_steps(2) [OF proc(5) this] books_quiet [OF assms(1), of st'] proc show ?thesis by (auto simp: given_def)
next
  case (attached io now name cid b)
  have "processed [PRemove name] = []" by (simp add: processed_def map_filter_simps)
  note remove = quiet_steps(2) [OF proc_Remove this]
  obtain pls where pls: "run (proc_step (lb_regex L) (lb_sha L)) (rn_processor (ru_rn st)) pls (rn_processor (ru_rn st'))"
    "processed pls = []"
    using attached_frame(2) [of "lb_codec L" io now name cid b "ru_rn st"] attached(2)
      quiet_steps(1) [of "lb_regex L" "lb_sha L" "rn_processor (ru_rn st)"]
      remove [of "lb_regex L" "lb_sha L" "rn_processor (ru_rn st)"] by auto
  have "books L base p0 st' (ls @ pls) saved"
    by (rule books_quiet [OF assms(1) attached(3) _ pls]) (use attached in \<open>simp_all add: attached_frame(1)\<close>)
  then show ?thesis using pls(2) attached(1) by (auto simp: given_def)
next
  case (log running env raw rn' e)
  then show ?thesis
    using books_log [OF assms(1) _ log(4), of st'] by (auto simp: log_phase_def)
next
  case close_processor
  have "processed [PClose] = []" by (simp add: processed_def map_filter_simps)
  from quiet_steps(2) [OF proc_Close this, of "lb_regex L" "lb_sha L" "rn_processor (ru_rn st)"] books_quiet [OF assms(1), of st'] close_processor
  show ?thesis by (auto simp: given_def)
next
  case (tick io)
  then show ?thesis by (intro books_same [OF assms(1)]) (simp_all add: ru_frames given_def in_step_tick)
next
  case (flush io)
  then show ?thesis by (intro books_same [OF assms(1)]) (simp_all add: ru_frames given_def in_step_flush)
next
  case (finish serverErr io closeIO)
  then show ?thesis using books_end [OF assms(1)] by (intro exI [of _ "[]"] exI [of _ saved]) (simp add: given_def)
qed (rule books_same [OF assms(1)]; simp add: ru_frames given_def first_err_def split: if_splits)+

interpretation checkpoints: step_invariant "ru_step L" "\<lambda>st. \<exists>ls saved. books L base p0 st ls saved" for L base p0
  proof
  fix st l st'
  assume "\<exists>ls saved. books L base p0 st ls saved" and step: "ru_step L l st st'"
  then obtain ls saved where "books L base p0 st ls saved" by blast
  from books_step [OF this step] show "\<exists>ls saved. books L base p0 st' ls saved" by blast
qed


section \<open>The processor inside the service\<close>

text \<open>Every step of the service moves the processor by steps of its own, whatever the codec does.\<close>

lemma items_project:
  "\<exists>ls. run (proc_step (lb_regex L) (lb_sha L)) (rn_processor rn) ls (rn_processor (fst (process_items L env i items rn)))"
proof (induction L env i items rn rule: process_items.induct)
  case (1 L env i rn)
  show ?case by (intro exI [of _ "[]"]) (simp add: run_start)
next
  case (2 L env i item items rn)
  obtain p ack err where pr: "processor_Process (lb_regex L) (lb_sha L) (fst (env i)) (rn_processor rn) item = (p, ack, err)"
    by (metis prod_cases3)
  note one = run_Cons [where step = "proc_step (lb_regex L) (lb_sha L)", OF proc_Process [OF pr]]
  show ?case
  proof (cases err)
    case None
    have "rn_processor (save_item L (snd (env i)) item (rn\<lparr>rn_processor := p\<rparr>)) = p"
      by (auto simp: save_item_def split: prod.splits sum.splits)
    with 2 [OF pr [symmetric] refl None] one show ?thesis by (simp add: pr None) blast
  next
    case (Some e)
    then show ?thesis using one [OF run_start] by (auto simp: pr)
  qed
qed

lemma processor_projects:
  assumes "ru_step L l st st'"
  shows "\<exists>ls. run (proc_step (lb_regex L) (lb_sha L)) (rn_processor (ru_rn st)) ls (rn_processor (ru_rn st'))"
  using assms
proof (cases rule: ru_step.cases)
  case (proc l p')
  then show ?thesis
    using run_Cons [where step = "proc_step (lb_regex L) (lb_sha L)", OF proc(5) run_start] by auto
next
  case (attached io now name cid b)
  have "run (proc_step (lb_regex L) (lb_sha L)) (rn_processor (ru_rn st)) [] (rn_processor (ru_rn st))" by (rule run_start)
  moreover have "run (proc_step (lb_regex L) (lb_sha L)) (rn_processor (ru_rn st)) [PRemove name] (RemoveContainer name (rn_processor (ru_rn st)))"
    by (rule run_Cons [where step = "proc_step (lb_regex L) (lb_sha L)", OF proc_Remove run_start])
  ultimately show ?thesis
    using attached_frame(2) [of "lb_codec L" io now name cid b "ru_rn st"] attached(2) by auto
next
  case (log running env raw rn' e)
  obtain rn2 items where f: "observer_filter (lb_hash L) raw (ru_rn st) = (rn2, items)" by fastforce
  then have "rn_processor rn2 = rn_processor (ru_rn st)" by (auto simp: observer_filter_def split: option.splits prod.splits)
  with items_project [of L rn2 env 0 items] log(4) show ?thesis by (simp add: log(2) processRaw_def f)
next
  case close_processor
  then show ?thesis using run_Cons [where step = "proc_step (lb_regex L) (lb_sha L)", OF proc_Close run_start] by auto
qed (use run_start [of "proc_step (lb_regex L) (lb_sha L)"] in \<open>auto simp: ru_frames\<close>)

lemma processor_run:
  "run (ru_step L) st0 rls st \<Longrightarrow>
   \<exists>ls. run (proc_step (lb_regex L) (lb_sha L)) (rn_processor (ru_rn st0)) ls (rn_processor (ru_rn st))"
proof (induction rule: run.induct)
  case run_start
  show ?case by (intro exI [of _ "[]"]) (rule run.run_start)
next
  case (run_step rls st1 l st2)
  then obtain ls ls' where "run (proc_step (lb_regex L) (lb_sha L)) (rn_processor (ru_rn st0)) ls (rn_processor (ru_rn st1))"
    "run (proc_step (lb_regex L) (lb_sha L)) (rn_processor (ru_rn st1)) ls' (rn_processor (ru_rn st2))"
    using processor_projects [OF run_step.hyps(2)] by blast
  from run_trans [OF this(2,1)] show ?case by blast
qed


section \<open>Returning\<close>

text \<open>Steps of the shutdown in which nothing fails or expires.\<close>

fun ru_smooth :: "ru_label \<Rightarrow> bool" where
  "ru_smooth (RuProc _) = True"
| "ru_smooth (RuWorker _) = True"
| "ru_smooth RuCancel = True"
| "ru_smooth RuCloseProcessor = True"
| "ru_smooth (RuFlush io) = (io = None)"
| "ru_smooth RuWorkerDone = True"
| "ru_smooth (RuEnd serverErr io closeIO) = (serverErr = None \<and> io = None \<and> closeIO = None)"
| "ru_smooth _ = False"

lemma smooth_own: "ru_smooth l \<Longrightarrow> ru_own l"
  by (cases l) auto

lemma proc_lift:
  assumes "run (proc_step (lb_regex L) (lb_sha L)) p ls p'" and "list_all (\<lambda>l. \<exists>a. l = PAwait a \<or> l = PDiscard a) ls"
    and "rn_processor (ru_rn st) = p" and "ru_phase st \<noteq> Returned"
  shows "\<exists>rls st'. run (ru_step L) st rls st' \<and> rn_processor (ru_rn st') = p' \<and> ru_phase st' = ru_phase st
    \<and> (\<forall>l \<in> set rls. ru_smooth l)"
  using assms
proof (induction rule: run.induct)
  case run_start
  then show ?case by (intro exI [of _ "[]"] exI [of _ st]) (simp add: run.run_start)
next
  case (run_step ls p1 l p2)
  then obtain rls st1 where r: "run (ru_step L) st rls st1" "rn_processor (ru_rn st1) = p1" "ru_phase st1 = ru_phase st"
    "\<forall>l \<in> set rls. ru_smooth l" by auto
  let ?st = "with_runtime ((ru_rn st1)\<lparr>rn_processor := p2\<rparr>) st1"
  have "ru_step L (RuProc l) st1 ?st"
    using run_step r by (intro ru_step.proc) (auto simp: proc_own_def)
  from run.run_step [OF r(1) this] r show ?case
    by (intro exI [of _ "rls @ [RuProc l]"] exI [of _ ?st]) simp
qed

lemma worker_lift:
  assumes "run worker_step w ls w'" and "list_all (\<lambda>l. \<not> is_submit l \<and> l \<noteq> WCancel) ls" and "w_closed w"
    and "ru_worker st = Some w" and "ru_phase st \<noteq> Returned"
  shows "\<exists>rls. run (ru_step L) st rls (st\<lparr>ru_worker := Some w'\<rparr>) \<and> w_closed w' \<and> (\<forall>l \<in> set rls. ru_smooth l)"
  using assms
proof (induction rule: run.induct)
  case run_start
  then have "st\<lparr>ru_worker := Some w\<rparr> = st" by simp
  then have "run (ru_step L) st [] (st\<lparr>ru_worker := Some w\<rparr>)" using run.run_start [of "ru_step L" st] by metis
  then show ?case using run_start by (intro exI [of _ "[]"]) simp
next
  case (run_step ls w1 l w2)
  then obtain rls where r: "run (ru_step L) st rls (st\<lparr>ru_worker := Some w1\<rparr>)" "w_closed w1"
    "\<forall>l \<in> set rls. ru_smooth l" by auto
  show ?case
  proof (cases "l = WClose")
    case True
    then have "w2 = w1" using run_step.hyps(2) r(2) by (auto elim: worker_step.cases simp: close_queue_def)
    then show ?thesis using r by blast
  next
    case False
    then have own: "worker_own l"
      using run_step.prems(1) by (auto simp: worker_own_def is_submit_def split: worker_label.splits)
    let ?st = "st\<lparr>ru_worker := Some w1\<rparr>"
    have "ru_step L (RuWorker l) ?st (?st\<lparr>ru_worker := Some w2\<rparr>)"
      by (rule ru_step.worker [OF _ own _ run_step.hyps(2)]) (use run_step.prems in simp_all)
    from run.run_step [OF r(1) this] r worker_own_closed(1) [OF run_step.hyps(2) own] show ?thesis
      by (intro exI [of _ "rls @ [RuWorker l]"]) simp
  qed
qed

text \<open>
  A state from which the service can return by its own goroutines alone, without a record, a
  callback or the end of the source, before any timeout and with every write succeeding.
\<close>

definition returns :: "'re libs \<Rightarrow> 're run_state \<Rightarrow> bool" where
  "returns L st \<longleftrightarrow> (\<exists>rls st'. run (ru_step L) st rls st' \<and> ru_phase st' = Returned \<and> (\<forall>l \<in> set rls. ru_smooth l))"

lemma returns_run:
  assumes "run (ru_step L) st rls st'" and "\<forall>l \<in> set rls. ru_smooth l" and "returns L st'"
  shows "returns L st"
proof -
  obtain rls' st'' where "run (ru_step L) st' rls' st''" "ru_phase st'' = Returned" "\<forall>l \<in> set rls'. ru_smooth l"
    using assms(3) by (auto simp: returns_def)
  with run_trans [OF this(1) assms(1)] assms(2) show ?thesis
    unfolding returns_def by (intro exI [of _ "rls @ rls'"] exI [of _ st'']) auto
qed

lemma returns_step:
  "ru_step L l st st' \<Longrightarrow> ru_smooth l \<Longrightarrow> returns L st' \<Longrightarrow> returns L st"
  by (rule returns_run [OF run_Cons [where step = "ru_step L", OF _ run_start], of l st st']) auto

lemma returns_now: "ru_phase st = Returned \<Longrightarrow> returns L st"
  unfolding returns_def by (intro exI [of _ "[]"] exI [of _ st]) (simp add: run_start)

lemma returns_Tail: "ru_phase st = Tail \<Longrightarrow> returns L st"
  by (rule returns_step [OF finish [of st L None None None]]) (simp_all add: returns_now ru_frames)

lemma returns_WorkerClosing:
  assumes "ru_phase st = WorkerClosing e" and "order_inv st"
  shows "returns L st"
proof (cases "ru_worker st")
  case None
  show ?thesis
    by (rule returns_step [OF ru_step.worker_done [OF assms(1)]]) (simp_all add: None returns_Tail)
next
  case (Some w)
  have closed: "w_closed w" using assms Some by (simp add: order_inv_def)
  from worker_finish [OF this refl] obtain ls w' where w: "run worker_step w ls w'" "worker_done w'"
    "list_all (\<lambda>l. \<not> is_submit l \<and> l \<noteq> WCancel) ls" by blast
  from worker_lift [OF w(1,3) closed Some, of L] assms(1) obtain rls where
    rls: "run (ru_step L) st rls (st\<lparr>ru_worker := Some w'\<rparr>)" "\<forall>l \<in> set rls. ru_smooth l" by auto
  have "returns L (st\<lparr>ru_worker := Some w'\<rparr>)"
    by (rule returns_step [OF ru_step.worker_done, of _ e]) (simp_all add: assms(1) w(2) returns_Tail)
  then show ?thesis by (rule returns_run [OF rls])
qed


lemma returns_ProcessorClosing:
  assumes "ru_phase st = ProcessorClosing" and "order_inv st" and "flight_ok (rn_processor (ru_rn st))"
  shows "returns L st"
proof -
  have "p_closed (rn_processor (ru_rn st))" using assms(1,2) by (simp add: order_inv_def)
  from drain [OF assms(3) this refl, of "lb_regex L" "lb_sha L"] obtain ls p' where
    ls: "run (proc_step (lb_regex L) (lb_sha L)) (rn_processor (ru_rn st)) ls p'" "p_heap p' = []"
    "list_all (\<lambda>l. \<exists>a. l = PAwait a \<or> l = PDiscard a) ls" by blast
  from proc_lift [OF ls(1,3) refl] assms(1) obtain rls st' where
    r: "run (ru_step L) st rls st'" "rn_processor (ru_rn st') = p'" "ru_phase st' = ProcessorClosing"
    "\<forall>l \<in> set rls. ru_smooth l" by auto
  have step: "ru_step L (RuFlush None) st' (store_flushed L None st')"
    by (rule ru_step.flush) (simp_all add: r ls(2))
  have "order_inv (store_flushed L None st')"
    by (rule order.step_keeps [OF order.run_keeps [OF r(1) assms(2)] step])
  with step have "returns L st'"
    by (intro returns_step [OF step] returns_WorkerClosing [of _ False]) (simp_all add: ru_frames)
  then show ?thesis by (rule returns_run [OF r(1,4)])
qed

lemma flight_runs: "run (proc_step R sha) p ls p' \<Longrightarrow> balance_ok n p \<Longrightarrow> flight_ok p'"
  using flights.run_keeps [of R sha p ls p'] by (auto simp: balance_ok_def)

lemma returns_Drained:
  assumes "ru_phase st = Draining False False" and "order_inv st" and "balance_ok n (rn_processor (ru_rn st))"
  shows "returns L st"
proof -
  note step = ru_step.close_processor [OF assms(1), of L]
  have "flight_ok (processor_Close (rn_processor (ru_rn st)))" using assms(3) by (simp add: balance_ok_def flight_Close)
  with order.step_keeps [OF assms(2) step] show ?thesis
    by (intro returns_step [OF step] returns_ProcessorClosing) simp_all
qed

lemma returns_closing:
  assumes "ru_phase st = Draining False False \<or> closing (ru_phase st)" and "order_inv st"
    and "balance_ok n (rn_processor (ru_rn st))"
  shows "returns L st"
proof (cases "ru_phase st")
  case ProcessorClosing
  then show ?thesis using returns_ProcessorClosing assms(2,3) by (auto simp: balance_ok_def)
next
  case (WorkerClosing e)
  then show ?thesis using returns_WorkerClosing assms(2) by blast
qed (use assms returns_Drained in \<open>auto intro: returns_Tail returns_now\<close>)

text \<open>Before, the context ends the main loop and the timeout the drain.\<close>

lemma returns_expired:
  assumes "order_inv st" and "balance_ok n (rn_processor (ru_rn st))"
  shows "\<exists>rls st'. run (ru_step L) st rls st' \<and> returns L st' \<and> (\<forall>l \<in> set rls. ru_smooth l \<or> l = RuDrainExpired)"
proof -
  have drained: "\<exists>rls st'. run (ru_step L) t rls st' \<and> returns L st' \<and> set rls \<subseteq> {RuDrainExpired}"
    if "ru_phase t = Draining logs running" "order_inv t" "rn_processor (ru_rn t) = rn_processor (ru_rn st)" for t logs running
  proof (cases "logs \<or> running")
    case True
    note step = ru_step.drain_expired [OF that(1) True, of L]
    have "returns L (t\<lparr>ru_phase := Draining False False, ru_err := ru_err t @ [RunDrainExpired]\<rparr>)"
      using order.step_keeps [OF that(2) step] that(3) assms(2) by (intro returns_Drained [of _ n]) simp_all
    with run_Cons [where step = "ru_step L", OF step run_start] show ?thesis by fastforce
  next
    case False
    then have "returns L t" using returns_Drained [of t n] that assms(2) by simp
    then show ?thesis using run_start [of "ru_step L" t] by fastforce
  qed
  show ?thesis
  proof (cases "ru_phase st")
    case Running
    note step = ru_step.canceled [OF Running, of L]
    from drained [of "st\<lparr>ru_phase := Draining True True\<rparr>" True True] order.step_keeps [OF assms(1) step]
    obtain rls st' where "run (ru_step L) (st\<lparr>ru_phase := Draining True True\<rparr>) rls st'" "returns L st'"
      "set rls \<subseteq> {RuDrainExpired}" by auto
    with run_Cons [where step = "ru_step L", OF step this(1)] show ?thesis
      by (intro exI [of _ "RuCancel # rls"] exI [of _ st']) auto
  next
    case (Draining logs running)
    from drained [OF this assms(1) refl] show ?thesis by blast
  qed (use returns_closing [of st n] assms run_start [of "ru_step L" st] in \<open>fastforce+\<close>)
qed

section \<open>Properties\<close>

lemma start_eq:
  assumes "runtime_start R openErr fmtErr clientErr now db cfg dry = (Inr (st, source), acts)"
  obtains store rd contexts gate rules agg p worker health overlap window path iv ev where
    "ckpt_Open openErr db path iv ev = Inr store"
    and "processor_New (Some Parse) (Some rd) (Some contexts) gate (NewEngine rules) (Some agg) (Some []) (Some []) = Inr p"
    and "st = ru_start (newRuntime p store health overlap window) worker"
    and "\<forall>w. worker = Some w \<longrightarrow> (\<exists>ns. buildNotifier fmtErr cfg = Inr (ns, w))"
  using assms
  by (cases "buildNotifier fmtErr cfg")
     (auto simp: runtime_start_def Let_def intro!: that split: sum.splits option.splits prod.splits if_splits)

lemma start_ok:
  assumes "runtime_start R openErr fmtErr clientErr now db cfg dry = (Inr (st, source), acts)"
  shows "\<exists>path iv ev. ckpt_Open None db path iv ev = Inr (rn_store (ru_rn st))"
    and "p_sink (rn_processor (ru_rn st)) = []" and "p_heap (rn_processor (ru_rn st)) = []"
    and "p_observer (rn_processor (ru_rn st)) = Some []"
    and "ru_worker st = Some w \<Longrightarrow> \<exists>n m c ds. NewWorker True n m c ds = Inr w"
    and "ru_phase st = Running" and "ru_err st = []"
proof -
  obtain store rd contexts gate rules agg p worker health overlap window path iv ev where
    o: "ckpt_Open openErr db path iv ev = Inr store"
    and p: "processor_New (Some Parse) (Some rd) (Some contexts) gate (NewEngine rules) (Some agg) (Some []) (Some []) = Inr p"
    and st: "st = ru_start (newRuntime p store health overlap window) worker"
    and w: "\<forall>w. worker = Some w \<longrightarrow> (\<exists>ns. buildNotifier fmtErr cfg = Inr (ns, w))"
    by (rule start_eq [OF assms])
  have "openErr = None" using o by (auto simp: ckpt_Open_def split: if_splits option.splits)
  then show "\<exists>path iv ev. ckpt_Open None db path iv ev = Inr (rn_store (ru_rn st))"
    using o by (auto simp: st ru_start_def newRuntime_def)
  show "ru_worker st = Some w \<Longrightarrow> \<exists>n m c ds. NewWorker True n m c ds = Inr w"
    using w by (auto simp: st ru_start_def buildNotifier_def split: sum.splits)
  show "p_sink (rn_processor (ru_rn st)) = []" "p_heap (rn_processor (ru_rn st)) = []"
    "p_observer (rn_processor (ru_rn st)) = Some []" "ru_phase st = Running" "ru_err st = []"
    using p by (auto simp: processor_New_def st ru_start_def newRuntime_def)
qed

lemma start_books:
  assumes "runtime_start R openErr fmtErr clientErr now db cfg dry = (Inr (st, source), acts)"
    and "codec_ok (lb_codec L)" and "db_ok (lb_codec L) db"
  shows "books L (durable (lb_codec L) db) (rn_processor (ru_rn st)) st [] []"
proof -
  note ok = start_ok [OF assms(1)]
  from ok(1) obtain path iv ev where o: "ckpt_Open None db path iv ev = Inr (rn_store (ru_rn st))" by blast
  have "in_step L (durable (lb_codec L) db) [] (rn_store (ru_rn st))"
    using ckpt_Open_ok [OF o assms(3)] assms(2) ckpt_Open_db [OF o] by (simp add: in_step_def saves_def)
  then show "books L (durable (lb_codec L) db) (rn_processor (ru_rn st)) st [] []"
    using ok(6,7) by (simp add: books_def run_start)
qed

lemma start_invariants:
  assumes "runtime_start R openErr fmtErr clientErr now db cfg dry = (Inr (st, source), acts)"
  shows "order_inv st" and "fed (ru_worker st) (p_sink (rn_processor (ru_rn st))) (ru_worker st)"
    and "balance_ok 0 (rn_processor (ru_rn st))"
proof -
  note ok = start_ok [OF assms(1)]
  show "order_inv st" using ok(6) by (simp add: order_inv_def)
  show "balance_ok 0 (rn_processor (ru_rn st))"
    using ok(2-4) by (simp add: balance_ok_def flight_ok_def raised_def)
  show "fed (ru_worker st) (p_sink (rn_processor (ru_rn st))) (ru_worker st)"
    using ok(2) run_start [of worker_step] by (auto simp: fed_def split: option.splits intro!: exI [of _ "[]"])
qed


text \<open>
  C4. Checkpoints over the whole life of the service, with every interleaving of the main
  loop, the flush loop, the callbacks of the source, the processor's goroutines and the
  worker, and every failing write. At any time the visible checkpoints are those of records
  that were processed before, in the order in which they were processed, and the database
  holds an earlier such state. When \<open>Run\<close> returns without an error, every record that was
  given to the processor is saved and the database is up to date. A record without a name, an
  identifier, a time or a hash leaves the checkpoints as they are, since \<open>Save\<close> refuses it.\<close>

theorem Run_checkpoints:
  assumes "codec_ok (lb_codec L)" and "db_ok (lb_codec L) db"
    and "runtime_start R openErr fmtErr clientErr now db cfg dry = (Inr (st0, source), acts)"
    and "run (ru_step L) st0 rls st"
  shows "\<exists>ls saved. run (proc_step (lb_regex L) (lb_sha L)) (rn_processor (ru_rn st0)) ls (rn_processor (ru_rn st))
    \<and> subseq saved (processed ls)
    \<and> (ru_phase st \<noteq> Returned \<longrightarrow>
        visible (lb_codec L) (rn_store (ru_rn st)) = saves L saved (durable (lb_codec L) db)
        \<and> (\<exists>k \<le> length saved. durable (lb_codec L) (st_db (rn_store (ru_rn st)))
             = saves L (take k saved) (durable (lb_codec L) db)))
    \<and> (ru_phase st = Returned \<and> ru_err st = [] \<longrightarrow> saved = processed ls
        \<and> durable (lb_codec L) (st_db (rn_store (ru_rn st))) = saves L (processed ls) (durable (lb_codec L) db))"
proof -
  obtain ls saved where "books L (durable (lb_codec L) db) (rn_processor (ru_rn st0)) st ls saved"
    using checkpoints.run_keeps [OF assms(4)] start_books [OF assms(3,1,2)] by blast
  then show ?thesis by (intro exI [of _ ls] exI [of _ saved]) (auto simp: books_def in_step_def)
qed

text \<open>
  C9. No alert gets lost between the aggregator and the counters of the worker. At any time the
  alert decisions are the alerts handed to the sink, those that wait for their context and
  those discarded with their container; and what the worker sent, failed to send, dropped or
  still holds is what the sink got, plus the storm alerts. When \<open>Run\<close> returns the processor is
  closed, no alert waits any more, and the worker holds none.\<close>

theorem Run_alerts:
  assumes "runtime_start R openErr fmtErr clientErr now db cfg dry = (Inr (st0, source), acts)"
    and "run (ru_step L) st0 rls st"
  shows "\<exists>ls. run (proc_step (lb_regex L) (lb_sha L)) (rn_processor (ru_rn st0)) ls (rn_processor (ru_rn st))
    \<and> (let p = rn_processor (ru_rn st) in
        raised p = length (p_sink p) + length (p_heap p) + length (filter is_discard ls)
        \<and> (\<forall>w. ru_worker st = Some w \<longrightarrow>
             outcomes w + of_nat (inside w) = of_nat (length (p_sink p)) + sn_StormAlerts (worker_Stats w))
        \<and> (ru_phase st = Returned \<longrightarrow> p_closed p \<and> p_heap p = [] \<and> (\<forall>w. ru_worker st = Some w \<longrightarrow> inside w = 0)))"
proof -
  note inv = start_invariants [OF assms(1)]
  obtain ls where ran: "run (proc_step (lb_regex L) (lb_sha L)) (rn_processor (ru_rn st0)) ls (rn_processor (ru_rn st))"
    using processor_run [OF assms(2)] by blast
  have "worker_inv (length (p_sink (rn_processor (ru_rn st)))) w" if w: "ru_worker st = Some w" for w
  proof -
    obtain w0 wls where w0: "ru_worker st0 = Some w0" "run worker_step w0 wls w"
      "submitted wls = p_sink (rn_processor (ru_rn st))"
      using sink.run_keeps [OF assms(2) inv(2)] w by (auto simp: fed_def split: option.splits)
    from start_ok(5) [OF assms(1) w0(1)] NewWorker_inv have "worker_inv 0 w0" by blast
    from worker_inv_run [OF w0(2) this] w0(3) show ?thesis by (simp add: length_submitted)
  qed
  moreover have "order_inv st" by (rule order.run_keeps [OF assms(2) inv(1)])
  ultimately show ?thesis
    using ran balance_run [OF ran inv(3)]
    by (intro exI [of _ ls]) (auto simp: Let_def balance_ok_def worker_inv_def worker_Stats_def order_inv_def worker_done_def inside_def)
qed

text \<open>
  \<open>Run\<close> can always return. From every reachable state the service reaches its end by
  steps of its own, without another record from the source: the context or the drain timeout
  ends the loops, the goroutines of the processor deliver what is pending, and the worker
  empties its queue.\<close>

theorem Run_returns:
  assumes "runtime_start R openErr fmtErr clientErr now db cfg dry = (Inr (st0, source), acts)"
    and "run (ru_step L) st0 rls st"
  shows "\<exists>rls' st'. run (ru_step L) st rls' st' \<and> ru_phase st' = Returned \<and> (\<forall>env raw. RuLog env raw \<notin> set rls')"
proof -
  note inv = start_invariants [OF assms(1)]
  obtain ls where ran: "run (proc_step (lb_regex L) (lb_sha L)) (rn_processor (ru_rn st0)) ls (rn_processor (ru_rn st))"
    using processor_run [OF assms(2)] by blast
  note bal = balance_run [OF ran inv(3)]
  have ord: "order_inv st" by (rule order.run_keeps [OF assms(2) inv(1)])
  from returns_expired [OF ord bal] obtain rls1 st1 rls2 st2 where
    "run (ru_step L) st rls1 st1" "\<forall>l \<in> set rls1. ru_smooth l \<or> l = RuDrainExpired"
    "run (ru_step L) st1 rls2 st2" "\<forall>l \<in> set rls2. ru_smooth l" "ru_phase st2 = Returned"
    unfolding returns_def by blast
  with run_trans [OF this(3,1)] show ?thesis
    by (intro exI [of _ "rls1 @ rls2"] exI [of _ st2]) (fastforce dest: smooth_own)
qed

lemma validated_start:
  assumes "Validate R cfg = []"
  shows "if distinct (normalizedNames (cf_Containers cfg)) \<and> [] \<notin> set (normalizedNames (cf_Containers cfg))
    then \<exists>st source acts. runtime_start R None None None now db cfg dry = (Inr (st, source), acts)
    else \<exists>e acts. runtime_start R None None None now db cfg dry = (Inl (StartSource e), acts)"
proof -
  note ok = assms
  then have settings: "validate_settings cfg = []" by (simp add: Validate_def)
  have path: "ck_Path (cf_Checkpoint cfg) \<noteq> []"
    using settings by (auto simp: validate_settings_def Let_def dest: trim_nonempty)
  have open_db: "\<exists>s. ckpt_Open None db (ck_Path (cf_Checkpoint cfg)) (ck_FlushInterval (cf_Checkpoint cfg))
           (ck_FlushEvents (cf_Checkpoint cfg)) = Inr s"
    using settings path by (auto simp: ckpt_Open_def validate_settings_def Let_def)
  obtain rd rules gate contexts agg where parts: "buildPipelineParts R cfg = Inr (rd, rules, gate, contexts, agg)"
    using Validate_parts [OF ok] by auto
  obtain ns w where notifier: "buildNotifier None cfg = Inr (ns, w)" using Validate_notifier [OF ok] by auto
  have "cf_Containers cfg \<noteq> []"
    using settings by (auto simp: validate_settings_def Let_def validateNames_ok)
  then have source: "(\<exists>s. docker_New True (cf_Containers cfg) True [] 0 0 probe = Inr s)
      \<longleftrightarrow> distinct (normalizedNames (cf_Containers cfg)) \<and> [] \<notin> set (normalizedNames (cf_Containers cfg))" for probe
    using docker_New_iff [of "cf_Containers cfg" "[]" probe] by blast
  show ?thesis
    using open_db parts notifier source [of "hc_DockerUnavailableAfter (cf_Health cfg) div 2"]
      source [of "hc_DockerUnavailableAfter (cf_Health cfg)"]
    by (cases dry) (auto simp: runtime_start_def processor_New_def Let_def split: sum.splits)
qed

text \<open>
  C23. A configuration that \<open>Load\<close> accepts starts: when the database file opens and neither the
  upstream formatter nor the Docker client fails, every part of the service is built without an
  error, with or without notifications, exactly if the container names are still distinct and
  not empty after blanks and a leading slash are dropped, which \<open>Validate\<close> does not check. If
  they are not, the source refuses them after everything else was built.\<close>

theorem Load_starts:
  assumes "config_Load R yaml lookup file = Inr cfg"
  shows "if distinct (normalizedNames (cf_Containers cfg)) \<and> [] \<notin> set (normalizedNames (cf_Containers cfg))
    then \<exists>st source acts. runtime_start R None None None now db cfg dry = (Inr (st, source), acts)
    else \<exists>e acts. runtime_start R None None None now db cfg dry = (Inl (StartSource e), acts)"
proof (rule validated_start)
  show "Validate R cfg = []"
    using assms by (auto simp: config_Load_def Let_def split: sum.splits prod.splits yaml_rest.splits list.splits)
qed


section \<open>Witnesses\<close>

lemma example_load:
  "config_Load literal_lib example_yaml (\<lambda>_. None) (Inr ''containers: [index-node-0]'')
     = Inr (applyRuleDefaults (example_config DefaultConfig))"
proof -
  have "expandEnvironment ''containers: [index-node-0]'' (\<lambda>_. None) = Inr ''containers: [index-node-0]''"
    by code_simp
  then show ?thesis by (simp add: config_Load_def example_yaml_def example_config_valid Let_def)
qed

lemma example_names:
  "distinct (normalizedNames (cf_Containers (applyRuleDefaults (example_config DefaultConfig))))
     \<and> [] \<notin> set (normalizedNames (cf_Containers (applyRuleDefaults (example_config DefaultConfig))))"
  by code_simp

theorem Load_starts_witness:
  "\<exists>st source acts. runtime_start literal_lib None None None 0 []
     (applyRuleDefaults (example_config DefaultConfig)) False = (Inr (st, source), acts)"
  using Load_starts [OF example_load, of 0 "[]" False] example_names by simp


text \<open>A run of the example service that reads one record and is then cancelled.\<close>

lemma example_service:
  "\<exists>st0 source acts rls st. runtime_start literal_lib None None None 0 []
       (applyRuleDefaults (example_config DefaultConfig)) False = (Inr (st0, source), acts)
     \<and> run (ru_step example_libs) st0 rls st \<and> RuLog example_env (example_item 1) \<in> set rls \<and> ru_phase st \<noteq> Returned"
proof -
  obtain st0 source acts where start: "runtime_start literal_lib None None None 0 []
      (applyRuleDefaults (example_config DefaultConfig)) False = (Inr (st0, source), acts)"
    using validated_start [OF example_config_valid, of 0 "[]" False] example_names by auto
  have running: "ru_phase st0 = Running" by (rule start_ok(6) [OF start])
  obtain rn' e where "processRaw example_libs example_env (example_item 1) (ru_rn st0) = (rn', e)" by fastforce
  from ru_step.log [OF _ this] running obtain st where
    step: "ru_step example_libs (RuLog example_env (example_item 1)) st0 st" and "ru_phase st \<noteq> Returned"
    by (auto simp: log_phase_def)
  with run_Cons [where step = "ru_step example_libs", OF step run_start] start show ?thesis
    by (intro exI [of _ st0] exI [of _ source] exI [of _ acts] exI [of _ "[RuLog example_env (example_item 1)]"] exI [of _ st]) simp
qed

lemma example_libs_ok: "codec_ok (lb_codec example_libs)" "db_ok (lb_codec example_libs) []"
  by (simp_all add: item_codec_ok)

theorem Run_checkpoints_witness:
  "\<exists>(st :: (bool \<times> string) run_state) saved. visible item_codec (rn_store (ru_rn st)) = saves example_libs saved (durable item_codec [])"
proof -
  obtain st0 source acts rls st where ex: "runtime_start literal_lib None None None 0 []
      (applyRuleDefaults (example_config DefaultConfig)) False = (Inr (st0, source), acts)"
    "run (ru_step example_libs) st0 rls st" "ru_phase st \<noteq> Returned"
    using example_service by blast
  from Run_checkpoints [OF example_libs_ok ex(1,2)] ex(3) show ?thesis
    by - (rule exI [of _ st], auto)
qed

theorem Run_alerts_witness:
  "\<exists>(st :: (bool \<times> string) run_state) ls. raised (rn_processor (ru_rn st)) = length (p_sink (rn_processor (ru_rn st)))
     + length (p_heap (rn_processor (ru_rn st))) + length (filter is_discard ls)"
proof -
  obtain st0 source acts rls st where ex: "runtime_start literal_lib None None None 0 []
      (applyRuleDefaults (example_config DefaultConfig)) False = (Inr (st0, source), acts)"
    "run (ru_step example_libs) st0 rls st" using example_service by blast
  from Run_alerts [OF ex] show ?thesis by (auto simp: Let_def)
qed

theorem Run_returns_witness:
  "\<exists>st0 (st :: (bool \<times> string) run_state) rls. run (ru_step example_libs) st0 rls st
     \<and> RuLog example_env (example_item 1) \<in> set rls \<and> ru_phase st = Returned"
proof -
  obtain st0 source acts rls st where ex: "runtime_start literal_lib None None None 0 []
      (applyRuleDefaults (example_config DefaultConfig)) False = (Inr (st0, source), acts)"
    "run (ru_step example_libs) st0 rls st" "RuLog example_env (example_item 1) \<in> set rls" using example_service by blast
  from Run_returns [OF ex(1,2)] obtain rls' st' where
    "run (ru_step example_libs) st rls' st'" "ru_phase st' = Returned" by blast
  with run_trans [OF this(1) ex(2)] ex(3) show ?thesis
    by (intro exI [of _ st0] exI [of _ st'] exI [of _ "rls @ rls'"]) simp
qed

end
