(* ===== verification/Command.thy ===== *)
theory Command
  imports Lifecycle
begin

text \<open>
  The command line (\<open>cmd/graph-log-watcher/main.go\<close>), with what it uses of the packages \<open>flag\<close>
  and \<open>log/slog\<close>; the generic lifecycle of package \<open>service\<close>; and the sink of a dry run
  (\<open>internal/processor/dryrun.go\<close>). What is printed is a list of messages. The answers of
  \<open>config.Load\<close>, of \<open>runtime.Run\<close> and of the HTTP request are arguments.
\<close>

section \<open>Flags\<close>

datatype flag_kind = StringFlag | BoolFlag

datatype flag_error =
    BadSyntax string | NotDefined string | HelpWanted | NeedsArgument string | InvalidValue string string

definition ParseBool :: "string \<Rightarrow> bool option" where
  "ParseBool s =
     (if s \<in> {''1'', ''t'', ''T'', ''TRUE'', ''true'', ''True''} then Some True
      else if s \<in> {''0'', ''f'', ''F'', ''FALSE'', ''false'', ''False''} then Some False
      else None)"

text \<open>The name of a flag and its value after the first equals sign that is not the first character.\<close>

definition split_flag :: "string \<Rightarrow> string \<times> string option" where
  "split_flag text =
     (case index_byte CHR ''='' (tl text) of
        None \<Rightarrow> (text, None)
      | Some i \<Rightarrow> (take (Suc i) text, Some (drop (i + 2) text)))"

text \<open>One round of \<open>FlagSet.Parse\<close> on the next argument and the ones after it.\<close>

datatype flag_step = FlagsDone | FlagFailed flag_error | FlagValue string string "string list"

definition flag_value :: "(string \<rightharpoonup> flag_kind) \<Rightarrow> string \<times> string option \<Rightarrow> string list \<Rightarrow> flag_step" where
  "flag_value kinds nv args =
     (let (name, value) = nv
      in case kinds name of
           None \<Rightarrow> FlagFailed (if name = ''help'' \<or> name = ''h'' then HelpWanted else NotDefined name)
         | Some BoolFlag \<Rightarrow>
             (case ParseBool (case value of None \<Rightarrow> ''true'' | Some v \<Rightarrow> v) of
                None \<Rightarrow> FlagFailed (InvalidValue name (the value))
              | Some b \<Rightarrow> FlagValue name (if b then ''true'' else ''false'') args)
         | Some StringFlag \<Rightarrow>
             (case value of
                Some v \<Rightarrow> FlagValue name v args
              | None \<Rightarrow> (case args of [] \<Rightarrow> FlagFailed (NeedsArgument name) | v # rest \<Rightarrow> FlagValue name v rest)))"

definition parseOne :: "(string \<rightharpoonup> flag_kind) \<Rightarrow> string \<Rightarrow> string list \<Rightarrow> flag_step" where
  "parseOne kinds s args =
     (if length s < 2 \<or> hd s \<noteq> CHR ''-'' \<or> s = ''--'' then FlagsDone
      else
        let body = (if s ! 1 = CHR ''-'' then drop 2 s else drop 1 s)
        in if body = [] \<or> hd body = CHR ''-'' \<or> hd body = CHR ''='' then FlagFailed (BadSyntax s)
           else flag_value kinds (split_flag body) args)"

text \<open>
  Flags are set from left to right until the first argument that is no flag, or until an
  error; what was set before an error stays set. A boolean flag holds \<open>true\<close> or \<open>false\<close>.
\<close>

lemma flag_value_spec:
  assumes "flag_value kinds nv args = FlagValue name v rest"
  shows "length rest \<le> length args \<and> name \<in> dom kinds"
  using assms
  by (auto simp: flag_value_def dom_def split: prod.splits option.splits flag_kind.splits list.splits)

lemma parseOne_spec:
  assumes "parseOne kinds s args = FlagValue name v rest"
  shows "length rest \<le> length args \<and> name \<in> dom kinds"
  using assms by (auto simp: parseOne_def Let_def dest: flag_value_spec split: if_splits)

function parse_flags ::
  "(string \<rightharpoonup> flag_kind) \<Rightarrow> string list \<Rightarrow> (string, string) gomap \<Rightarrow> (string, string) gomap \<times> flag_error option" where
  "parse_flags kinds [] vals = (vals, None)"
| "parse_flags kinds (s # args) vals =
     (case parseOne kinds s args of
        FlagsDone \<Rightarrow> (vals, None)
      | FlagFailed e \<Rightarrow> (vals, Some e)
      | FlagValue name v rest \<Rightarrow> parse_flags kinds rest (gm_set name v vals))"
  by pat_completeness auto

termination
  by (relation "measure (\<lambda>(kinds, args, vals). length args)") (auto dest: parseOne_spec)


section \<open>The log level\<close>

datatype slog_error = SlogUnknownName string | SlogBadOffset string

definition decimal :: "string \<Rightarrow> int" where
  "decimal ds = fold (\<lambda>d n. n * 10 + (int (of_char d) - 48)) ds 0"

text \<open>\<open>strconv.Atoi\<close> of a text that begins with a sign.\<close>

definition Atoi_signed :: "string \<Rightarrow> int option" where
  "Atoi_signed s =
     (let ds = tl s; n = decimal ds; v = (if hd s = CHR ''-'' then - n else n)
      in if ds \<noteq> [] \<and> list_all is_digit ds \<and> - (2 ^ 63) \<le> v \<and> v < 2 ^ 63 then Some v else None)"

text \<open>\<open>slog.Level.UnmarshalText\<close>; adding the offset wraps around as 64-bit integers do.\<close>

definition wrap_int :: "int \<Rightarrow> int" where
  "wrap_int n = (n + 2 ^ 63) mod 2 ^ 64 - 2 ^ 63"

definition slog_parse :: "string \<Rightarrow> slog_error + int" where
  "slog_parse s =
     (let name = takeWhile (\<lambda>c. c \<noteq> CHR ''+'' \<and> c \<noteq> CHR ''-'') s; rest = drop (length name) s
      in case (if rest = [] then Some 0 else Atoi_signed rest) of
           None \<Rightarrow> Inl (SlogBadOffset rest)
         | Some offset \<Rightarrow>
             (let upper = to_upper name
              in if upper = ''DEBUG'' then Inr (wrap_int (- 4 + offset))
                 else if upper = ''INFO'' then Inr offset
                 else if upper = ''WARN'' then Inr (wrap_int (4 + offset))
                 else if upper = ''ERROR'' then Inr (wrap_int (8 + offset))
                 else Inl (SlogUnknownName name)))"

definition configureLogger :: "string \<Rightarrow> slog_error + int" where
  "configureLogger level = slog_parse (to_lower (trim_space level))"


section \<open>Commands\<close>

datatype message =
    Usage | UnknownCommand string | FlagProblem flag_error | ConfigRequired
  | InvalidConfiguration load_error | InvalidLogLevel slog_error | RuntimeFailed string
  | ShutdownComplete | ConfigurationValid | HealthcheckFailed string | HealthcheckStatus nat

record command_env =
  ce_load :: "string \<Rightarrow> load_error + Config"
  ce_run :: "Config \<Rightarrow> bool \<Rightarrow> string option"
  ce_get :: "string \<Rightarrow> string + nat"

definition flag_message :: "flag_error option \<Rightarrow> message list" where
  "flag_message e = (case e of None \<Rightarrow> [] | Some e \<Rightarrow> [FlagProblem e])"

definition runService :: "command_env \<Rightarrow> string list \<Rightarrow> nat \<times> message list" where
  "runService E args =
     (let (vals, err) = parse_flags [''config'' \<mapsto> StringFlag, ''dry-run'' \<mapsto> BoolFlag] args
            [(''config'', []), (''dry-run'', ''false'')];
          path = gm_str vals ''config'';
          dryRun = (gm_str vals ''dry-run'' = ''true'')
      in if err \<noteq> None \<or> path = [] then (2, flag_message err @ (if path = [] then [ConfigRequired] else []))
         else case ce_load E path of
                Inl e \<Rightarrow> (1, [InvalidConfiguration e])
              | Inr cfg \<Rightarrow>
                  (case configureLogger (cf_LogLevel cfg) of
                     Inl e \<Rightarrow> (1, [InvalidLogLevel e])
                   | Inr _ \<Rightarrow>
                       (case ce_run E cfg dryRun of
                          Some e \<Rightarrow> (1, [RuntimeFailed e])
                        | None \<Rightarrow> (0, [ShutdownComplete]))))"

definition runHealthcheck :: "command_env \<Rightarrow> string list \<Rightarrow> nat \<times> message list" where
  "runHealthcheck E args =
     (let (vals, err) = parse_flags [''url'' \<mapsto> StringFlag] args [(''url'', ''http://127.0.0.1:9108/healthz'')]
      in if err \<noteq> None then (2, flag_message err)
         else case ce_get E (gm_str vals ''url'') of
                Inl e \<Rightarrow> (1, [HealthcheckFailed e])
              | Inr status \<Rightarrow> if status \<noteq> 200 then (1, [HealthcheckStatus status]) else (0, []))"

definition runCheckConfig :: "command_env \<Rightarrow> string list \<Rightarrow> nat \<times> message list" where
  "runCheckConfig E args =
     (let (vals, err) = parse_flags [''config'' \<mapsto> StringFlag] args [(''config'', [])];
          path = gm_str vals ''config''
      in if err \<noteq> None then (2, flag_message err)
         else if path = [] then (2, [ConfigRequired])
         else case ce_load E path of
                Inl e \<Rightarrow> (1, [InvalidConfiguration e])
              | Inr cfg \<Rightarrow> (0, [ConfigurationValid]))"

definition command_run :: "command_env \<Rightarrow> string list \<Rightarrow> nat \<times> message list" where
  "command_run E args =
     (case args of
        [] \<Rightarrow> (2, [Usage])
      | cmd # rest \<Rightarrow>
          if cmd = ''check-config'' then runCheckConfig E rest
          else if cmd = ''run'' then runService E rest
          else if cmd = ''healthcheck'' then runHealthcheck E rest
          else (2, [UnknownCommand cmd, Usage]))"


section \<open>The generic lifecycle of package service\<close>

record Component =
  co_name :: string
  co_startErr :: "string option"
  co_closeErr :: "string option"

datatype component_call = CallStart string | CallClose string

datatype service_error = StartComponent string | CloseComponent string

text \<open>The loop of \<open>closeAll\<close> from the last component to the first; \<open>once\<close> keeps the first error.\<close>

fun close_loop :: "Component list \<Rightarrow> string option \<Rightarrow> component_call list \<times> string option" where
  "close_loop [] result = ([], result)"
| "close_loop (c # cs) result =
     apfst (\<lambda>calls. CallClose (co_name c) # calls)
       (close_loop cs (if result = None then co_closeErr c else result))"

definition closeAll :: "Component list \<Rightarrow> component_call list \<times> string option" where
  "closeAll started = close_loop (rev started) None"

fun start_loop :: "Component list \<Rightarrow> Component list \<Rightarrow> component_call list \<times> service_error option" where
  "start_loop [] started =
     (let (calls, err) = closeAll started in (calls, map_option CloseComponent err))"
| "start_loop (c # cs) started =
     (case co_startErr c of
        Some e \<Rightarrow> (CallStart (co_name c) # fst (closeAll started), Some (StartComponent e))
      | None \<Rightarrow> apfst (\<lambda>calls. CallStart (co_name c) # calls) (start_loop cs (started @ [c])))"

definition service_Run :: "Component list \<Rightarrow> component_call list \<times> service_error option" where
  "service_Run components = start_loop components []"


section \<open>The sink of a dry run\<close>

definition DryRunSink_Alert :: "Alert \<Rightarrow> string" where
  "DryRunSink_Alert alert =
     ''WOULD ALERT rule='' @ alt_RuleID alert @ '' severity='' @ alt_Severity alert
       @ '' container='' @ alt_ContainerName alert @ '' fingerprint='' @ alt_Fingerprint alert
       @ '' window_count='' @ format_d (alt_WindowCount alert) @ '' total_count='' @ format_d (alt_TotalCount alert)
       @ '' suppressed_count='' @ format_d (alt_SuppressedCount alert) @ [CHR 0x0A]"


section \<open>Flags with more declarations\<close>

text \<open>
  Arguments that parse without an error for some flags parse in the same way when more flags
  are declared, and the additional flags keep their defaults.
\<close>

lemma flag_value_mono:
  assumes "kinds \<subseteq>\<^sub>m kinds'" and "flag_value kinds nv args = r" and "\<And>e. r \<noteq> FlagFailed e"
  shows "flag_value kinds' nv args = r"
proof -
  obtain name v where nv: "nv = (name, v)" by fastforce
  have "kinds name \<noteq> None"
  proof
    assume "kinds name = None"
    then have "r = FlagFailed (if name = ''help'' \<or> name = ''h'' then HelpWanted else NotDefined name)"
      using assms(2) by (simp add: flag_value_def nv)
    then show False using assms(3) by blast
  qed
  then have "kinds' name = kinds name" using assms(1) by (auto simp: map_le_def dom_def)
  then show ?thesis using assms(2) by (simp add: flag_value_def nv)
qed

lemma parseOne_mono:
  assumes "kinds \<subseteq>\<^sub>m kinds'" and "parseOne kinds s args = r" and "\<And>e. r \<noteq> FlagFailed e"
  shows "parseOne kinds' s args = r"
  using assms flag_value_mono [OF assms(1)] by (auto simp: parseOne_def Let_def split: if_splits)

lemma parse_flags_mono:
  assumes "parse_flags kinds args vals = (v, None)" and "kinds \<subseteq>\<^sub>m kinds'"
    and "\<forall>k \<in> dom kinds. gm_get vals k = gm_get vals' k"
  shows "\<exists>v'. parse_flags kinds' args vals' = (v', None) \<and> (\<forall>k \<in> dom kinds. gm_get v k = gm_get v' k)
    \<and> (\<forall>k. k \<notin> dom kinds \<longrightarrow> gm_get v' k = gm_get vals' k)"
  using assms
proof (induction kinds args vals arbitrary: vals' rule: parse_flags.induct)
  case (1 kinds vals)
  then show ?case by auto
next
  case (2 kinds s args vals)
  show ?case
  proof (cases "parseOne kinds s args")
    case FlagsDone
    then show ?thesis using 2 parseOne_mono [OF "2.prems"(2) FlagsDone] by auto
  next
    case (FlagFailed e)
    then show ?thesis using "2.prems"(1) by simp
  next
    case (FlagValue name x rest)
    have "parse_flags kinds rest (gm_set name x vals) = (v, None)" using "2.prems"(1) FlagValue by simp
    moreover have "\<forall>k \<in> dom kinds. gm_get (gm_set name x vals) k = gm_get (gm_set name x vals') k"
      using "2.prems"(3) by (simp add: gm_get_set)
    ultimately obtain v' where v': "parse_flags kinds' rest (gm_set name x vals') = (v', None)"
      "\<forall>k \<in> dom kinds. gm_get v k = gm_get v' k"
      "\<forall>k. k \<notin> dom kinds \<longrightarrow> gm_get v' k = gm_get (gm_set name x vals') k"
      using "2.IH" [OF FlagValue _ "2.prems"(2)] by blast
    with parseOne_mono [OF "2.prems"(2) FlagValue] parseOne_spec [OF FlagValue] show ?thesis
      by (auto simp: gm_get_set)
  qed
qed


section \<open>The level of a valid configuration\<close>

lemma slog_levels:
  "slog_parse ''debug'' = Inr (- 4)" "slog_parse ''info'' = Inr 0" "slog_parse ''warn'' = Inr 4"
  "slog_parse ''error'' = Inr 8"
  by code_simp+

lemma valid_level_configures:
  assumes "Validate R cfg = []"
  shows "\<exists>l. configureLogger (cf_LogLevel cfg) = Inr l"
proof -
  have "to_lower (trim_space (cf_LogLevel cfg)) \<in> set allowedLogLevels"
    using assms by (auto simp: Validate_def validate_settings_def Let_def)
  then show ?thesis using slog_levels by (auto simp: configureLogger_def allowedLogLevels_def)
qed


section \<open>Properties\<close>

text \<open>
  C31. What \<open>check-config\<close> says is what \<open>run\<close> does with the configuration. \<open>check-config\<close> on a
  path exits with 0 exactly if \<open>Load\<close> accepts the file and with 1 otherwise. When it exits with
  0 on some arguments, \<open>run\<close> on the same arguments loads the same file, installs the log level
  and starts the service with notifications, so that only the service itself decides about its
  exit code.\<close>

theorem check_config_predicts_run:
  assumes "E = \<lparr>ce_load = (\<lambda>path. config_Load R yaml lookup (files path)), ce_run = serve, ce_get = get\<rparr>"
  shows "(path \<noteq> [] \<longrightarrow> command_run E [''check-config'', ''--config'', path]
      = (case config_Load R yaml lookup (files path) of
           Inl e \<Rightarrow> (1, [InvalidConfiguration e]) | Inr cfg \<Rightarrow> (0, [ConfigurationValid])))
    \<and> (fst (command_run E (''check-config'' # rest)) = 0 \<longrightarrow>
        (\<exists>file cfg. config_Load R yaml lookup (files file) = Inr cfg
          \<and> command_run E (''run'' # rest)
            = (case serve cfg False of None \<Rightarrow> (0, [ShutdownComplete]) | Some e \<Rightarrow> (1, [RuntimeFailed e]))))"
proof (intro conjI impI)
  assume path: "path \<noteq> []"
  have one: "parseOne [''config'' \<mapsto> StringFlag] ''--config'' [path] = FlagValue ''config'' path []"
    by (simp add: parseOne_def Let_def flag_value_def split_flag_def)
  show "command_run E [''check-config'', ''--config'', path] = (case config_Load R yaml lookup (files path) of
      Inl e \<Rightarrow> (1, [InvalidConfiguration e]) | Inr cfg \<Rightarrow> (0, [ConfigurationValid]))"
    using path one by (simp add: command_run_def runCheckConfig_def assms gm_str_def Let_def)
next
  assume exit: "fst (command_run E (''check-config'' # rest)) = 0"
  obtain v err where parsed: "parse_flags [''config'' \<mapsto> StringFlag] rest [(''config'', [])] = (v, err)" by fastforce
  have ok: "err = None" "gm_str v ''config'' \<noteq> []"
    and "\<exists>cfg. config_Load R yaml lookup (files (gm_str v ''config'')) = Inr cfg"
    using exit by (auto simp: command_run_def runCheckConfig_def parsed assms Let_def split: if_splits sum.splits)
  then obtain cfg where load: "config_Load R yaml lookup (files (gm_str v ''config'')) = Inr cfg" by blast
  have "[''config'' \<mapsto> StringFlag] \<subseteq>\<^sub>m [''config'' \<mapsto> StringFlag, ''dry-run'' \<mapsto> BoolFlag]"
    by (simp add: map_le_def)
  from parse_flags_mono [OF parsed [unfolded ok(1)] this, of "[(''config'', []), (''dry-run'', ''false'')]"]
  obtain v' where v': "parse_flags [''config'' \<mapsto> StringFlag, ''dry-run'' \<mapsto> BoolFlag] rest
      [(''config'', []), (''dry-run'', ''false'')] = (v', None)"
    "gm_str v' ''config'' = gm_str v ''config''" "gm_str v' ''dry-run'' = ''false''"
    by (auto simp: gm_str_def)
  have "Validate R cfg = []"
    using load by (auto simp: config_Load_def Let_def split: sum.splits prod.splits yaml_rest.splits list.splits)
  from valid_level_configures [OF this] obtain l where "configureLogger (cf_LogLevel cfg) = Inr l" by blast
  then have "command_run E (''run'' # rest)
      = (case serve cfg False of None \<Rightarrow> (0, [ShutdownComplete]) | Some e \<Rightarrow> (1, [RuntimeFailed e]))"
    using v' ok(2) load by (simp add: command_run_def runService_def assms Let_def)
  with load show "\<exists>file cfg. config_Load R yaml lookup (files file) = Inr cfg
      \<and> command_run E (''run'' # rest)
        = (case serve cfg False of None \<Rightarrow> (0, [ShutdownComplete]) | Some e \<Rightarrow> (1, [RuntimeFailed e]))" by blast
qed


text \<open>
  The generic lifecycle: components are started in order; when one fails, exactly those before
  it are closed, the last one first, and the error of the start is returned; otherwise all are
  closed in reverse order, whatever errors they report, and the first error is returned.
\<close>

lemma close_loop_eq:
  "close_loop cs result = (map (CallClose \<circ> co_name) cs,
     if result = None then (case filter (\<lambda>c. co_closeErr c \<noteq> None) cs of [] \<Rightarrow> None | c # _ \<Rightarrow> co_closeErr c) else result)"
  by (induction cs arbitrary: result) auto

lemma start_loop_eq:
  "\<forall>c \<in> set cs. co_startErr c = None \<Longrightarrow> start_loop (cs @ rest) started
     = apfst ((@) (map (CallStart \<circ> co_name) cs)) (start_loop rest (started @ cs))"
  by (induction cs arbitrary: started) (simp_all add: prod.map_comp apfst_def map_prod_def split: prod.splits)

lemma service_Run_fails:
  assumes "\<forall>c \<in> set before. co_startErr c = None" and "co_startErr c = Some e"
  shows "service_Run (before @ c # after) =
    (map (CallStart \<circ> co_name) (before @ [c]) @ map (CallClose \<circ> co_name) (rev before), Some (StartComponent e))"
  using assms by (simp add: service_Run_def start_loop_eq closeAll_def close_loop_eq)

lemma service_Run_stops:
  assumes "\<forall>c \<in> set cs. co_startErr c = None"
  shows "service_Run cs = (map (CallStart \<circ> co_name) cs @ map (CallClose \<circ> co_name) (rev cs),
    case filter (\<lambda>c. co_closeErr c \<noteq> None) (rev cs) of [] \<Rightarrow> None | c # _ \<Rightarrow> map_option CloseComponent (co_closeErr c))"
  using start_loop_eq [OF assms, of "[]" "[]"]
  by (auto simp: service_Run_def closeAll_def close_loop_eq Let_def split: list.splits)

text \<open>A dry run prints one line for every alert.\<close>

lemma digits_no_newline: "CHR 0x0A \<notin> set (digits n)"
proof (induction n rule: digits.induct)
  case (1 n)
  have d: "CHR 0x0A \<noteq> char_of (48 + m)" if "m < 10" for m :: nat
  proof
    assume "CHR 0x0A = char_of (48 + m)"
    then have "(of_char (char_of (48 + m)) :: nat) = of_char (CHR 0x0A)" by metis
    then show False using that by simp
  qed
  show ?case using 1 d [of n] d [of "n mod 10"] by (subst digits.simps) auto
qed

lemma DryRunSink_line:
  assumes "\<forall>s \<in> {alt_RuleID alert, alt_Severity alert, alt_ContainerName alert, alt_Fingerprint alert}. CHR 0x0A \<notin> set s"
  shows "\<exists>l. DryRunSink_Alert alert = l @ [CHR 0x0A] \<and> CHR 0x0A \<notin> set l"
proof -
  have "CHR 0x0A \<notin> set (format_d n)" for n by (simp add: format_d_def digits_no_newline)
  with assms show ?thesis by (simp add: DryRunSink_Alert_def)
qed


section \<open>Witnesses\<close>

definition example_command :: command_env where
  "example_command = \<lparr>ce_load = (\<lambda>path. config_Load literal_lib example_yaml (\<lambda>_. None) (Inr ''containers: [index-node-0]'')),
     ce_run = (\<lambda>_ _. None), ce_get = (\<lambda>_. Inr 200)\<rparr>"

theorem check_config_predicts_run_witness:
  "command_run example_command [''check-config'', ''--config'', ''c.yml''] = (0, [ConfigurationValid])
   \<and> command_run example_command [''run'', ''--config'', ''c.yml''] = (0, [ShutdownComplete])"
  using check_config_predicts_run [OF example_command_def, of "''c.yml''" "[''--config'', ''c.yml'']"]
  by (simp add: example_load)

end
