(* ===== verification/Observer_Metrics.thy ===== *)
theory Observer_Metrics
  imports Lifecycle
begin

text \<open>
  The metrics of the service: the collectors of \<open>internal/metrics/metrics.go\<close> and the callbacks
  of the observer in \<open>internal/runtime/runtime.go\<close> that change them, driven by the
  observations of the processor, by the notification worker and by the Docker source. A counter
  with labels is a map from the label values to a number, which is exact as long as it is
  below the 53 bits of a floating point number.
\<close>

section \<open>The collectors\<close>

record Metrics =
  m_Logs :: "(string \<times> string, nat) gomap"
  m_ParseErrors :: nat
  m_RuleMatches :: "(string, nat) gomap"
  m_Alerts :: "(string \<times> string, nat) gomap"
  m_Suppressed :: "(string, nat) gomap"
  m_NotifyErrors :: nat
  m_Reconnects :: "(string, nat) gomap"
  m_Checkpoint :: "(string, int) gomap"
  m_Groups :: nat
  m_Queue :: nat

definition metrics_New :: Metrics where
  "metrics_New = \<lparr>m_Logs = [], m_ParseErrors = 0, m_RuleMatches = [], m_Alerts = [], m_Suppressed = [],
     m_NotifyErrors = 0, m_Reconnects = [], m_Checkpoint = [],
     m_Groups = 0, m_Queue = 0\<rparr>"

text \<open>A counter that was never incremented reads as zero.\<close>

definition counter :: "('k, nat) gomap \<Rightarrow> 'k \<Rightarrow> nat" where
  "counter m k = (case gm_get m k of None \<Rightarrow> 0 | Some n \<Rightarrow> n)"

definition Inc :: "'k \<Rightarrow> ('k, nat) gomap \<Rightarrow> ('k, nat) gomap" where
  "Inc k m = gm_set k (counter m k + 1) m"


section \<open>The callbacks\<close>

definition Parsed :: "LogEntry \<Rightarrow> Metrics \<Rightarrow> Metrics" where
  "Parsed entry m =
     (let m = m\<lparr>m_Logs := Inc (le_ContainerName entry, level_String (le_Level entry)) (m_Logs m)\<rparr>
      in if le_Level entry = LevelUnknown then m\<lparr>m_ParseErrors := m_ParseErrors m + 1\<rparr> else m)"

definition RuleMatched :: "string \<Rightarrow> Metrics \<Rightarrow> Metrics" where
  "RuleMatched rule m = m\<lparr>m_RuleMatches := Inc rule (m_RuleMatches m)\<rparr>"

text \<open>\<open>groups\<close> is the answer of \<open>Len\<close> of the aggregator.\<close>

definition Aggregated :: "nat \<Rightarrow> string \<Rightarrow> Result \<Rightarrow> Metrics \<Rightarrow> Metrics" where
  "Aggregated groups rule result m =
     (let m = (if rs_Suppressed result then m\<lparr>m_Suppressed := Inc rule (m_Suppressed m)\<rparr> else m)
      in m\<lparr>m_Groups := groups\<rparr>)"

definition NotificationSent :: "Alert \<Rightarrow> Metrics \<Rightarrow> Metrics" where
  "NotificationSent alert m = m\<lparr>m_Alerts := Inc (alt_RuleID alert, alt_Severity alert) (m_Alerts m)\<rparr>"

definition NotificationFailed :: "Alert \<Rightarrow> Metrics \<Rightarrow> Metrics" where
  "NotificationFailed alert m = m\<lparr>m_NotifyErrors := m_NotifyErrors m + 1\<rparr>"

definition NotificationDropped :: "Alert \<Rightarrow> Metrics \<Rightarrow> Metrics" where
  "NotificationDropped alert m = m\<lparr>m_NotifyErrors := m_NotifyErrors m + 1\<rparr>"

definition NotificationQueueSize :: "nat \<Rightarrow> Metrics \<Rightarrow> Metrics" where
  "NotificationQueueSize n m = m\<lparr>m_Queue := n\<rparr>"

definition ContainerReconnect :: "string \<Rightarrow> Metrics \<Rightarrow> Metrics" where
  "ContainerReconnect name m = m\<lparr>m_Reconnects := Inc name (m_Reconnects m)\<rparr>"

text \<open>
  The gauge that \<open>processRaw\<close> sets after a successful \<open>Save\<close>, to the seconds of the record since
  the epoch of Unix; the origin of a \<open>gotime\<close> is that of \<open>time.Time\<close>.
\<close>

definition time_Unix :: "gotime \<Rightarrow> int" where
  "time_Unix t = t div 1000000000 - 62135596800"

definition observe_save :: "'re libs \<Rightarrow> io \<Rightarrow> RawLog \<Rightarrow> 're Runtime \<Rightarrow> Metrics \<Rightarrow> Metrics" where
  "observe_save L io item rn m =
     (case ckpt_Save (lb_codec L) io (checkpoint_of (lb_hash L) item) (rn_store rn) of
        (_, Inl _) \<Rightarrow> m
      | (_, Inr _) \<Rightarrow>
          m\<lparr>m_Checkpoint := gm_set (rl_ContainerName item) (time_Unix (rl_Timestamp item)) (m_Checkpoint m)\<rparr>)"

text \<open>The callbacks for the observations of the processor and of the source.\<close>

fun observe_processor :: "nat \<times> observation \<Rightarrow> Metrics \<Rightarrow> Metrics" where
  "observe_processor (_, ObsParsed entry) m = Parsed entry m"
| "observe_processor (_, ObsRuleMatched rule) m = RuleMatched rule m"
| "observe_processor (groups, ObsAggregated rule result) m = Aggregated groups rule result m"

fun observe_source :: "source_obs \<Rightarrow> Metrics \<Rightarrow> Metrics" where
  "observe_source (ObsReconnect name) m = ContainerReconnect name m"
| "observe_source _ m = m"

text \<open>
  The callbacks of the worker in a step: of \<open>Submit\<close>, of a turn of \<open>run\<close> with \<open>allow\<close>, and of
  the end of a delivery; a storm alert carries the two clock readings of \<open>sendStorm\<close>.
\<close>

definition notify_Submit :: "Alert \<Rightarrow> Worker \<Rightarrow> Metrics \<Rightarrow> Metrics" where
  "notify_Submit alert w =
     (if w_closed w then NotificationDropped alert
      else if int (length (w_queue w)) < w_queueSize w then NotificationQueueSize (length (w_queue w) + 1)
      else NotificationDropped alert)"

definition notify_turn :: "gotime \<Rightarrow> Worker \<Rightarrow> Metrics \<Rightarrow> Metrics" where
  "notify_turn now w m =
     (case w_queue w of
        [] \<Rightarrow> m
      | alert # rest \<Rightarrow>
          let m = NotificationQueueSize (length rest) m
          in if w_cancelled w then NotificationDropped alert m
             else if snd (allow now alert (w\<lparr>w_queue := rest\<rparr>)) then m
             else NotificationDropped alert m)"

definition notify_end :: "bool \<Rightarrow> Alert \<Rightarrow> Metrics \<Rightarrow> Metrics" where
  "notify_end ok alert = (if ok then NotificationSent alert else NotificationFailed alert)"

fun observe_worker :: "gotime \<times> gotime \<Rightarrow> worker_label \<Rightarrow> Worker \<Rightarrow> Metrics \<Rightarrow> Metrics" where
  "observe_worker _ (WSubmit alert) w m = notify_Submit alert w m"
| "observe_worker _ (WTurn now) w m = notify_turn now w m"
| "observe_worker _ (WSent ok) w m = notify_end ok (the (w_sending w)) m"
| "observe_worker (t1, t2) (WStorm i ok) w m = notify_end ok (storm_alert t1 t2 (w_storms w ! i)) m"
| "observe_worker _ _ w m = m"

text \<open>A worker with its observer.\<close>

inductive metered_step :: "(gotime \<times> gotime) \<times> worker_label \<Rightarrow> Worker \<times> Metrics \<Rightarrow> Worker \<times> Metrics \<Rightarrow> bool" where
  metered: "worker_step l w w' \<Longrightarrow> metered_step (ts, l) (w, m) (w', observe_worker ts l w m)"


section \<open>Counting\<close>

lemma counter_Inc: "counter (Inc k m) k' = counter m k' + (if k' = k then 1 else 0)"
  by (simp add: counter_def Inc_def gm_get_set)

lemma counter_Nil [simp]: "counter [] k = 0"
  by (simp add: counter_def)

definition total :: "('k, nat) gomap \<Rightarrow> nat" where
  "total m = sum_list (map snd m)"

lemma total_Nil [simp]: "total [] = 0"
  by (simp add: total_def)

lemma total_Inc: "total (Inc k m) = total m + 1"
proof -
  have "total (gm_set k (counter m k + 1) m) = total m + 1"
    by (induction m) (auto simp: total_def counter_def)
  then show ?thesis by (simp add: Inc_def)
qed

lemmas metric_defs = Parsed_def RuleMatched_def Aggregated_def NotificationSent_def NotificationFailed_def
  NotificationDropped_def NotificationQueueSize_def ContainerReconnect_def Let_def counter_Inc total_Inc


section \<open>The worker\<close>

definition metered_ok :: "Worker \<times> Metrics \<Rightarrow> bool" where
  "metered_ok wm \<longleftrightarrow> of_nat (m_NotifyErrors (snd wm)) = sn_Failed (w_stats (fst wm)) + sn_Dropped (w_stats (fst wm))
     \<and> of_nat (total (m_Alerts (snd wm))) = sn_Sent (w_stats (fst wm))"

lemma allow_stats:
  "sn_Failed (w_stats (fst (allow now alert w))) = sn_Failed (w_stats w)"
  "sn_Sent (w_stats (fst (allow now alert w))) = sn_Sent (w_stats w)"
  "sn_Dropped (w_stats (fst (allow now alert w))) = sn_Dropped (w_stats w) + (if snd (allow now alert w) then 0 else 1)"
  by (simp_all add: allow_def Let_def count_dropped_def)

lemma turn_stats:
  assumes "w_queue w = alert # rest"
  shows "w_stats (run_turn now w) =
    (if w_cancelled w then w_stats (count_dropped w) else w_stats (fst (allow now alert (w\<lparr>w_queue := rest\<rparr>))))"
  using assms by (auto simp: run_turn_def count_dropped_def Let_def split: prod.splits bool.splits)

interpretation metered: step_invariant metered_step metered_ok
proof
  fix wm l wm'
  assume ok: "metered_ok wm" and step: "metered_step l wm wm'"
  from step obtain ts l' w w' m where s: "l = (ts, l')" "wm = (w, m)" "wm' = (w', observe_worker ts l' w m)"
    and ws: "worker_step l' w w'" by (auto elim: metered_step.cases)
  obtain t1 t2 where ts: "ts = (t1, t2)" by fastforce
  from ws show "metered_ok wm'"
  proof (cases rule: worker_step.cases)
    case (worker_Submit alert okay)
    then show ?thesis
      using ok by (auto simp: s metered_ok_def Submit_def notify_Submit_def count_dropped_def metric_defs split: if_splits)
  next
    case (worker_Turn now)
    then obtain alert rest where q: "w_queue w = alert # rest" by (cases "w_queue w") auto
    show ?thesis
      using ok worker_Turn turn_stats [OF q, of now] allow_stats [of now alert "w\<lparr>w_queue := rest\<rparr>"]
      by (auto simp: s metered_ok_def notify_turn_def q count_dropped_def metric_defs)
  next
    case (worker_Sent alert okay)
    then show ?thesis
      using ok by (auto simp: s metered_ok_def send_result_def count_result_def notify_end_def metric_defs)
  next
    case (worker_Storm i okay)
    then show ?thesis
      using ok by (auto simp: s ts metered_ok_def sendStorm_result_def count_result_def notify_end_def metric_defs)
  qed (use ok in \<open>simp_all add: s metered_ok_def close_queue_def cancel_worker_def\<close>)
qed


section \<open>The checkpoint gauge\<close>

text \<open>After a save, a gauge that moved shows the time of the checkpoint that a reader sees.\<close>

lemma checkpoint_gauge:
  assumes "in_step L base items (rn_store rn)" and "observe_save L io item rn m \<noteq> m"
  shows "gm_get (m_Checkpoint (observe_save L io item rn m)) (rl_ContainerName item)
    = map_option (\<lambda>cp. time_Unix (cpt_LastTimestamp cp))
        (visible (lb_codec L) (rn_store (save_item L io item rn)) (rl_ContainerName item))"
proof -
  let ?cp = "checkpoint_of (lb_hash L) item"
  obtain s' where save: "ckpt_Save (lb_codec L) io ?cp (rn_store rn) = (s', Inr ())"
    using assms(2) by (auto simp: observe_save_def split: prod.splits sum.splits)
  have "ckpt_validate ?cp = None" using save by (auto simp: ckpt_Save_def split: option.splits)
  moreover have "in_step L base (items @ [item]) (rn_store (save_item L io item rn))" by (rule in_step_save [OF assms(1)])
  ultimately have "visible (lb_codec L) (rn_store (save_item L io item rn)) (rl_ContainerName item) = Some ?cp"
    by (simp add: in_step_def saves_snoc)
  moreover have "cpt_LastTimestamp ?cp = rl_Timestamp item" by (simp add: checkpoint_of_def)
  ultimately show ?thesis by (simp add: observe_save_def save gm_get_set)
qed


section \<open>The processor\<close>

definition entries_of :: "observation list \<Rightarrow> LogEntry list" where
  "entries_of log = List.map_filter (\<lambda>ob. case ob of ObsParsed e \<Rightarrow> Some e | _ \<Rightarrow> None) log"

definition matched_of :: "observation list \<Rightarrow> string list" where
  "matched_of log = List.map_filter (\<lambda>ob. case ob of ObsRuleMatched i \<Rightarrow> Some i | _ \<Rightarrow> None) log"

lemma of_simps [simp]:
  "entries_of [] = []" "entries_of (ob # obs) = (case ob of ObsParsed e \<Rightarrow> [e] | _ \<Rightarrow> []) @ entries_of obs"
  "matched_of [] = []" "matched_of (ob # obs) = (case ob of ObsRuleMatched i \<Rightarrow> [i] | _ \<Rightarrow> []) @ matched_of obs"
  by (simp_all add: entries_of_def matched_of_def map_filter_simps split: observation.splits)

lemma of_append [simp]:
  "entries_of (xs @ ys) = entries_of xs @ entries_of ys" "matched_of (xs @ ys) = matched_of xs @ matched_of ys"
  by (induction xs) auto

text \<open>What the metrics of a log of observations count.\<close>

lemma observed_metrics:
  assumes "length groups = length log"
  shows "counter (m_Logs (fold observe_processor (zip groups log) m)) (c, l) = counter (m_Logs m) (c, l)
      + length (filter (\<lambda>e. le_ContainerName e = c \<and> level_String (le_Level e) = l) (entries_of log))"
    and "total (m_Logs (fold observe_processor (zip groups log) m)) = total (m_Logs m) + length (entries_of log)"
    and "m_ParseErrors (fold observe_processor (zip groups log) m) = m_ParseErrors m
      + length (filter (\<lambda>e. le_Level e = LevelUnknown) (entries_of log))"
    and "counter (m_RuleMatches (fold observe_processor (zip groups log) m)) i = counter (m_RuleMatches m) i
      + length (filter (\<lambda>x. x = i) (matched_of log))"
  using assms
  by (induction groups log arbitrary: m rule: list_induct2; auto simp: metric_defs split: observation.splits)+

text \<open>The settings of a processor, which no step changes, and the log of its observer.\<close>

definition settings :: "'re Processor \<Rightarrow> (RawLog \<Rightarrow> LogEntry) \<times> 're Redactor option \<times> Router \<times> 're Engine" where
  "settings p = (p_parser p, p_redactor p, p_router p, p_rules p)"

lemma settings_sanitize:
  "settings p = settings q \<Longrightarrow> sanitize R p = sanitize R q" "settings p = settings q \<Longrightarrow> matches_of R p = matches_of R q"
  by (unfold settings_def sanitize_def [abs_def] matches_of_def [abs_def] prod.inject, (elim conjE, simp only:)+)

lemma settings_heap: "settings (fold (\<lambda>a. heap_map a f) as p) = settings p"
proof (induction as arbitrary: p)
  case (Cons a as)
  have "settings (heap_map a f p) = settings p" by (auto simp: settings_def heap_map_def split: option.splits)
  then show ?case using Cons by simp
qed simp

text \<open>What a part of a run adds to the log: the entries and the identifiers of the matched rules.\<close>

definition extends :: "LogEntry list \<Rightarrow> string list \<Rightarrow> 're Processor \<Rightarrow> 're Processor \<Rightarrow> bool" where
  "extends es ids p q \<longleftrightarrow> settings q = settings p \<and> p_closed q = p_closed p
     \<and> (\<exists>ext. p_observer q = map_option (\<lambda>log. log @ ext) (p_observer p) \<and> entries_of ext = es \<and> matched_of ext = ids)"

lemma extends_quiet:
  "settings q = settings p \<Longrightarrow> p_observer q = p_observer p \<Longrightarrow> p_closed q = p_closed p \<Longrightarrow> extends [] [] p q"
  unfolding extends_def by (intro conjI exI [of _ "[]"]) (simp_all add: option.map_ident)

lemma extends_trans:
  assumes "extends es ids p q" and "extends es' ids' q r"
  shows "extends (es @ es') (ids @ ids') p r"
proof -
  obtain x y where "p_observer q = map_option (\<lambda>log. log @ x) (p_observer p)" "entries_of x = es" "matched_of x = ids"
    and "p_observer r = map_option (\<lambda>log. log @ y) (p_observer q)" "entries_of y = es'" "matched_of y = ids'"
    using assms by (auto simp: extends_def)
  then show ?thesis using assms unfolding extends_def
    by (intro conjI exI [of _ "x @ y"]) (simp_all add: option.map_comp comp_def)
qed

lemma extends_observe: "extends (entries_of [ob]) (matched_of [ob]) p (observe ob p)"
  unfolding extends_def by (intro conjI exI [of _ "[ob]"]) (simp_all add: observe_def settings_def)

lemma extends_heap: "extends [] [] p (fold (\<lambda>a. heap_map a f) as p)"
  using settings_heap [of f as p] heap_fold_frame [of f as p] by (intro extends_quiet) (simp_all add: same_frame_def)

lemma extends_queueAlert: "extends [] [] p (queueAlert matched entry fp result p)"
  by (rule extends_quiet) (simp_all add: queueAlert_def Let_def emit_def settings_def)

lemma extends_handle_match:
  "extends [] [r_ID (snd match)] (fst st) (fst (handle_match R sha entry match st))"
proof -
  obtain now matched p err where st: "match = (now, matched)" "st = (p, err)" by (cases match; cases st)
  obtain a' outcome fp where eq: "handle_match R sha entry match st =
     (let q = (observe (ObsRuleMatched (r_ID matched)) p)\<lparr>p_aggregator := a'\<rparr> in
      case outcome of
        Inl err \<Rightarrow> (q, Some err)
      | Inr result \<Rightarrow> if \<not> rs_Alert result then (observe (ObsAggregated (r_ID matched) result) q, err)
          else (queueAlert matched entry fp result (observe (ObsAggregated (r_ID matched) result) q), err))"
    unfolding st by (rule handle_match_outcome)
  define q where "q = observe (ObsRuleMatched (r_ID matched)) p"
  define q' where "q' = q\<lparr>p_aggregator := a'\<rparr>"
  note eq = eq [unfolded Let_def, folded q_def, folded q'_def]
  have "extends [] [r_ID matched] p q" using extends_observe [of "ObsRuleMatched (r_ID matched)" p] by (simp add: q_def)
  moreover have "extends [] [] q q'" by (rule extends_quiet) (simp_all add: q'_def settings_def)
  ultimately have q': "extends [] [r_ID matched] p q'" using extends_trans by fastforce
  have r: "extends [] [r_ID matched] p (observe (ObsAggregated (r_ID matched) res) q')" for res
    using extends_trans [OF q' extends_observe [of "ObsAggregated (r_ID matched) res"]] by simp
  have "extends [] [r_ID matched] p (queueAlert matched entry fp res (observe (ObsAggregated (r_ID matched) res) q'))" for res
    using extends_trans [OF r extends_queueAlert] by simp
  with q' r show ?thesis unfolding eq by (simp add: st split: sum.split)
qed

lemma extends_matches:
  "extends [] (map (\<lambda>m. r_ID (snd m)) ms) (fst st) (fst (fold (handle_match R sha entry) ms st))"
proof (induction ms arbitrary: st)
  case Nil
  then show ?case by (simp add: extends_quiet)
next
  case (Cons m ms)
  from extends_trans [OF extends_handle_match Cons] show ?case by simp
qed

lemma extends_Process:
  assumes "processor_Process R sha clock p raw = (p', ack, err)" and "\<not> p_closed p"
  shows "extends [sanitize R p raw] (map r_ID (matches_of R p (sanitize R p raw))) p p'"
proof -
  define entry where "entry = sanitize R p raw"
  define q where "q = observe (ObsParsed entry) p"
  define keeps where "keeps = (KeepsContext (router_Route (p_router q) entry) \<or> matches_of R q entry \<noteq> [])"
  define q1 where "q1 = (if keeps then addAfterContext entry q else q)"
  define ms where "ms = zip (map clock [0..<length (matches_of R q entry)]) (matches_of R q entry)"
  define q2 where "q2 = fst (fold (handle_match R sha entry) ms (q1, None))"
  have p': "p' = (if keeps then q2\<lparr>p_context := store_Append entry (p_context q2)\<rparr> else q2)"
    using assms by (auto simp: processor_Process_def Let_def entry_def q_def keeps_def q1_def ms_def q2_def split: prod.splits)
  have q: "extends [entry] [] p q" using extends_observe [of "ObsParsed entry" p] by (simp add: q_def)
  then have mo: "matches_of R q entry = matches_of R p entry" using settings_sanitize(2) [of q p R] by (simp add: extends_def)
  have "extends [] [] q q1" by (auto simp: q1_def addAfterContext_def extends_heap extends_quiet)
  with q have "extends [entry] [] p q1" using extends_trans by fastforce
  moreover have "map (\<lambda>m. r_ID (snd m)) ms = map r_ID (matches_of R p entry)"
    by (simp add: ms_def mo comp_def flip: map_map [of r_ID snd, unfolded comp_def])
  ultimately have "extends [entry] (map r_ID (matches_of R p entry)) p q2"
    using extends_trans [of "[entry]" "[]" p q1, OF _ extends_matches [of ms "(q1, None)" R sha entry, simplified]]
    by (simp add: q2_def)
  moreover have "extends [] [] q2 p'" by (rule extends_quiet) (simp_all add: p' settings_def)
  ultimately show ?thesis using extends_trans by (fastforce simp: entry_def)
qed

text \<open>The records that a sequence of steps gives to an open processor.\<close>

definition accepted :: "proc_label list \<Rightarrow> RawLog list" where
  "accepted ls = List.map_filter (\<lambda>l. case l of PProcess _ raw \<Rightarrow> Some raw | _ \<Rightarrow> None)
     (takeWhile (\<lambda>l. case l of PClose \<Rightarrow> False | _ \<Rightarrow> True) ls)"

definition closes :: "proc_label list \<Rightarrow> bool" where
  "closes ls \<longleftrightarrow> list_ex (\<lambda>l. case l of PClose \<Rightarrow> True | _ \<Rightarrow> False) ls"

lemma closes_snoc: "closes (ls @ [l]) \<longleftrightarrow> closes ls \<or> l = PClose"
  by (auto simp: closes_def split: proc_label.splits)

lemma accepted_snoc:
  "accepted (ls @ [l]) = accepted ls @ (if closes ls then [] else accepted [l])"
proof -
  have "accepted (ls @ [l]) = accepted ls @ (if closes ls then [] else case l of PProcess _ raw \<Rightarrow> [raw] | _ \<Rightarrow> [])" for ls
    by (induction ls) (auto simp: accepted_def closes_def map_filter_simps split: proc_label.splits)
  from this [of ls] this [of "[]"] show ?thesis by (simp add: accepted_def closes_def map_filter_simps)
qed

lemma extends_step:
  assumes "proc_step R sha l p p'" and "l \<noteq> PClose"
  shows "extends (map (sanitize R p) (if p_closed p then [] else accepted [l]))
    (concat (map (\<lambda>raw. map r_ID (matches_of R p (sanitize R p raw))) (if p_closed p then [] else accepted [l]))) p p'"
  using assms(1)
proof (cases rule: proc_step.cases)
  case (proc_Process clock raw ack err)
  then show ?thesis using extends_Process [OF proc_Process(2)]
    by (cases "p_closed p") (auto simp: accepted_def map_filter_simps processor_Process_def intro: extends_quiet)
next
  case (proc_Timer address pending)
  then show ?thesis using extends_heap [of p pa_Cancel "[address]"] by (simp add: accepted_def map_filter_simps)
next
  case (proc_Await address pending key)
  then show ?thesis
    by (auto simp: accepted_def map_filter_simps awaitContext_def emit_def settings_def Let_def
        intro!: extends_quiet split: option.splits)
next
  case (proc_Discard address pending key)
  then show ?thesis
    by (auto simp: accepted_def map_filter_simps awaitContext_def settings_def Let_def intro!: extends_quiet)
next
  case proc_Close
  with assms(2) show ?thesis by simp
next
  case (proc_Remove c)
  have "extends [] [] p (RemoveContainer c p)"
  proof (cases "gm_get (p_pending p) c")
    case None
    then show ?thesis by (auto simp: RemoveContainer_def settings_def intro: extends_quiet)
  next
    case (Some items)
    have "extends [] [] p (fold (\<lambda>a. heap_map a (\<lambda>pending. pa_Cancel (pending\<lparr>pa_discard := True\<rparr>))) items p)"
      by (rule extends_heap)
    then show ?thesis using Some by (simp add: RemoveContainer_def Let_def extends_def settings_def)
  qed
  with proc_Remove show ?thesis by (simp add: accepted_def map_filter_simps)
qed

lemma extends_mark: "extends es ids q p \<Longrightarrow> extends es ids (q\<lparr>p_closed := b\<rparr>) (p\<lparr>p_closed := b\<rparr>)"
  by (simp add: extends_def settings_def)

lemma extends_run:
  assumes "run (proc_step R sha) p0 ls p" and "\<not> p_closed p0"
  shows "p_closed p = closes ls
    \<and> extends (map (sanitize R p0) (accepted ls))
        (concat (map (\<lambda>raw. map r_ID (matches_of R p0 (sanitize R p0 raw))) (accepted ls))) p0 (p\<lparr>p_closed := False\<rparr>)"
  using assms(1)
proof (induction rule: run.induct)
  case run_start
  then show ?case using assms(2) by (auto simp: closes_def accepted_def map_filter_simps settings_def intro: extends_quiet)
next
  case (run_step ls q l p)
  have set: "settings q = settings p0" using run_step.IH by (simp add: extends_def settings_def)
  show ?case
  proof (cases "l = PClose")
    case True
    with run_step.hyps(2) have p: "p = processor_Close q" by (auto elim: proc_stepE)
    have "settings p = settings q \<and> p_observer p = p_observer q \<and> p_closed p"
      using extends_heap [of "q\<lparr>p_closed := True\<rparr>" pa_Cancel] heap_fold_frame [of pa_Cancel _ "q\<lparr>p_closed := True\<rparr>"]
      by (auto simp: p processor_Close_def extends_def settings_def same_frame_def)
    then show ?thesis using run_step.IH True
      by (simp add: closes_snoc accepted_snoc accepted_def [of "[PClose]"] map_filter_simps extends_def settings_def)
  next
    case False
    from extends_step [OF run_step.hyps(2) False] settings_sanitize [OF set] run_step.IH
    have step: "extends (map (sanitize R p0) (if closes ls then [] else accepted [l]))
      (concat (map (\<lambda>raw. map r_ID (matches_of R p0 (sanitize R p0 raw))) (if closes ls then [] else accepted [l]))) q p"
      by simp
    then have "p_closed p = p_closed q" by (simp add: extends_def)
    with extends_trans [OF conjunct2 [OF run_step.IH] extends_mark [OF step]] run_step.IH False
    show ?thesis by (simp add: closes_snoc accepted_snoc)
  qed
qed

text \<open>What the metrics of a processor that started with an empty log count after any run.\<close>

lemma run_metrics:
  assumes "\<not> p_closed p0" "p_observer p0 = Some []" and "run (proc_step R sha) p0 ls p"
  shows "\<exists>log. p_observer p = Some log \<and> (\<forall>groups. length groups = length log \<longrightarrow>
    (let m = fold observe_processor (zip groups log) metrics_New; entries = map (sanitize R p0) (accepted ls) in
     (\<forall>c l. counter (m_Logs m) (c, l) =
       length (filter (\<lambda>e. le_ContainerName e = c \<and> level_String (le_Level e) = l) entries))
     \<and> total (m_Logs m) = length entries
     \<and> m_ParseErrors m = length (filter (\<lambda>e. le_Level e = LevelUnknown) entries)
     \<and> (\<forall>i. counter (m_RuleMatches m) i =
       (\<Sum>e \<leftarrow> entries. length (filter (\<lambda>rule. r_ID rule = i) (matches_of R p0 e))))))"
proof -
  obtain log where log: "p_observer p = Some log" "entries_of log = map (sanitize R p0) (accepted ls)"
      "matched_of log = concat (map (\<lambda>raw. map r_ID (matches_of R p0 (sanitize R p0 raw))) (accepted ls))"
    using conjunct2 [OF extends_run [OF assms(3,1)]] assms(2) by (auto simp: extends_def)
  have "length (filter (\<lambda>x. x = i) (matched_of log))
      = (\<Sum>e \<leftarrow> map (sanitize R p0) (accepted ls). length (filter (\<lambda>rule. r_ID rule = i) (matches_of R p0 e)))" for i
    unfolding log(3) by (induction "accepted ls") (simp_all add: filter_concat filter_map comp_def length_concat)
  with log show ?thesis by (auto simp: observed_metrics Let_def metrics_New_def)
qed

text \<open>
  C30. The notification metrics agree with the statistics of the worker. In every run of a
  worker with its observer, the counter of notification errors is the failed and dropped alerts
  of \<open>Stats\<close>, the counters of alerts over all rules and severities add up to the sent ones, both
  modulo the width of the statistics.
\<close>

theorem Worker_metrics:
  assumes "NewWorker has_notifier queueSize maxAlerts stormCooldown delays = Inr w0"
    and "run metered_step (w0, metrics_New) ls (w, m)"
  shows "of_nat (m_NotifyErrors m) = sn_Failed (worker_Stats w) + sn_Dropped (worker_Stats w)
    \<and> of_nat (total (m_Alerts m)) = sn_Sent (worker_Stats w)"
proof -
  have "metered_ok (w0, metrics_New)"
    using assms(1) by (auto simp: NewWorker_def metered_ok_def metrics_New_def split: if_splits)
  from metered.run_keeps [OF assms(2) this] show ?thesis by (simp add: metered_ok_def worker_Stats_def)
qed

subsection \<open>Examples\<close>

theorem Worker_metrics_witness:
  "\<exists>w m. run metered_step (example_worker, metrics_New) [((0, 0), WClose), ((0, 0), WSubmit example_alert)] (w, m)
     \<and> m_NotifyErrors m = 1 \<and> of_nat (m_NotifyErrors m) = sn_Failed (worker_Stats w) + sn_Dropped (worker_Stats w)"
proof -
  define w1 where "w1 = close_queue example_worker"
  have s1: "metered_step ((0, 0), WClose) (example_worker, metrics_New) (w1, metrics_New)"
    using metered [OF worker_Close, of "(0, 0)" example_worker metrics_New] by (simp add: w1_def)
  have s2: "metered_step ((0, 0), WSubmit example_alert) (w1, metrics_New)
      (fst (Submit example_alert w1), notify_Submit example_alert w1 metrics_New)"
    using metered [OF worker_Submit [where ok = "snd (Submit example_alert w1)"], of example_alert w1 _ "(0, 0)" metrics_New] by simp
  have r: "run metered_step (example_worker, metrics_New) [((0, 0), WClose), ((0, 0), WSubmit example_alert)]
      (fst (Submit example_alert w1), notify_Submit example_alert w1 metrics_New)"
    by (rule run_Cons [where step = metered_step, OF s1 run_Cons [where step = metered_step, OF s2 run_start]])
  moreover have "m_NotifyErrors (notify_Submit example_alert w1 metrics_New) = 1"
    by (simp add: notify_Submit_def w1_def close_queue_def NotificationDropped_def metrics_New_def)
  ultimately show ?thesis using Worker_metrics [OF example_worker_New r] by blast
qed

end
