(* ===== verification/Docker_Stamps.thy ===== *)
theory Docker_Stamps
  imports Docker_Decode Time_Format
begin

text \<open>
  Docker log streams with timestamps, end to end: a log request asks Docker to put the time of
  a line before it, in the format of \<open>RFC3339Nano\<close>. The decoders, with \<open>time.Parse\<close> as it
  is modelled in theory \<open>Time_Format\<close>, give back the times and the lines.
\<close>

section \<open>The log request\<close>

record LogsOptions =
  lg_ShowStdout :: bool
  lg_ShowStderr :: bool
  lg_Follow :: bool
  lg_Timestamps :: bool
  lg_Since :: string

text \<open>\<open>offset\<close> is that of the location of \<open>since\<close> from UTC, in seconds.\<close>

definition client_Logs :: "int \<Rightarrow> gotime \<Rightarrow> LogsOptions" where
  "client_Logs offset since =
     \<lparr>lg_ShowStdout = True, lg_ShowStderr = True, lg_Follow = True, lg_Timestamps = True,
      lg_Since = time_Format_in offset since\<rparr>"

text \<open>The request names the instant it was given, whatever the zone.\<close>

lemma client_Logs_since:
  assumes "0 \<le> time_year (since + offset * second)" "time_year (since + offset * second) \<le> 9999"
    and "\<bar>offset\<bar> < 86400" "60 dvd offset"
  shows "time_Parse general (lg_Since (client_Logs offset since)) = Some since"
  using time_roundtrip_in [OF assms] by (simp add: client_Logs_def)


section \<open>Lines with timestamps\<close>

definition stamped :: "gotime \<times> string \<Rightarrow> string" where
  "stamped x = time_Format (fst x) @ '' '' @ snd x @ [newline]"

text \<open>
  Lines that the format can carry: a time within its years, no line break in the text and no
  carriage return at its end, which the decoders would take for a part of the line end.
\<close>

definition stampable :: "gotime \<times> string \<Rightarrow> bool" where
  "stampable x \<longleftrightarrow> 0 \<le> time_year (fst x) \<and> time_year (fst x) \<le> 9999
     \<and> newline \<notin> set (snd x) \<and> (snd x = [] \<or> last (snd x) \<noteq> CHR 0x0D)"

definition log_record :: "string \<Rightarrow> string \<Rightarrow> string \<Rightarrow> gotime \<times> string \<Rightarrow> RawLog" where
  "log_record name cid stream x =
     \<lparr>rl_ContainerID = cid, rl_ContainerName = name, rl_Timestamp = fst x, rl_Stream = stream, rl_Raw = snd x\<rparr>"

lemma stamp_chars: "CHR '' '' \<notin> set (time_Format t)" "newline \<notin> set (time_Format t)"
  by (rule time_Format_free; simp add: dec_digit_def)+

lemma cut_at: "c \<notin> set a \<Longrightarrow> cut [c] (a @ [c] @ b) = Some (a, b)"
  by (induction a) (auto simp: has_prefix_def)

lemma stamped_record:
  assumes "stampable x"
  shows "raw_record (time_Parse general) name cid stream (time_Format (fst x) @ '' '' @ snd x) = log_record name cid stream x"
proof -
  have "cut '' '' (time_Format (fst x) @ '' '' @ snd x) = Some (time_Format (fst x), snd x)" by (rule cut_at [OF stamp_chars(1)])
  moreover have "time_Parse general (time_Format (fst x)) = Some (fst x)"
    by (rule time_roundtrip) (use assms in \<open>simp_all add: stampable_def\<close>)
  ultimately show ?thesis by (cases x) (simp add: raw_record_def parseTimestamp_def log_record_def)
qed

lemma stamped_lines:
  assumes "\<forall>x \<in> set xs. stampable x"
  shows "complete_lines (concat (map stamped xs)) = map (\<lambda>x. time_Format (fst x) @ '' '' @ snd x) xs
    \<and> last_line (concat (map stamped xs)) = []"
  using assms
proof (induction xs)
  case Nil
  then show ?case by (simp add: line_simps)
next
  case (Cons x xs)
  let ?l = "time_Format (fst x) @ '' '' @ snd x" and ?t = "concat (map stamped xs)"
  have "newline \<notin> set ?l" using Cons.prems stamp_chars by (auto simp: stampable_def)
  then have split: "split_on newline (?l @ newline # ?t) = ?l # split_on newline ?t"
    by (metis split_on_append split_on_no_sep append_Cons append_Nil)
  have trim: "trim_suffix carriage ?l = ?l" using Cons.prems
    by (cases "snd x" rule: rev_cases) (auto simp: stampable_def trim_suffix_def has_prefix_def)
  have "split_on newline ?t \<noteq> []" by (rule split_on_nonempty)
  with split trim have "complete_lines (?l @ newline # ?t) = ?l # complete_lines ?t" "last_line (?l @ newline # ?t) = last_line ?t"
    by (simp_all add: complete_lines_def last_line_def)
  moreover have "concat (map stamped (x # xs)) = ?l @ newline # ?t" by (simp add: stamped_def)
  moreover have "\<forall>x \<in> set xs. stampable x" using Cons.prems by simp
  note Cons.IH [OF this]
  ultimately show ?case by (simp only: list.map simp_thms)
qed

lemma stamped_records:
  assumes "\<forall>x \<in> set xs. stampable x"
  shows "map (raw_record (time_Parse general) name cid stream) (mux_lines (concat (map stamped xs)))
      = map (log_record name cid stream) xs"
    and "plain_lines (concat (map stamped xs)) = mux_lines (concat (map stamped xs))"
  using stamped_lines [OF assms] stamped_record [of _ general name cid stream] assms
  by (simp_all add: mux_lines_def plain_lines_def)

text \<open>
  C40. Logs with timestamps come back. When Docker sends lines with their times on the two
  streams of a container, cut into frames in any way, the decoder delivers on each
  stream exactly these lines with these times, in order; for a TTY container the plain decoder
  does the same with the only stream there is.
\<close>

theorem stamped_log_roundtrip:
  assumes "\<forall>f \<in> set fs. length (snd f) < 2 ^ 32" and "\<forall>x \<in> set (outs @ errs). stampable x"
    and "stream_text (CHR 0x01) fs = concat (map stamped outs)"
    and "stream_text (CHR 0x02) fs = concat (map stamped errs)"
  shows "(\<exists>rs. decodeMultiplexed (time_Parse general) first name cid \<lparr>lo_sent = [], lo_budget = None\<rparr>
        \<lparr>br_bytes = concat (map encode_frame fs), br_end = None\<rparr> = (\<lparr>lo_sent = rs, lo_budget = None\<rparr>, None)
      \<and> filter (\<lambda>r. rl_Stream r = ''stdout'') rs = map (log_record name cid ''stdout'') outs
      \<and> filter (\<lambda>r. rl_Stream r = ''stderr'') rs = map (log_record name cid ''stderr'') errs
      \<and> rl_Stream ` set rs \<subseteq> {''stdout'', ''stderr''})
    \<and> decodePlain (time_Parse general) name cid \<lparr>lo_sent = [], lo_budget = None\<rparr>
        \<lparr>br_bytes = concat (map stamped outs), br_end = None\<rparr>
      = (\<lparr>lo_sent = map (log_record name cid ''stdout'') outs, lo_budget = None\<rparr>, None)"
proof
  have ok: "\<forall>x \<in> set outs. stampable x" "\<forall>x \<in> set errs. stampable x" using assms(2) by auto
  show "decodePlain (time_Parse general) name cid \<lparr>lo_sent = [], lo_budget = None\<rparr>
        \<lparr>br_bytes = concat (map stamped outs), br_end = None\<rparr>
      = (\<lparr>lo_sent = map (log_record name cid ''stdout'') outs, lo_budget = None\<rparr>, None)"
    by (simp add: decodePlain_eq stamped_records [OF ok(1)] send_all_def fits_def end_error_def)
  from decodeMultiplexed_eq [OF assms(1), of "time_Parse general" first name cid] obtain rs where rs:
    "\<And>out. decodeMultiplexed (time_Parse general) first name cid out
        \<lparr>br_bytes = concat (map encode_frame fs), br_end = None\<rparr>
      = (send_all rs out, if fits rs out then None else Some DecodeCanceled)"
    "\<And>s. s \<in> {CHR 0x01, CHR 0x02} \<Longrightarrow>
      on_stream s rs = map (raw_record (time_Parse general) name cid (streamName s)) (mux_lines (stream_text s fs))"
    "rl_Stream ` set rs \<subseteq> {''stdout'', ''stderr''}"
    by blast
  have "filter (\<lambda>r. rl_Stream r = ''stdout'') rs = map (log_record name cid ''stdout'') outs"
    "filter (\<lambda>r. rl_Stream r = ''stderr'') rs = map (log_record name cid ''stderr'') errs"
    using rs(2) [of "CHR 0x01"] rs(2) [of "CHR 0x02"] unfolding assms(3,4)
    by (simp_all add: on_stream_def streamName_def stamped_records(1) [OF ok(1)] stamped_records(1) [OF ok(2)])
  with rs(1,3) show "\<exists>rs. decodeMultiplexed (time_Parse general) first name cid \<lparr>lo_sent = [], lo_budget = None\<rparr>
        \<lparr>br_bytes = concat (map encode_frame fs), br_end = None\<rparr> = (\<lparr>lo_sent = rs, lo_budget = None\<rparr>, None)
      \<and> filter (\<lambda>r. rl_Stream r = ''stdout'') rs = map (log_record name cid ''stdout'') outs
      \<and> filter (\<lambda>r. rl_Stream r = ''stderr'') rs = map (log_record name cid ''stderr'') errs
      \<and> rl_Stream ` set rs \<subseteq> {''stdout'', ''stderr''}"
    by (intro exI [of _ rs]) (simp add: send_all_def fits_def)
qed

subsection \<open>Examples\<close>

theorem stamped_log_roundtrip_witness:
  "decodePlain (time_Parse (\<lambda>_. None)) ''n'' ''i'' \<lparr>lo_sent = [], lo_budget = None\<rparr>
      \<lparr>br_bytes = ''2024-02-29T12:34:56.5Z ERROR x'' @ [newline], br_end = None\<rparr>
    = (\<lparr>lo_sent = [\<lparr>rl_ContainerID = ''i'', rl_ContainerName = ''n'', rl_Timestamp = 63844806896500000000,
         rl_Stream = ''stdout'', rl_Raw = ''ERROR x''\<rparr>], lo_budget = None\<rparr>, None)"
proof -
  let ?x = "(63844806896500000000, ''ERROR x'') :: gotime \<times> string"
  have st: "stamped ?x = ''2024-02-29T12:34:56.5Z ERROR x'' @ [newline]" by (simp add: stamped_def example_time)
  have "\<forall>f \<in> set [(CHR 0x01, stamped ?x)]. length (snd f) < 2 ^ 32" "\<forall>x \<in> set ([?x] @ []). stampable x"
    "stream_text (CHR 0x01) [(CHR 0x01, stamped ?x)] = concat (map stamped [?x])"
    "stream_text (CHR 0x02) [(CHR 0x01, stamped ?x)] = concat (map stamped [])"
    by (simp_all add: st stampable_def example_time stream_text_def)
  from conjunct2 [OF stamped_log_roundtrip [OF this, where general = "\<lambda>_. None" and name = "''n''" and cid = "''i''"]] show ?thesis
    by (simp add: st log_record_def)
qed

end
