(* ===== verification/End_To_End.thy ===== *)
theory End_To_End
  imports Command Observer_Metrics Docker_Stamps
begin

text \<open>
  Properties of the whole service, from a configuration to the alerts that the notification
  worker holds: the store is closed at the end and not before and the shutdown calls are made in
  order, the redaction that the configuration asks for covers the texts of log lines in alerts, samples
  and kept entries, the metrics count what was processed, and the health endpoint reports what the
  steps of the service told it.
\<close>

section \<open>What the worker holds\<close>

definition held_alerts :: "Worker \<Rightarrow> Alert set" where
  "held_alerts w = set (w_queue w) \<union> set_option (w_sending w) \<union> set (w_storms w)"

lemma turn_holds: "held_alerts (run_turn now w) \<subseteq> held_alerts w"
  by (auto simp: held_alerts_def run_turn_def allow_def count_dropped_def Let_def split: list.splits if_splits)

lemma worker_step_holds: "worker_step l w w' \<Longrightarrow> held_alerts w' \<subseteq> held_alerts w \<union> set (submitted [l])"
proof (cases rule: worker_step.cases)
  show "worker_step l w w' \<Longrightarrow> worker_step l w w'" .
next
  fix now
  assume "l = WTurn now" "w' = run_turn now w"
  then show ?thesis using turn_holds [of now w] by blast
qed (auto simp: held_alerts_def Submit_def count_dropped_def send_result_def sendStorm_result_def count_result_def
    close_queue_def cancel_worker_def split: if_splits dest: set_take_subset [THEN subsetD] set_drop_subset [THEN subsetD])

lemma worker_run_holds: "run worker_step w0 ls w \<Longrightarrow> held_alerts w \<subseteq> held_alerts w0 \<union> set (submitted ls)"
  by (induction rule: run.induct) (use worker_step_holds in fastforce)+

lemma NewWorker_holds: "NewWorker b n m c ds = Inr w \<Longrightarrow> held_alerts w = {}"
  by (auto simp: NewWorker_def held_alerts_def split: if_splits)


section \<open>The store is open until the end\<close>

lemma ckpt_Open_fresh:
  assumes "ckpt_Open io db path iv ev = Inr s"
  shows "st_pending s = []" and "\<not> st_closed s" and "\<not> st_closing s"
  using assms by (auto simp: ckpt_Open_def split: if_splits option.splits)

definition store_phase :: "'re run_state \<Rightarrow> bool" where
  "store_phase st \<longleftrightarrow> (let store = rn_store (ru_rn st) in
     if ru_phase st = Returned then st_closed store else \<not> st_closed store \<and> \<not> st_closing store)"

lemma flushLocked_open:
  "flushLocked codec io s = (s', r) \<Longrightarrow> st_closed s' = st_closed s \<and> st_closing s' = st_closing s"
  by (auto simp: flushLocked_def split: if_splits sum.splits option.splits)

lemma ckpt_Flush_open:
  "ckpt_Flush codec io s = (s', r) \<Longrightarrow> st_closed s' = st_closed s \<and> st_closing s' = st_closing s"
  by (auto simp: ckpt_Flush_def dest: flushLocked_open split: if_splits)

lemma save_item_open:
  "st_closed (rn_store (save_item L io item rn)) = st_closed (rn_store rn)
    \<and> st_closing (rn_store (save_item L io item rn)) = st_closing (rn_store rn)"
  by (auto simp: save_item_def ckpt_Save_def Let_def dest: flushLocked_open
      split: prod.splits sum.splits option.splits if_splits)

lemma process_items_open:
  "st_closed (rn_store (fst (process_items L env i items rn))) = st_closed (rn_store rn)
    \<and> st_closing (rn_store (fst (process_items L env i items rn))) = st_closing (rn_store rn)"
  by (induction L env i items rn rule: process_items.induct) (auto simp: save_item_open split: prod.splits option.splits)

lemma processRaw_open:
  assumes "processRaw L env raw rn = (rn', e)"
  shows "st_closed (rn_store rn') = st_closed (rn_store rn) \<and> st_closing (rn_store rn') = st_closing (rn_store rn)"
proof -
  obtain rn2 items where f: "observer_filter (lb_hash L) raw rn = (rn2, items)" by fastforce
  then have "rn_store rn2 = rn_store rn" by (auto simp: observer_filter_def split: option.splits prod.splits)
  with process_items_open [of L env 0 items rn2] assms show ?thesis by (simp add: processRaw_def f)
qed

lemma ckpt_Close_closes: "\<not> st_closed s \<Longrightarrow> \<not> st_closing s \<Longrightarrow> st_closed (fst (ckpt_Close codec io closeIO s))"
  by (auto simp: ckpt_Close_def close_begin_def close_end_def Let_def split: prod.splits sum.splits option.splits)

interpretation store_ends: step_invariant "ru_step L" store_phase for L
proof
  fix l and st st' :: "'a run_state"
  assume inv: "store_phase st" and step: "ru_step L l st st'"
  from step show "store_phase st'"
  proof cases
    case (tick io)
    then show ?thesis using inv
      by (auto simp: store_phase_def flush_status_def flush_tick_def Let_def dest: ckpt_Flush_open split: prod.splits sum.splits)
  next
    case (attached io now name cid b)
    then show ?thesis using inv
      by (auto simp: store_phase_def ContainerAttached_def Let_def split: prod.splits sum.splits)
  next
    case (replay io now name)
    then show ?thesis using inv
      by (auto simp: store_phase_def replayStart_def Let_def split: prod.splits sum.splits option.splits)
  next
    case (log running env raw rn' e)
    then show ?thesis using inv processRaw_open [OF log(4)]
      by (auto simp: store_phase_def log_phase_def Let_def)
  next
    case (flush io)
    then show ?thesis using inv
      by (auto simp: store_phase_def store_flushed_def Let_def dest: ckpt_Flush_open split: prod.splits)
  next
    case (finish serverErr io closeIO)
    then show ?thesis using inv ckpt_Close_closes [of "rn_store (ru_rn st)" "lb_codec L" io closeIO]
      by (auto simp: store_phase_def store_closed_def Let_def split: prod.splits)
  qed (use inv in \<open>auto simp: store_phase_def DockerAvailable_def Let_def\<close>)
qed

lemma start_open:
  assumes "runtime_start R openErr fmtErr clientErr now db cfg dry = (Inr (st0, source), acts)"
  shows "store_phase st0"
proof -
  obtain path iv ev where "ckpt_Open None db path iv ev = Inr (rn_store (ru_rn st0))" using start_ok(1) [OF assms] by blast
  then show ?thesis using start_ok(6) [OF assms] by (simp add: store_phase_def Let_def ckpt_Open_fresh)
qed

text \<open>What a finished run has released, and that none of its goroutines moves any more.\<close>

lemma returned_released:
  assumes "runtime_start R openErr fmtErr clientErr now db cfg dry = (Inr (st0, source), acts)"
    and "run (ru_step L) st0 rls st" and "ru_phase st = Returned"
  shows "p_closed (rn_processor (ru_rn st))" and "p_heap (rn_processor (ru_rn st)) = []"
    and "st_closed (rn_store (ru_rn st))" and "ru_worker st = Some w \<Longrightarrow> w_closed w \<and> worker_done w"
    and "\<not> ru_step L l st st'"
proof -
  note ok = start_ok [OF assms(1)]
  have "order_inv st0" using ok(6) by (simp add: order_inv_def)
  from order.run_keeps [OF assms(2) this] assms(3)
  show "p_closed (rn_processor (ru_rn st))" "p_heap (rn_processor (ru_rn st)) = []"
    "ru_worker st = Some w \<Longrightarrow> w_closed w \<and> worker_done w"
    by (auto simp: order_inv_def)
  from store_ends.run_keeps [OF assms(2) start_open [OF assms(1)]] assms(3) show "st_closed (rn_store (ru_rn st))"
    by (simp add: store_phase_def Let_def)
  show "\<not> ru_step L l st st'" using assms(3) by (auto elim: ru_stepE)
qed


text \<open>The shutdown calls, each made once and in this order.\<close>

fun shutdown_call :: "ru_label \<Rightarrow> bool" where
  "shutdown_call RuCloseProcessor = True"
| "shutdown_call (RuFlush io) = True"
| "shutdown_call RuWorkerDone = True"
| "shutdown_call (RuEnd serverErr io closeIO) = True"
| "shutdown_call _ = False"

fun shutdown_calls :: "run_phase \<Rightarrow> ru_label list \<Rightarrow> bool" where
  "shutdown_calls Running ls = (ls = [])"
| "shutdown_calls (Draining logs running) ls = (ls = [])"
| "shutdown_calls ProcessorClosing ls = (ls = [RuCloseProcessor])"
| "shutdown_calls (WorkerClosing expired) ls = (\<exists>io. ls = [RuCloseProcessor, RuFlush io])"
| "shutdown_calls Tail ls = (\<exists>io. ls = [RuCloseProcessor, RuFlush io, RuWorkerDone])"
| "shutdown_calls Returned ls = (\<exists>io serverErr io' closeIO.
     ls = [RuCloseProcessor, RuFlush io, RuWorkerDone, RuEnd serverErr io' closeIO])"

lemma shutdown_order:
  assumes "run (ru_step L) st0 rls st" and "ru_phase st0 = Running"
  shows "shutdown_calls (ru_phase st) (filter shutdown_call rls)"
  using assms
proof (induction rule: run.induct)
  case (run_step rls st l st')
  then have "shutdown_calls (ru_phase st) (filter shutdown_call rls)" by simp
  with run_step.hyps(2) show ?case
    by (cases rule: ru_step.cases) (auto simp: ru_frames log_phase_def)
qed simp


section \<open>Confidentiality\<close>

definition configured_rules :: "Config \<Rightarrow> redact_Rule list" where
  "configured_rules cfg = map (\<lambda>r. \<lparr>rr_Pattern = rdc_Pattern r, rr_Replace = rdc_Replace r\<rparr>) (rdc_Rules (cf_Redaction cfg))"

lemma start_fresh:
  assumes "runtime_start R openErr fmtErr clientErr now db cfg dry = (Inr (st, source), acts)"
    and "redact_New R (configured_rules cfg) = Inr rd"
  shows "\<exists>lines agg. fresh_processor rd lines agg (rn_processor (ru_rn st))"
proof -
  from assms(1) obtain rd' compiled gate contexts agg p where
    parts: "buildPipelineParts R cfg = Inr (rd', compiled, gate, contexts, agg)"
    and p: "processor_New (Some Parse) (Some rd') (Some contexts) gate (NewEngine compiled) (Some agg) (Some []) (Some []) = Inr p"
    and st: "rn_processor (ru_rn st) = p"
    by (auto simp: runtime_start_def Let_def ru_start_def newRuntime_def split: sum.splits option.splits prod.splits if_splits)
  have "rd' = rd" "NewStore (cx_BufferLines (cf_Context cfg)) = Inr contexts"
    "aggregate_New (ag_MaxGroups (cf_Aggregation cfg)) (ag_GroupTTL (cf_Aggregation cfg)) (ag_MaxSamples (cf_Aggregation cfg)) = Inr agg"
    using parts assms(2) by (auto simp: buildPipelineParts_def configured_rules_def split: sum.splits)
  with p st show ?thesis unfolding fresh_processor_def by (metis fst_conv snd_conv)
qed

text \<open>
  C7. Confidentiality of the service. If the redaction rules of the configuration remove a
  secret from every string, then at any time of the life of the service, with every interleaving
  of its goroutines, the secret occurs in no component, subgraph, sample or context line of an
  alert that was handed to the sink, that waits for its context, or that the notification worker
  holds in its queue, sends or has as the source of a storm alert; in no raw line, message or
  field value of an entry that is kept as context or was captured for a waiting alert; and in no
  sample that the aggregator keeps. The keys of fields in the kept entries are not
  covered, since they are not redacted.
\<close>

theorem Run_confidential:
  assumes "redact_New (lb_regex L) (configured_rules cfg) = Inr rd"
    and "\<And>s. \<not> contains_str (RedactString (lb_regex L) (Some rd) s) secret"
    and "runtime_start (lb_regex L) openErr fmtErr clientErr now db cfg dry = (Inr (st0, source), acts)"
    and "run (ru_step L) st0 rls st"
  shows "let p = rn_processor (ru_rn st) in
    (\<forall>a \<in> set (p_sink p) \<union> (case ru_worker st of None \<Rightarrow> {} | Some w \<Rightarrow> held_alerts w).
       \<forall>t \<in> alert_texts a. \<not> contains_str t secret)
    \<and> (\<forall>k pa. gm_get (p_heap p) k = Some pa \<longrightarrow>
         (\<forall>t \<in> alert_texts (pa_alert pa). \<not> contains_str t secret)
         \<and> (\<forall>cp \<in> set (ac_capture (pa_collector pa) # ac_done (pa_collector pa)).
              \<forall>e \<in> set (capture_Entries cp). \<forall>t \<in> entry_texts e. \<not> contains_str t secret))
    \<and> (\<forall>c limit. \<forall>e \<in> set (store_Last (p_context p) c limit).
         \<forall>t \<in> entry_texts e. \<not> contains_str t secret)
    \<and> (\<forall>k g. gm_get (a_groups (p_aggregator p)) k = Some g \<longrightarrow>
         (\<forall>t \<in> set (state_samples (g_state g)). \<not> contains_str t secret))"
proof -
  let ?p = "rn_processor (ru_rn st)"
  obtain ls where ran: "run (proc_step (lb_regex L) (lb_sha L)) (rn_processor (ru_rn st0)) ls ?p"
    using processor_run [OF assms(4)] by blast
  have clean: "\<forall>s. safe secret (RedactString (lb_regex L) (Some rd) s)" using assms(2) by (simp add: safe_def)
  obtain lines agg where "fresh_processor rd lines agg (rn_processor (ru_rn st0))"
    using start_fresh [OF assms(3,1)] by blast
  then have p: "safe_processor secret rd ?p"
    using confidential.run_keeps [OF ran, of secret rd] clean fresh_safe by blast
  have held: "held_alerts w \<subseteq> set (p_sink ?p)" if w: "ru_worker st = Some w" for w
  proof -
    obtain w0 wls where w0: "ru_worker st0 = Some w0" "run worker_step w0 wls w" "submitted wls = p_sink ?p"
      using sink.run_keeps [OF assms(4) start_invariants(2) [OF assms(3)]] w by (auto simp: fed_def split: option.splits)
    obtain n m c ds where "NewWorker True n m c ds = Inr w0" using start_ok(5) [OF assms(3) w0(1)] by blast
    from NewWorker_holds [OF this] worker_run_holds [OF w0(2)] w0(3) show ?thesis by simp
  qed
  then have all: "set (p_sink ?p) \<union> (case ru_worker st of None \<Rightarrow> {} | Some w \<Rightarrow> held_alerts w) = set (p_sink ?p)"
    by (auto split: option.splits)
  note safe_processorD [OF p]
  then show ?thesis unfolding Let_def all by blast
qed


section \<open>Metrics\<close>

text \<open>
  C29. The metrics count what the service did. At any time of its life the counters of received logs
  add up to the records that were given to the open processor, each at the container and the
  level of its sanitized entry; the counter of parse errors is the number of those without a
  known level, and the counter of a rule is the number of its matches among them.
\<close>

theorem Run_metrics:
  assumes "runtime_start R openErr fmtErr clientErr now db cfg dry = (Inr (st0, source), acts)"
    and "run (ru_step L) st0 rls st"
  shows "\<exists>ls log. run (proc_step (lb_regex L) (lb_sha L)) (rn_processor (ru_rn st0)) ls (rn_processor (ru_rn st))
    \<and> p_observer (rn_processor (ru_rn st)) = Some log
    \<and> (\<forall>groups. length groups = length log \<longrightarrow>
       (let m = fold observe_processor (zip groups log) metrics_New;
            entries = map (sanitize (lb_regex L) (rn_processor (ru_rn st0))) (accepted ls) in
        (\<forall>c l. counter (m_Logs m) (c, l) =
          length (filter (\<lambda>e. le_ContainerName e = c \<and> level_String (le_Level e) = l) entries))
        \<and> total (m_Logs m) = length entries
        \<and> m_ParseErrors m = length (filter (\<lambda>e. le_Level e = LevelUnknown) entries)
        \<and> (\<forall>i. counter (m_RuleMatches m) i =
          (\<Sum>e \<leftarrow> entries. length (filter (\<lambda>rule. r_ID rule = i)
            (matches_of (lb_regex L) (rn_processor (ru_rn st0)) e))))))"
proof -
  obtain ls where ran: "run (proc_step (lb_regex L) (lb_sha L)) (rn_processor (ru_rn st0)) ls (rn_processor (ru_rn st))"
    using processor_run [OF assms(2)] by blast
  have "\<not> p_closed (rn_processor (ru_rn st0))"
    using assms(1) by (rule start_eq) (auto simp: processor_New_def ru_start_def newRuntime_def)
  from run_metrics [OF this start_ok(4) [OF assms(1)] ran] ran show ?thesis by blast
qed


section \<open>Health\<close>

text \<open>
  What the steps of the service tell the health state: about Docker and the containers by the
  label of the step, about checkpoints by what the store answered.
\<close>

fun health_of :: "ru_label \<Rightarrow> health_op list" where
  "health_of (RuDocker now) = [HDocker now]"
| "health_of (RuAttached _ now name _ attached) = [HAttached now name attached]"
| "health_of _ = []"

definition told :: "health_op list \<Rightarrow> health_op list" where
  "told ops = filter (\<lambda>x. case x of HCheckpoint _ \<Rightarrow> False | _ \<Rightarrow> True) ops"

lemma told_refs:
  "docker_ref t0 (told ops) = docker_ref t0 ops" "known cs (told ops) = known cs ops"
  "detached_ref t0 cs n (told ops) = detached_ref t0 cs n ops" "list_all op_time_ok (told ops) = list_all op_time_ok ops"
proof -
  show "docker_ref t0 (told ops) = docker_ref t0 ops"
    by (induction ops rule: rev_induct) (auto simp: told_def docker_ref_def map_filter_simps split: health_op.splits)
  show "known cs (told ops) = known cs ops"
  proof -
    have "list_ex (mentions m) (told ops) = list_ex (mentions m) ops" for m
      by (induction ops) (auto simp: told_def mentions_def split: health_op.splits)
    then show ?thesis by (simp add: known_def)
  qed
  show "detached_ref t0 cs n (told ops) = detached_ref t0 cs n ops"
    by (induction ops rule: rev_induct) (auto simp: told_def detached_ref_snoc split: health_op.splits)
  show "list_all op_time_ok (told ops) = list_all op_time_ok ops"
    by (auto simp: told_def list_all_iff op_time_ok_def split: health_op.splits)
qed

text \<open>
  The reports on checkpoints of one step, from the answers of the store alone: for each processed
  record whether \<open>Save\<close> took its checkpoint and no write is failing, for a tick of the
  flush loop whether the store is in order after it, and a failure when a checkpoint cannot be
  loaded or the flush at the shutdown fails.
\<close>

fun item_reports :: "'re libs \<Rightarrow> (nat \<Rightarrow> item_env) \<Rightarrow> nat \<Rightarrow> RawLog list \<Rightarrow> 're Processor \<Rightarrow> ckpt_Store \<Rightarrow> bool list" where
  "item_reports L env i [] p store = []"
| "item_reports L env i (item # items) p store =
     (case processor_Process (lb_regex L) (lb_sha L) (fst (env i)) p item of
        (p, _, Some e) \<Rightarrow> []
      | (p, _, None) \<Rightarrow>
          (let (store, saved) = ckpt_Save (lb_codec L) (snd (env i)) (checkpoint_of (lb_hash L) item) store
           in (\<not> isl saved \<and> ckpt_Err store = None) # item_reports L env (Suc i) items p store))"

fun checkpoint_reports :: "'re libs \<Rightarrow> ru_label \<Rightarrow> 're Runtime \<Rightarrow> bool list" where
  "checkpoint_reports L (RuLog env raw) rn =
     item_reports L env 0 (snd (observer_filter (lb_hash L) raw rn)) (rn_processor rn) (rn_store rn)"
| "checkpoint_reports L (RuTick io) rn = [snd (flush_tick (lb_codec L) io (rn_store rn)) = None]"
| "checkpoint_reports L (RuFlush io) rn =
     (if isl (snd (ckpt_Flush (lb_codec L) io (rn_store rn))) then [False] else [])"
| "checkpoint_reports L (RuAttached io now name cid b) rn =
     (if b \<and> isl (ckpt_Load (lb_codec L) io (rn_store rn) name) then [False] else [])"
| "checkpoint_reports L (RuReplay io now name) rn =
     (if isl (ckpt_Load (lb_codec L) io (rn_store rn) name) then [False] else [])"
| "checkpoint_reports L l rn = []"

text \<open>A run together with the reports of its steps, in order.\<close>

inductive reported :: "'re libs \<Rightarrow> 're run_state \<Rightarrow> ru_label list \<Rightarrow> 're run_state \<Rightarrow> bool list \<Rightarrow> bool"
  for L st0 where
  reported_start: "reported L st0 [] st0 []"
| reported_step: "reported L st0 ls st rs \<Longrightarrow> ru_step L l st st' \<Longrightarrow>
    reported L st0 (ls @ [l]) st' (rs @ checkpoint_reports L l (ru_rn st))"

lemma run_reported: "run (ru_step L) st0 ls st \<Longrightarrow> \<exists>rs. reported L st0 ls st rs"
  by (induction rule: run.induct) (blast intro: reported.intros)+

lemma health_items:
  "rn_health (fst (process_items L env i items rn))
     = fold health_apply (map HCheckpoint (item_reports L env i items (rn_processor rn) (rn_store rn))) (rn_health rn)"
proof (induction L env i items rn rule: process_items.induct)
  case (2 L env i item items rn)
  obtain p ack err where pr: "processor_Process (lb_regex L) (lb_sha L) (fst (env i)) (rn_processor rn) item = (p, ack, err)"
    by (metis prod_cases3)
  obtain store saved where sv: "ckpt_Save (lb_codec L) (snd (env i)) (checkpoint_of (lb_hash L) item) (rn_store rn) = (store, saved)"
    by fastforce
  show ?case
  proof (cases err)
    case None
    from 2 [OF pr [symmetric] refl None] show ?thesis
      by (cases saved) (simp_all add: pr sv None save_item_def)
  qed (simp add: pr)
qed simp

lemma health_processRaw:
  "rn_health (fst (processRaw L env raw rn))
     = fold health_apply (map HCheckpoint (checkpoint_reports L (RuLog env raw) rn)) (rn_health rn)"
proof -
  obtain rn2 items where f: "observer_filter (lb_hash L) raw rn = (rn2, items)" by fastforce
  then have "rn_health rn2 = rn_health rn" "rn_processor rn2 = rn_processor rn" "rn_store rn2 = rn_store rn"
    by (auto simp: observer_filter_def split: option.splits prod.splits)
  with health_items [of L env 0 items rn2] show ?thesis by (simp add: processRaw_def f)
qed

definition step_ops :: "'re libs \<Rightarrow> ru_label \<Rightarrow> 're Runtime \<Rightarrow> health_op list" where
  "step_ops L l rn = health_of l @ map HCheckpoint (checkpoint_reports L l rn)"

lemma health_step:
  "ru_step L l st st' \<Longrightarrow> rn_health (ru_rn st') = fold health_apply (step_ops L l (ru_rn st)) (rn_health (ru_rn st))"
proof (cases rule: ru_step.cases)
  show "ru_step L l st st' \<Longrightarrow> ru_step L l st st'" .
next
  fix env raw running rn' e
  assume "l = RuLog env raw" "processRaw L env raw (ru_rn st) = (rn', e)"
    "st' = (with_runtime rn' st)\<lparr>ru_err := first_err (ru_err st) (proc_err e), ru_phase := log_phase (ru_phase st) (proc_err e)\<rparr>"
  then show ?thesis using health_processRaw [of L env raw "ru_rn st"] by (simp add: with_runtime_def step_ops_def)
qed (auto simp: with_runtime_def flush_status_def DockerAvailable_def replayStart_def store_flushed_def store_closed_def
    ContainerAttached_def step_ops_def Let_def split: prod.splits sum.splits option.splits if_splits)

lemma health_reported:
  assumes "reported L st0 ls st rs"
  shows "\<exists>ops. rn_health (ru_rn st) = fold health_apply ops (rn_health (ru_rn st0))
    \<and> told ops = concat (map health_of ls) \<and> checkpoint_ref ops = last (True # rs)"
  using assms
proof induction
  case reported_start
  show ?case by (intro exI [of _ "[]"]) (simp add: told_def checkpoint_ref_def map_filter_simps)
next
  case (reported_step ls st rs l st')
  then obtain ops where ops: "rn_health (ru_rn st) = fold health_apply ops (rn_health (ru_rn st0))"
    "told ops = concat (map health_of ls)" "checkpoint_ref ops = last (True # rs)" by blast
  let ?cs = "checkpoint_reports L l (ru_rn st)"
  have "told (step_ops L l (ru_rn st)) = health_of l"
    by (cases l) (auto simp: step_ops_def told_def)
  moreover have "List.map_filter (\<lambda>x. case x of HCheckpoint ok \<Rightarrow> Some ok | _ \<Rightarrow> None) (step_ops L l (ru_rn st)) = ?cs"
  proof -
    have "List.map_filter (\<lambda>x. case x of HCheckpoint ok \<Rightarrow> Some ok | _ \<Rightarrow> None) (map HCheckpoint cs) = cs" for cs
      by (induction cs) (simp_all add: map_filter_simps)
    moreover have "List.map_filter (\<lambda>x. case x of HCheckpoint ok \<Rightarrow> Some ok | _ \<Rightarrow> None) (health_of l) = []"
      by (cases l) (simp_all add: map_filter_simps)
    ultimately show ?thesis by (simp add: step_ops_def)
  qed
  ultimately show ?case
    using ops health_step [OF reported_step.hyps(2)]
    by (intro exI [of _ "ops @ step_ops L l (ru_rn st)"]) (auto simp: told_def checkpoint_ref_def)
qed

lemma start_health:
  assumes "runtime_start R openErr fmtErr clientErr now db cfg dry = (Inr (st, source), acts)"
  shows "rn_health (ru_rn st) = NewHealth now (cf_Containers cfg) (hc_DockerUnavailableAfter (cf_Health cfg))
    (hc_AllContainersDetachedAfter (cf_Health cfg))"
  using assms by (auto simp: runtime_start_def Let_def ru_start_def newRuntime_def split: sum.splits option.splits prod.splits if_splits)

text \<open>
  C24. The health endpoint of the running service. At any time, with clocks that do not read
  zero, it reports \<open>docker\<close> exactly when the last successful call to Docker, or the start, is longer ago
  than configured; \<open>containers\<close> exactly when every container of the configuration and every other
  that was reported is detached and has been so without interruption for longer than
  configured; \<open>checkpoint\<close> exactly when there was a report about the checkpoint store and the last one
  was a failure, where the reports follow from what the store answered to the saves of processed
  records, the ticks of the flush loop, the loads at an attachment and the flush of the
  shutdown; and it answers 200 exactly when it reports nothing. Records, ticks, alerts and the
  shutdown do not disturb the first two.
\<close>

theorem Run_health:
  assumes "runtime_start R openErr fmtErr clientErr now db cfg dry = (Inr (st0, source), acts)"
    and "reported L st0 rls st rs" and "now \<noteq> zero_time" and "list_all op_time_ok (concat (map health_of rls))"
  shows "let hs = concat (map health_of rls); cs = cf_Containers cfg;
      bad = (if hc_DockerUnavailableAfter (cf_Health cfg) < time_sub t (docker_ref now hs) then [''docker''] else [])
      @ (if known cs hs \<noteq> {} \<and> (\<forall>n \<in> known cs hs. \<exists>u. detached_ref now cs n hs = Some u
              \<and> hc_AllContainersDetachedAfter (cf_Health cfg) < time_sub t u) then [''containers''] else [])
      @ (if rs \<noteq> [] \<and> \<not> last rs then [''checkpoint''] else [])
    in ServeHTTP t (rn_health (ru_rn st)) = (if bad = [] then (200, ''ok'', []) else (503, ''unhealthy'', bad))"
proof -
  let ?h0 = "NewHealth now (cf_Containers cfg) (hc_DockerUnavailableAfter (cf_Health cfg)) (hc_AllContainersDetachedAfter (cf_Health cfg))"
  obtain ops where ops: "rn_health (ru_rn st) = fold health_apply ops ?h0" "told ops = concat (map health_of rls)"
    "checkpoint_ref ops = last (True # rs)"
    using health_reported [OF assms(2)] unfolding start_health [OF assms(1)] by blast
  have ok: "list_all op_time_ok ops" using assms(4) told_refs(4) [of ops] by (simp add: ops(2))
  have "(if rs \<noteq> [] \<and> \<not> last rs then [''checkpoint''] else []) = (if checkpoint_ref ops then [] else [''checkpoint''])"
    by (simp add: ops(3))
  with Health_reports [OF assms(3) ok, of "hc_DockerUnavailableAfter (cf_Health cfg)" t "cf_Containers cfg"
      "hc_AllContainersDetachedAfter (cf_Health cfg)"]
  show ?thesis unfolding ops(2) [symmetric] told_refs ops(1) Let_def by simp
qed


subsection \<open>Examples\<close>

definition redacting_config :: Config where
  "redacting_config = (applyRuleDefaults (example_config DefaultConfig))
     \<lparr>cf_Redaction := \<lparr>rdc_Rules = [\<lparr>rdc_Pattern = ''x'', rdc_Replace = ''*''\<rparr>]\<rparr>\<rparr>"

lemma redacting_config_valid: "Validate literal_lib redacting_config = []"
  by code_simp

lemma redacting_rules: "redact_New literal_lib (configured_rules redacting_config) = Inr example_redactor"
  by code_simp

theorem Run_confidential_witness:
  "\<exists>st0 source acts. runtime_start literal_lib None None None 0 [] redacting_config False = (Inr (st0, source), acts)
     \<and> (\<forall>env raw st a. ru_step example_libs (RuLog env raw) st0 st \<longrightarrow> a \<in> set (p_sink (rn_processor (ru_rn st))) \<longrightarrow>
          (\<forall>t \<in> alert_texts a. \<not> contains_str t ''tok-x9''))"
proof -
  have "distinct (normalizedNames (cf_Containers redacting_config)) \<and> [] \<notin> set (normalizedNames (cf_Containers redacting_config))"
    by code_simp
  with validated_start [OF redacting_config_valid, of 0 "[]" False] obtain st0 source acts where
    start: "runtime_start literal_lib None None None 0 [] redacting_config False = (Inr (st0, source), acts)" by auto
  have R: "lb_regex example_libs = literal_lib" by (simp add: example_libs_def)
  have "\<forall>t \<in> alert_texts a. \<not> contains_str t ''tok-x9''"
    if "ru_step example_libs (RuLog env raw) st0 st" "a \<in> set (p_sink (rn_processor (ru_rn st)))" for env raw st a
  proof -
    have r: "run (ru_step example_libs) st0 [RuLog env raw] st"
      by (rule run_Cons [where step = "ru_step example_libs", OF that(1) run_start])
    from Run_confidential [where L = example_libs, unfolded R, OF redacting_rules example_redactor_clean start r] that(2)
    show ?thesis unfolding Let_def by blast
  qed
  with start show ?thesis by blast
qed

theorem Run_metrics_witness:
  "\<exists>(st :: (bool \<times> string) run_state) log ls (st0 :: (bool \<times> string) run_state). p_observer (rn_processor (ru_rn st)) = Some log
     \<and> run (proc_step literal_lib (lb_sha example_libs)) (rn_processor (ru_rn st0)) ls (rn_processor (ru_rn st))
     \<and> total (m_Logs (fold observe_processor (zip (replicate (length log) 0) log) metrics_New)) = length (accepted ls)"
proof -
  obtain st0 source acts rls st where ex: "runtime_start literal_lib None None None 0 []
      (applyRuleDefaults (example_config DefaultConfig)) False = (Inr (st0, source), acts)"
    "run (ru_step example_libs) st0 rls st" using example_service by blast
  have R: "lb_regex example_libs = literal_lib" by (simp add: example_libs_def)
  obtain ls log where log: "p_observer (rn_processor (ru_rn st)) = Some log"
    "run (proc_step literal_lib (lb_sha example_libs)) (rn_processor (ru_rn st0)) ls (rn_processor (ru_rn st))"
    "\<And>groups. length groups = length log \<Longrightarrow>
       total (m_Logs (fold observe_processor (zip groups log) metrics_New)) = length (accepted ls)"
    using Run_metrics [OF ex] unfolding R Let_def by (auto simp: Let_def)
  from log(1,2) log(3) [of "replicate (length log) 0"] show ?thesis
    by (intro exI [of _ st] exI [of _ log] exI [of _ ls] exI [of _ st0]) simp
qed

theorem Run_health_witness:
  "\<exists>(st0 :: (bool \<times> string) run_state) source acts st.
     runtime_start literal_lib None None None 1 [] redacting_config True = (Inr (st0, source), acts)
     \<and> ru_step example_libs (RuAttached (Some ''io'') 2 ''index-node-0'' ''c1'' True) st0 st
     \<and> ServeHTTP 3 (rn_health (ru_rn st)) = (503, ''unhealthy'', [''checkpoint''])"
proof -
  let ?l = "RuAttached (Some ''io'') 2 ''index-node-0'' ''c1'' True"
  have "distinct (normalizedNames (cf_Containers redacting_config)) \<and> [] \<notin> set (normalizedNames (cf_Containers redacting_config))"
    by code_simp
  with validated_start [OF redacting_config_valid, of 1 "[]" True] obtain st0 source acts where
    start: "runtime_start literal_lib None None None 1 [] redacting_config True = (Inr (st0, source), acts)" by auto
  have cfg: "cf_Containers redacting_config = [''index-node-0'']"
    "2 < hc_DockerUnavailableAfter (cf_Health redacting_config)" "2 < hc_AllContainersDetachedAfter (cf_Health redacting_config)"
    by code_simp+
  define st where "st = with_runtime (ContainerAttached (lb_codec example_libs) (Some ''io'') 2 ''index-node-0'' ''c1'' True (ru_rn st0)) st0"
  have step: "ru_step example_libs ?l st0 st"
    unfolding st_def by (rule ru_step.attached) (simp add: start_ok(6) [OF start])
  obtain path iv ev where "ckpt_Open None [] path iv ev = Inr (rn_store (ru_rn st0))" using start_ok(1) [OF start] by blast
  then have "st_pending (rn_store (ru_rn st0)) = []" "\<not> st_closed (rn_store (ru_rn st0))"
    by (simp_all add: ckpt_Open_fresh)
  then have "isl (ckpt_Load (lb_codec example_libs) (Some ''io'') (rn_store (ru_rn st0)) ''index-node-0'')"
    by (simp add: ckpt_Load_def)
  then have rep: "reported example_libs st0 [?l] st [False]"
    using reported_step [OF reported_start step] by simp
  have "detached_ref 1 [''index-node-0''] ''index-node-0'' [HAttached 2 ''index-node-0'' True] = None"
    "docker_ref 1 [HAttached 2 ''index-node-0'' True] = 1"
    by (simp_all add: ref_simps detached_ref_def since_attach_def attaches_def detach_times_def)
  moreover have "known [''index-node-0''] [HAttached 2 ''index-node-0'' True] = {''index-node-0''}"
    by (auto simp: known_def mentions_def)
  ultimately have "ServeHTTP 3 (rn_health (ru_rn st)) = (503, ''unhealthy'', [''checkpoint''])"
    using Run_health [OF start rep, of 3] cfg by (simp add: Let_def op_time_ok_def time_sub_def)
  with start step show ?thesis by blast
qed

end
