(* ===== verification/Whole_Service.thy ===== *)
theory Whole_Service
  imports End_To_End
begin

text \<open>
  The main loop of \<open>Run\<close> (\<open>internal/runtime/runtime.go\<close>) and the goroutines of
  \<open>LogSource.Run\<close> (\<open>internal/source/docker/source.go\<close>) connected: the context of the source that
  the main loop cancels, the callbacks of the observer, the stream goroutine of every attached
  container, the channel of records between them, and the end of the source that closes it.
  The two relations \<open>ru_step\<close> and \<open>src_step\<close> leave the other side to the environment; here each
  is the environment of the other.
\<close>

section \<open>The connection\<close>

text \<open>
  A goroutine of the source waits for its callbacks, so what it has still to tell the observer
  is kept per goroutine, in order.
\<close>

datatype goroutine = GProbe | GLoop string

text \<open>
  The goroutine that runs \<open>stream\<close> for an attached container: not started, before the call of
  \<open>replayStart\<close>, before the call of \<open>Logs\<close>, with the records that it has still to send, or ended
  with its result in the channel \<open>done\<close>. What the reader will deliver is fixed when the stream is
  opened; a container that goes on writing is a stream that is not at its end.
\<close>

datatype stream_phase =
    SIdle | SSpawned Container | SOpening Container gotime | SSending Container "RawLog list" | SEnded

fun stream_container :: "stream_phase \<Rightarrow> Container option" where
  "stream_container (SSpawned c) = Some c"
| "stream_container (SOpening c _) = Some c"
| "stream_container (SSending c _) = Some c"
| "stream_container _ = None"

text \<open>
  \<open>sv_returned\<close> is set when the result of the source is in \<open>sourceDone\<close>, \<open>sv_closed\<close> when \<open>logs\<close> is closed.
\<close>

record 're service =
  sv_run :: "'re run_state"
  sv_source :: src_state
  sv_calls :: "goroutine \<Rightarrow> source_obs list"
  sv_streams :: "string \<Rightarrow> stream_phase"
  sv_capacity :: nat
  sv_logs :: "RawLog list"
  sv_returned :: bool
  sv_closed :: bool

definition sv_start :: "'re run_state \<Rightarrow> LogSource \<Rightarrow> nat \<Rightarrow> 're service" where
  "sv_start st source capacity =
     \<lparr>sv_run = st, sv_source = source_Run source, sv_calls = (\<lambda>_. []), sv_streams = (\<lambda>_. SIdle),
      sv_capacity = capacity, sv_logs = [], sv_returned = False, sv_closed = False\<rparr>"

text \<open>The main loop cancels the context of the source whenever it leaves.\<close>

definition main_moved :: "'re run_state \<Rightarrow> 're service \<Rightarrow> 're service" where
  "main_moved r s =
     s\<lparr>sv_run := r,
       sv_source := (if ru_phase r = Running then sv_source s else (sv_source s)\<lparr>sr_canceled := True\<rparr>)\<rparr>"

definition source_moved :: "goroutine \<Rightarrow> src_state \<Rightarrow> 're service \<Rightarrow> 're service" where
  "source_moved g src s =
     s\<lparr>sv_source := src, sv_calls := (sv_calls s)(g := drop (length (sr_obs (sv_source s))) (sr_obs src))\<rparr>"

definition set_stream :: "string \<Rightarrow> stream_phase \<Rightarrow> 're service \<Rightarrow> 're service" where
  "set_stream name ph s = s\<lparr>sv_streams := (sv_streams s)(name := ph)\<rparr>"

definition watch_own :: "src_label \<Rightarrow> bool" where
  "watch_own l = (case l of SrCancel \<Rightarrow> False | SrProbe _ \<Rightarrow> False | SrProbeStop \<Rightarrow> False | SrLoop _ _ \<Rightarrow> False | _ \<Rightarrow> True)"

definition probe_own :: "src_label \<Rightarrow> bool" where
  "probe_own l = (case l of SrProbe _ \<Rightarrow> True | SrProbeStop \<Rightarrow> True | _ \<Rightarrow> False)"

text \<open>
  The attach loop reads \<open>done\<close> before it goes on after a stream that ended; when the context or
  a lifecycle event ends a stream, the loop cancels it and then waits in \<open>\<leftarrow>done\<close> before it
  calls the observer.
\<close>

definition loop_ready :: "rc_label \<Rightarrow> stream_phase \<Rightarrow> bool" where
  "loop_ready l ph =
     (case l of
        RcStream StreamDone \<Rightarrow> ph = SEnded
      | RcStream _ \<Rightarrow> ph \<noteq> SIdle
      | _ \<Rightarrow> stream_container ph = None)"

definition stream_after :: "rc_label \<Rightarrow> stream_phase \<Rightarrow> stream_phase" where
  "stream_after l ph = (case l of RcDiscover _ _ \<Rightarrow> SIdle | RcStream StreamDone \<Rightarrow> SIdle | _ \<Rightarrow> ph)"

fun call_ready :: "goroutine \<Rightarrow> 're service \<Rightarrow> bool" where
  "call_ready GProbe s = True"
| "call_ready (GLoop name) s = (stream_container (sv_streams s name) = None)"

text \<open>What a callback does beside the metrics, where a reconnect is counted.\<close>

fun callback :: "io \<Rightarrow> gotime \<Rightarrow> source_obs \<Rightarrow> ru_label option" where
  "callback io now ObsDockerAvailable = Some (RuDocker now)"
| "callback io now (ObsAttached name i attached) = Some (RuAttached io now name i attached)"
| "callback io now (ObsReconnect name) = None"

text \<open>The context of a stream: cancelled with the source, or by the loop that no longer waits for it.\<close>

definition loop_streams :: "string \<Rightarrow> src_state \<Rightarrow> Container option" where
  "loop_streams name src =
     (case gm_get (sr_loops src) name of
        Some rc \<Rightarrow> (case rc_phase rc of RStream c \<Rightarrow> Some c | _ \<Rightarrow> None)
      | None \<Rightarrow> None)"

definition stream_canceled :: "string \<Rightarrow> 're service \<Rightarrow> bool" where
  "stream_canceled name s \<longleftrightarrow> sr_canceled (sv_source s) \<or> loop_streams name (sv_source s) = None"

definition stream_opened ::
  "(string \<Rightarrow> gotime option) \<Rightarrow> bool \<Rightarrow> string + byte_reader \<Rightarrow> LogSource \<Rightarrow> string \<Rightarrow> Container \<Rightarrow> gotime
     \<Rightarrow> stream_phase" where
  "stream_opened parse stderrFirst answer source name c start =
     (case docker_stream parse stderrFirst (\<lambda>_ _. answer) source (Some (\<lambda>_. start)) name c
             \<lparr>lo_sent = [], lo_budget = None\<rparr> of
        (_, Inl _) \<Rightarrow> SEnded
      | (out, Inr _) \<Rightarrow> SSending c (lo_sent out))"

text \<open>\<open>workers.Wait\<close> in \<open>LogSource.Run\<close>: every goroutine has returned, with its callbacks and streams.\<close>

definition source_over :: "'re service \<Rightarrow> bool" where
  "source_over s \<longleftrightarrow> sr_done (sv_source s) \<and> sv_calls s GProbe = []
     \<and> (\<forall>(name, _) \<in> set (sr_loops (sv_source s)).
          sv_calls s (GLoop name) = [] \<and> stream_container (sv_streams s name) = None)"

datatype sv_label =
    SvMain ru_label | SvLog "nat \<Rightarrow> item_env" RawLog | SvLogsClosed | SvSourceDone
  | SvWatch src_label | SvProbe src_label | SvLoop string rc_label | SvCall goroutine source_obs io gotime
  | SvSpawn string | SvReplay string io gotime | SvOpen string bool "string + byte_reader"
  | SvEmit string RawLog | SvStreamEnd string | SvReturn | SvClose

inductive sv_step :: "(string \<Rightarrow> gotime option) \<Rightarrow> 're libs \<Rightarrow> sv_label \<Rightarrow> 're service \<Rightarrow> 're service \<Rightarrow> bool"
  for parse L where
  main: "ru_own l \<or> l = RuDrainExpired \<Longrightarrow> ru_step L l (sv_run s) r \<Longrightarrow> sv_step parse L (SvMain l) s (main_moved r s)"
| log: "sv_logs s = raw # rest \<Longrightarrow> ru_step L (RuLog env raw) (sv_run s) r \<Longrightarrow>
    sv_step parse L (SvLog env raw) s ((main_moved r s)\<lparr>sv_logs := rest\<rparr>)"
| logs_closed: "sv_closed s \<Longrightarrow> sv_logs s = [] \<Longrightarrow> ru_step L RuLogsClosed (sv_run s) r \<Longrightarrow>
    sv_step parse L SvLogsClosed s (main_moved r s)"
| source_done: "sv_returned s \<Longrightarrow> ru_step L (RuSourceDone None) (sv_run s) r \<Longrightarrow>
    sv_step parse L SvSourceDone s (main_moved r s)"
| watch: "watch_own l \<Longrightarrow> src_step l (sv_source s) src \<Longrightarrow> sv_step parse L (SvWatch l) s (s\<lparr>sv_source := src\<rparr>)"
| probe: "probe_own l \<Longrightarrow> sv_calls s GProbe = [] \<Longrightarrow> src_step l (sv_source s) src \<Longrightarrow>
    sv_step parse L (SvProbe l) s (source_moved GProbe src s)"
| loop: "sv_calls s (GLoop name) = [] \<Longrightarrow> loop_ready l (sv_streams s name) \<Longrightarrow>
    src_step (SrLoop name l) (sv_source s) src \<Longrightarrow>
    sv_step parse L (SvLoop name l) s (set_stream name (stream_after l (sv_streams s name)) (source_moved (GLoop name) src s))"
| call: "sv_calls s g = ob # rest \<Longrightarrow> call_ready g s \<Longrightarrow> callback io now ob = Some l \<Longrightarrow> ru_step L l (sv_run s) r \<Longrightarrow>
    sv_step parse L (SvCall g ob io now) s (s\<lparr>sv_run := r, sv_calls := (sv_calls s)(g := rest)\<rparr>)"
| call_reconnect: "sv_calls s g = ob # rest \<Longrightarrow> call_ready g s \<Longrightarrow> callback io now ob = None \<Longrightarrow>
    sv_step parse L (SvCall g ob io now) s (s\<lparr>sv_calls := (sv_calls s)(g := rest)\<rparr>)"
| spawn: "loop_streams name (sv_source s) = Some c \<Longrightarrow> sv_calls s (GLoop name) = [] \<Longrightarrow> sv_streams s name = SIdle \<Longrightarrow>
    sv_step parse L (SvSpawn name) s (set_stream name (SSpawned c) s)"
| replay: "sv_streams s name = SSpawned c \<Longrightarrow> ru_step L (RuReplay io now name) (sv_run s) r \<Longrightarrow>
    sv_step parse L (SvReplay name io now) s
      (set_stream name (SOpening c (snd (replayStart (lb_codec L) io now name (ru_rn (sv_run s))))) (s\<lparr>sv_run := r\<rparr>))"
| opened: "sv_streams s name = SOpening c start \<Longrightarrow>
    sv_step parse L (SvOpen name stderrFirst answer) s
      (set_stream name (stream_opened parse stderrFirst answer (sr_source (sv_source s)) name c start) s)"
| emit: "sv_streams s name = SSending c (raw # rest) \<Longrightarrow> length (sv_logs s) < sv_capacity s \<Longrightarrow>
    sv_step parse L (SvEmit name raw) s (set_stream name (SSending c rest) (s\<lparr>sv_logs := sv_logs s @ [raw]\<rparr>))"
| stream_end: "sv_streams s name = SSending c rest \<Longrightarrow> rest = [] \<or> stream_canceled name s \<Longrightarrow>
    sv_step parse L (SvStreamEnd name) s (set_stream name SEnded s)"
| source_returned: "source_over s \<Longrightarrow> sv_step parse L SvReturn s (s\<lparr>sv_returned := True\<rparr>)"
| close_logs: "sv_returned s \<Longrightarrow> sv_step parse L SvClose s (s\<lparr>sv_closed := True\<rparr>)"

inductive_cases sv_stepE: "sv_step parse L l s s'"


section \<open>Projection to the two sides\<close>

text \<open>The labels of the main relation and of the source in a label of the whole.\<close>

fun main_labels :: "sv_label \<Rightarrow> ru_label list" where
  "main_labels (SvMain l) = [l]"
| "main_labels (SvLog env raw) = [RuLog env raw]"
| "main_labels SvLogsClosed = [RuLogsClosed]"
| "main_labels SvSourceDone = [RuSourceDone None]"
| "main_labels (SvCall g ob io now) = (case callback io now ob of None \<Rightarrow> [] | Some l \<Rightarrow> [l])"
| "main_labels (SvReplay name io now) = [RuReplay io now name]"
| "main_labels _ = []"

fun source_labels :: "sv_label \<Rightarrow> src_label list" where
  "source_labels (SvWatch l) = [l]"
| "source_labels (SvProbe l) = [l]"
| "source_labels (SvLoop name l) = [SrLoop name l]"
| "source_labels _ = []"

lemma service_simps [simp]:
  "sv_run (main_moved r s) = r" "sv_calls (main_moved r s) = sv_calls s" "sv_streams (main_moved r s) = sv_streams s"
  "sv_capacity (main_moved r s) = sv_capacity s" "sv_logs (main_moved r s) = sv_logs s"
  "sv_returned (main_moved r s) = sv_returned s" "sv_closed (main_moved r s) = sv_closed s"
  "sv_run (source_moved g src s) = sv_run s" "sv_source (source_moved g src s) = src"
  "sv_streams (source_moved g src s) = sv_streams s" "sv_capacity (source_moved g src s) = sv_capacity s"
  "sv_logs (source_moved g src s) = sv_logs s" "sv_returned (source_moved g src s) = sv_returned s"
  "sv_closed (source_moved g src s) = sv_closed s"
  "sv_run (set_stream n ph s) = sv_run s" "sv_source (set_stream n ph s) = sv_source s" "sv_calls (set_stream n ph s) = sv_calls s"
  "sv_streams (set_stream n ph s) = (sv_streams s)(n := ph)" "sv_capacity (set_stream n ph s) = sv_capacity s"
  "sv_logs (set_stream n ph s) = sv_logs s" "sv_returned (set_stream n ph s) = sv_returned s"
  "sv_closed (set_stream n ph s) = sv_closed s"
  by (simp_all add: main_moved_def source_moved_def set_stream_def)

lemma run_one: "step l s s' \<Longrightarrow> run step s [l] s'"
  by (rule run_Cons [OF _ run_start])

lemma main_projects: "sv_step parse L l s s' \<Longrightarrow> run (ru_step L) (sv_run s) (main_labels l) (sv_run s')"
  by (cases rule: sv_step.cases) (auto intro: run_one [where step = "ru_step L"] run_start)

lemma main_run: "run (sv_step parse L) s ls s' \<Longrightarrow> run (ru_step L) (sv_run s) (concat (map main_labels ls)) (sv_run s')"
proof (induction rule: run.induct)
  case (run_step ls s1 l s2)
  from run_trans [OF main_projects [OF run_step.hyps(2)] run_step.IH] show ?case by simp
qed (simp add: run_start)

lemma source_runs:
  "\<exists>sls. run src_step src sls src \<and> filter (\<lambda>l. l \<noteq> SrCancel) sls = []"
  "\<exists>sls. run src_step src sls (src\<lparr>sr_canceled := True\<rparr>) \<and> filter (\<lambda>l. l \<noteq> SrCancel) sls = []"
  "src_step l src src' \<Longrightarrow> l \<noteq> SrCancel \<Longrightarrow> \<exists>sls. run src_step src sls src' \<and> filter (\<lambda>l. l \<noteq> SrCancel) sls = [l]"
  using run_start [of src_step src] run_one [where step = src_step, OF src_step.cancel, of src]
    run_one [where step = src_step, of l src src']
  by (auto intro: exI [of _ "[]"] exI [of _ "[SrCancel]"] exI [of _ "[l]"])

lemma source_projects:
  assumes "sv_step parse L l s s'"
  shows "\<exists>sls. run src_step (sv_source s) sls (sv_source s') \<and> filter (\<lambda>l. l \<noteq> SrCancel) sls = source_labels l"
  using assms
proof (cases rule: sv_step.cases)
  case (watch l src)
  then have "l \<noteq> SrCancel" by (auto simp: watch_own_def)
  with watch show ?thesis using source_runs(3) by auto
next
  case (probe l src)
  then have "l \<noteq> SrCancel" by (auto simp: probe_own_def)
  with probe show ?thesis using source_runs(3) by auto
next
  case (loop name l src)
  then show ?thesis using source_runs(3) [of "SrLoop name l" "sv_source s" src] by auto
qed (use source_runs(1,2) in \<open>auto simp: main_moved_def\<close>)

lemma service_projects:
  assumes "run (sv_step parse L) (sv_start st source capacity) ls s"
  shows "run (ru_step L) st (concat (map main_labels ls)) (sv_run s)
    \<and> (\<exists>sls. run src_step (source_Run source) sls (sv_source s)
        \<and> filter (\<lambda>l. l \<noteq> SrCancel) sls = concat (map source_labels ls))"
  using assms
proof (induction rule: run.induct)
  case run_start
  show ?case using source_runs(1) [of "source_Run source"] by (simp add: sv_start_def run.run_start)
next
  case (run_step ls s l s')
  then obtain sls sls' where sls: "run src_step (source_Run source) sls (sv_source s)"
    "filter (\<lambda>l. l \<noteq> SrCancel) sls = concat (map source_labels ls)"
    "run src_step (sv_source s) sls' (sv_source s')" "filter (\<lambda>l. l \<noteq> SrCancel) sls' = source_labels l"
    using source_projects by blast
  from run_trans [OF sls(3,1)] sls(2,4) run_trans [OF main_projects [OF run_step.hyps(2)]] run_step.IH
  show ?case by (auto intro: exI [of _ "sls @ sls'"])
qed


section \<open>The channel and the end of the source\<close>

text \<open>After \<open>workers.Wait\<close> nothing of the source runs any more.\<close>

lemma done_phase: "sr_done src \<Longrightarrow> gm_get (sr_loops src) name = Some rc \<Longrightarrow> rc_phase rc = RStopped"
  by (auto simp: sr_done_def dest: map_of_SomeD)

lemma done_stuck: "src_step l src src' \<Longrightarrow> sr_done src \<Longrightarrow> l = SrCancel"
proof (cases rule: src_step.cases)
  fix name rc l' rc'
  assume "sr_done src" "gm_get (sr_loops src) name = Some rc" "rc_own l'"
    and step: "rc_step (sr_source src) name l' (rc\<lparr>rc_token := sr_token name src\<rparr>) rc'"
  then have "rc_phase rc = RStopped" by (simp add: done_phase)
  with step \<open>rc_own l'\<close> show ?thesis by (cases rule: rc_step.cases) (auto simp: rc_own_def)
qed (auto simp: sr_done_def)

lemma loops_stopped: "sr_done src \<Longrightarrow> loop_streams name src = None"
  by (simp add: loop_streams_def done_phase split: option.splits)

lemma sr_done_canceled [simp]: "sr_done (src\<lparr>sr_canceled := b\<rparr>) = sr_done src"
  by (simp add: sr_done_def)

lemma main_source [simp]:
  "sr_loops (sv_source (main_moved r s)) = sr_loops (sv_source s)"
  "sr_done (sv_source (main_moved r s)) = sr_done (sv_source s)"
  "sr_canceled (sv_source (main_moved r s)) = (ru_phase r \<noteq> Running \<or> sr_canceled (sv_source s))"
  "sr_obs (sv_source (main_moved r s)) = sr_obs (sv_source s)"
  "sr_source (sv_source (main_moved r s)) = sr_source (sv_source s)"
  by (auto simp: main_moved_def)

lemma source_canceled: "src_step l src src' \<Longrightarrow> sr_canceled src \<Longrightarrow> sr_canceled src'"
  by (induction rule: src_step.induct) (auto simp: rc_joined_def probe_once_def split: sum.splits)

definition only_loops :: "'re service \<Rightarrow> bool" where
  "only_loops s \<longleftrightarrow> (\<forall>n. n \<notin> fst ` set (sr_loops (sv_source s)) \<longrightarrow> sv_streams s n = SIdle \<and> sv_calls s (GLoop n) = [])"

lemma only_loops_step: "sv_step parse L l s s' \<Longrightarrow> only_loops s \<Longrightarrow> only_loops s'"
proof (cases rule: sv_step.cases)
  show "sv_step parse L l s s' \<Longrightarrow> sv_step parse L l s s'" .
next
  fix name l' src
  assume inv: "only_loops s" and s': "s' = set_stream name (stream_after l' (sv_streams s name)) (source_moved (GLoop name) src s)"
    and step: "src_step (SrLoop name l') (sv_source s) src"
  have "name \<in> fst ` set (sr_loops (sv_source s))"
    using step gm_get_None [of "sr_loops (sv_source s)" name] by (auto elim!: src_stepE)
  then show ?thesis using inv loop_names(1) [OF step] by (auto simp: only_loops_def s' source_moved_def)
next
  fix l' src
  assume "only_loops s" "s' = s\<lparr>sv_source := src\<rparr>" "src_step l' (sv_source s) src"
  then show ?thesis using loop_names(1) [of l' "sv_source s" src] by (auto simp: only_loops_def)
next
  fix l' src
  assume "only_loops s" "s' = source_moved GProbe src s" "src_step l' (sv_source s) src"
  then show ?thesis using loop_names(1) [of l' "sv_source s" src] by (auto simp: only_loops_def source_moved_def)
next
  fix name c
  assume inv: "only_loops s" and s': "s' = set_stream name (SSpawned c) s" and c: "loop_streams name (sv_source s) = Some c"
  have "name \<in> fst ` set (sr_loops (sv_source s))"
    using c gm_get_None [of "sr_loops (sv_source s)" name] by (auto simp: loop_streams_def split: option.splits)
  then show ?thesis using inv by (auto simp: only_loops_def s')
qed (auto simp: only_loops_def)

lemma source_over_step:
  assumes "sv_step parse L l s s'" and "source_over s" and "only_loops s"
  shows "source_over s'"
proof -
  have quiet: "stream_container (sv_streams s n) = None" "sv_calls s (GLoop n) = []" "sv_calls s GProbe = []" for n
    using assms(2,3) by (cases "n \<in> fst ` set (sr_loops (sv_source s))"; force simp: source_over_def only_loops_def)+
  have "sr_done (sv_source s)" using assms(2) by (simp add: source_over_def)
  note stuck = done_stuck [OF _ this] loops_stopped [OF this]
  from assms(1) show ?thesis
  proof (cases rule: sv_step.cases)
    case (call g ob rest io now l r)
    then show ?thesis using quiet by (cases g) auto
  next
    case (call_reconnect g ob rest io now)
    then show ?thesis using quiet by (cases g) auto
  next
    case (replay name c io now r)
    then show ?thesis using quiet(1) [of name] by simp
  next
    case (opened name c start sf answer)
    then show ?thesis using quiet(1) [of name] by simp
  next
    case (emit name c raw rest)
    then show ?thesis using quiet(1) [of name] by simp
  next
    case (stream_end name c rest)
    then show ?thesis using quiet(1) [of name] by simp
  next
    case (watch l src)
    then show ?thesis using stuck(1) by (fastforce simp: watch_own_def)
  next
    case (probe l src)
    then show ?thesis using stuck(1) by (fastforce simp: probe_own_def)
  next
    case (loop name l src)
    then show ?thesis using stuck(1) by blast
  qed (use assms(2) stuck(2) in \<open>auto simp: source_over_def\<close>)
qed

text \<open>How a step of the main side moves its phase, and that an expired drain stays on record.\<close>

lemma phase_step:
  assumes "ru_step L l st st'"
  shows "case l of
      RuLogsClosed \<Rightarrow> ru_phase st = Running \<and> ru_phase st' = Draining True True
        \<or> (\<exists>r. ru_phase st = Draining True r \<and> ru_phase st' = Draining False r)
    | RuSourceDone _ \<Rightarrow> \<exists>logs. ru_phase st = Draining logs True \<and> ru_phase st' = Draining logs False
    | RuDrainExpired \<Rightarrow> RunDrainExpired \<in> set (ru_err st')
    | RuDocker _ \<Rightarrow> ru_phase st' = ru_phase st
    | RuAttached _ _ _ _ _ \<Rightarrow> ru_phase st' = ru_phase st
    | RuReplay _ _ _ \<Rightarrow> ru_phase st' = ru_phase st
    | RuLog _ _ \<Rightarrow> ru_phase st' = ru_phase st \<or> ru_phase st = Running \<and> ru_phase st' = Draining True True
    | _ \<Rightarrow> ru_phase st' = ru_phase st \<or> ru_phase st = Running \<and> ru_phase st' = Draining True True
        \<or> (ru_phase st = Draining False False \<or> closing (ru_phase st)) \<and> closing (ru_phase st')"
    and "ru_phase st \<noteq> Running \<Longrightarrow> RunDrainExpired \<in> set (ru_err st) \<Longrightarrow> RunDrainExpired \<in> set (ru_err st')"
    and "\<not> ru_own l \<Longrightarrow> ru_phase st \<noteq> Running \<Longrightarrow> ru_phase st' \<noteq> Running"
    and "ru_err st' = [] \<Longrightarrow> ru_err st = []"
  using assms by (induction rule: ru_step.induct) (auto simp: ru_frames log_phase_def first_err_def split: if_splits)

fun drained :: "run_phase \<Rightarrow> 're service \<Rightarrow> bool" where
  "drained Running s = True"
| "drained (Draining logs running) s = ((logs \<or> sv_closed s \<and> sv_logs s = []) \<and> (running \<or> sv_returned s))"
| "drained _ s = (sv_closed s \<and> sv_logs s = [])"

definition drain_ok :: "'re service \<Rightarrow> bool" where
  "drain_ok s \<longleftrightarrow> RunDrainExpired \<in> set (ru_err (sv_run s)) \<or> drained (ru_phase (sv_run s)) s"

definition flow_inv :: "'re service \<Rightarrow> bool" where
  "flow_inv s \<longleftrightarrow> only_loops s \<and> (ru_phase (sv_run s) \<noteq> Running \<longrightarrow> sr_canceled (sv_source s))
     \<and> (sv_returned s \<longrightarrow> source_over s) \<and> (sv_closed s \<longrightarrow> sv_returned s) \<and> length (sv_logs s) \<le> sv_capacity s
     \<and> drain_ok s"

lemma drained_closing: "closing ph \<Longrightarrow> drained ph s = (sv_closed s \<and> sv_logs s = [])"
  by (cases ph) auto

lemma drained_cong:
  "sv_closed s = sv_closed s' \<Longrightarrow> sv_logs s = sv_logs s' \<Longrightarrow> sv_returned s = sv_returned s' \<Longrightarrow> drained ph s = drained ph s'"
  by (cases ph) auto

text \<open>A step of the main side that does not read from the channel or the end of the source.\<close>

lemma drained_main:
  assumes "ru_step L l (sv_run s) r" and "drain_ok s" and "ru_own l \<or> l = RuDrainExpired \<or> l = RuDocker now
      \<or> l = RuAttached io now name i b \<or> l = RuReplay io now name"
    and "sv_run s' = r" and "sv_closed s' = sv_closed s" and "sv_logs s' = sv_logs s" and "sv_returned s' = sv_returned s"
  shows "drain_ok s'"
proof (cases "RunDrainExpired \<in> set (ru_err r) \<or> ru_phase r \<in> {Running, Draining True True}")
  case False
  note phase = phase_step(1,2) [OF assms(1)]
  have "drained (ru_phase (sv_run s)) s" using False assms(2) phase(2) by (cases "ru_phase (sv_run s)") (auto simp: drain_ok_def)
  moreover have "ru_phase r = ru_phase (sv_run s)
      \<or> (ru_phase (sv_run s) = Draining False False \<or> closing (ru_phase (sv_run s))) \<and> closing (ru_phase r)"
    using phase(1) assms(3) False by (auto simp: ru_own_def split: ru_label.splits)
  ultimately have "drained (ru_phase r) s" by (auto simp: drained_closing)
  then show ?thesis using drained_cong [of s s' "ru_phase r"] assms(4-7) by (simp add: drain_ok_def)
qed (use assms(4-7) in \<open>auto simp: drain_ok_def\<close>)

lemma drained_step:
  assumes "sv_step parse L l s s'" and "flow_inv s"
  shows "drain_ok s'"
proof -
  have inv: "drain_ok s" using assms(2) by (simp add: flow_inv_def)
  from assms(1) show ?thesis
  proof (cases rule: sv_step.cases)
    case (main l r)
    then show ?thesis by (auto intro: drained_main [OF main(4) inv])
  next
    case (log raw rest env r)
    with phase_step(1,2) [OF log(4)] inv show ?thesis by (cases "ru_phase (sv_run s)") (auto simp: drain_ok_def)
  next
    case (logs_closed r)
    with phase_step(1,2) [OF logs_closed(5)] inv show ?thesis by (auto simp: drain_ok_def)
  next
    case (source_done r)
    with phase_step(1,2) [OF source_done(4)] inv show ?thesis by (auto simp: drain_ok_def)
  next
    case (call g ob rest io now l r)
    then show ?thesis by (cases ob) (auto intro: drained_main [OF call(6) inv])
  next
    case (replay name c io now r)
    then show ?thesis by (auto intro: drained_main [OF replay(4) inv])
  next
    case (emit name c raw rest)
    have "\<not> sv_closed s"
      using assms(2) emit(3) by (cases "name \<in> fst ` set (sr_loops (sv_source s))") (force simp: flow_inv_def source_over_def only_loops_def)+
    then show ?thesis using inv emit by (cases "ru_phase (sv_run s)") (auto simp: drain_ok_def)
  next
    case source_returned
    then show ?thesis using inv by (cases "ru_phase (sv_run s)") (auto simp: drain_ok_def)
  next
    case close_logs
    then show ?thesis using inv by (cases "ru_phase (sv_run s)") (auto simp: drain_ok_def)
  qed (use inv drained_cong [of s s' "ru_phase (sv_run s)"] in \<open>simp_all add: drain_ok_def\<close>)
qed


interpretation flow: step_invariant "sv_step parse L" flow_inv for parse L
proof
  fix s l s'
  assume inv: "flow_inv s" and step: "sv_step parse L l s s'"
  have over: "source_over s \<Longrightarrow> source_over s'" and only: "only_loops s'"
    using source_over_step [OF step] only_loops_step [OF step] inv by (auto simp: flow_inv_def)
  have "ru_phase (sv_run s') \<noteq> Running \<longrightarrow> sr_canceled (sv_source s')"
    using step
  proof (cases rule: sv_step.cases)
    case (call g ob rest io now l r)
    then show ?thesis using phase_step(1) [OF call(6)] inv by (cases ob) (auto simp: flow_inv_def)
  next
    case (replay name c io now r)
    then show ?thesis using phase_step(1) [OF replay(4)] inv by (auto simp: flow_inv_def)
  qed (use inv source_canceled in \<open>auto simp: flow_inv_def\<close>)
  moreover have "(sv_returned s' \<longrightarrow> source_over s') \<and> (sv_closed s' \<longrightarrow> sv_returned s') \<and> length (sv_logs s') \<le> sv_capacity s'"
    using step inv over by (cases rule: sv_step.cases) (auto simp: flow_inv_def)
  ultimately show "flow_inv s'" using only drained_step [OF step inv] by (simp add: flow_inv_def)
qed


section \<open>What the observer knows\<close>

subsection \<open>The records of a stream\<close>

definition labelled :: "string \<Rightarrow> string \<Rightarrow> log_output \<Rightarrow> bool" where
  "labelled name cid out \<longleftrightarrow> (\<forall>r \<in> set (lo_sent out). rl_ContainerName r = name \<and> rl_ContainerID r = cid)"

lemma labelled_emit: "labelled name cid out \<Longrightarrow> labelled name cid (fst (docker_emit parse name cid stream line out))"
  by (auto simp: labelled_def docker_emit_def raw_record_def split: prod.splits)

lemma labelled_send:
  "labelled name cid out \<Longrightarrow> labelled name cid (send_all (map (raw_record parse name cid stream) ls) out)"
  by (auto simp: labelled_def send_all_def raw_record_def split: prod.splits option.splits dest!: in_set_takeD)

lemma labelled_buffered: "labelled name cid out \<Longrightarrow> labelled name cid (fst (emit_buffered parse name cid buffers out))"
proof (induction parse name cid buffers out rule: emit_buffered.induct)
  case (2 parse name cid stream buffered rest out)
  then show ?case using labelled_emit [OF 2(3), of parse "streamName stream" buffered]
    by (auto simp: Let_def split: prod.splits)
qed simp

lemma labelled_mux: "labelled name cid out \<Longrightarrow> labelled name cid (fst (mux_loop parse name cid buffers out r))"
proof (induction "length (br_bytes r)" arbitrary: buffers out r rule: less_induct)
  case less
  have drain: "labelled name cid out'" if "drain_lines parse name cid stream b out = (rest, out', err)" for stream b rest out' err
    using drain_lines_eq [OF refl, of parse name cid stream b out] labelled_send [OF less.prems] that by auto
  show ?case
  proof (cases "ReadFull 8 r")
    case (Inl e)
    then show ?thesis
      using less.prems labelled_buffered [OF less.prems] by (subst mux_loop.simps) (cases e; simp)
  next
    case (Inr x)
    obtain header r1 where x: "x = (header, r1)" by fastforce
    show ?thesis
    proof (cases "ReadFull (uint32_be (drop 4 header)) r1")
      case (Inr y)
      obtain payload r2 where y: "y = (payload, r2)" by fastforce
      have r2: "length (br_bytes r2) < length (br_bytes r)"
        using ReadFull_length [OF Inr [unfolded y]] ReadFull_length [OF \<open>ReadFull 8 r = Inr x\<close> [unfolded x]] by simp
      obtain rest out' err where d: "drain_lines parse name cid (streamName (header ! 0))
          (buffer_of buffers (header ! 0) @ payload) out = (rest, out', err)" by (metis prod_cases3)
      show ?thesis
        using less.hyps [OF r2 less.prems] less.hyps [OF r2 drain [OF d]] drain [OF d] \<open>ReadFull 8 r = Inr x\<close> Inr d
        by (subst mux_loop.simps) (simp add: x y Let_def)
    qed (use less.prems \<open>ReadFull 8 r = Inr x\<close> x in \<open>subst mux_loop.simps, simp add: Let_def\<close>)
  qed
qed

lemma stream_opened_cases:
  "stream_opened parse sf answer source name c start = SEnded
    \<or> (\<exists>rs. stream_opened parse sf answer source name c start = SSending c rs
        \<and> (\<forall>r \<in> set rs. rl_ContainerName r = name \<and> rl_ContainerID r = dc_ID c))"
proof (cases answer)
  case (Inr r)
  let ?out = "\<lparr>lo_sent = [], lo_budget = None\<rparr>"
  have empty: "labelled name (dc_ID c) ?out" by (simp add: labelled_def)
  show ?thesis
    using Inr labelled_send [OF empty, of parse "''stdout''"] labelled_mux [OF empty, of parse "new_buffers sf" r]
    by (auto simp: stream_opened_def docker_stream_def decodePlain_eq decodeMultiplexed_def labelled_def apsnd_def map_prod_def
        split: prod.splits)
qed (simp add: stream_opened_def docker_stream_def)


subsection \<open>The attached containers\<close>

text \<open>Under which identifier the observer has a container attached.\<close>

definition observed :: "string \<Rightarrow> 're Runtime \<Rightarrow> string option" where
  "observed n rn = (if attached_at (rn_health rn) n then gm_get (rn_ids rn) n else None)"

lemma step_ops_attached:
  assumes "health_of l = [] \<or> (\<exists>now. l = RuDocker now)"
  shows "h_attached (fold health_apply (step_ops L l rn) h) = h_attached h"
proof -
  have "h_attached (fold health_apply (map HCheckpoint cs) h) = h_attached h" for cs
    by (induction cs arbitrary: h) (simp_all add: CheckpointOK_def)
  then show ?thesis using assms by (auto simp: step_ops_def DockerOK_def)
qed

lemma ids_save [simp]: "rn_ids (save_item L io item rn) = rn_ids rn"
  by (auto simp: save_item_def split: prod.splits sum.splits)

lemma ids_items: "rn_ids (fst (process_items L env i items rn)) = rn_ids rn"
  by (induction L env i items rn rule: process_items.induct) (auto split: prod.splits option.splits)

lemma ids_processRaw: "rn_ids (fst (processRaw L env raw rn)) = rn_ids rn"
  using ids_items [of L env 0 _ "fst (observer_filter (lb_hash L) raw rn)"]
  by (auto simp: processRaw_def observer_filter_def split: option.splits prod.splits)

lemma attached_at_set: "attached_at (health_Attached now m b h) n = (if n = m then b else attached_at h n)"
  by (auto simp: attached_at_def health_Attached_def Let_def gm_get_set)

lemma observed_attached:
  "observed n (ContainerAttached codec io now m i b rn) = (if n = m then (if b then Some i else None) else observed n rn)"
proof -
  let ?rn = "ContainerAttached codec io now m i b rn"
  have "h_attached (rn_health ?rn) = h_attached (health_Attached now m b (rn_health rn))"
    by (auto simp: ContainerAttached_def Let_def CheckpointOK_def split: sum.splits prod.splits)
  moreover have "gm_get (rn_ids ?rn) n = (if b \<and> n = m then Some i else gm_get (rn_ids rn) n)"
    by (auto simp: ContainerAttached_def Let_def gm_get_set split: sum.splits prod.splits)
  ultimately show ?thesis using attached_at_set [of now m b "rn_health rn" n] by (auto simp: observed_def attached_at_def)
qed

lemma observed_step:
  assumes "ru_step L l st st'"
  shows "observed n (ru_rn st') = (case l of
      RuAttached _ _ m i b \<Rightarrow> if n = m then (if b then Some i else None) else observed n (ru_rn st)
    | _ \<Rightarrow> observed n (ru_rn st))"
proof (cases "health_of l = [] \<or> (\<exists>now. l = RuDocker now)")
  case True
  have "h_attached (rn_health (ru_rn st')) = h_attached (rn_health (ru_rn st))"
    using health_step [OF assms] step_ops_attached [OF True] by simp
  moreover have "rn_ids (ru_rn st') = rn_ids (ru_rn st)"
    using assms True
  proof (cases rule: ru_step.cases)
    case (log running env raw rn' e)
    then show ?thesis using ids_processRaw [of L env raw "ru_rn st"] by simp
  qed (auto simp: flush_status_def DockerAvailable_def replayStart_def store_flushed_def store_closed_def Let_def
      split: prod.splits sum.splits option.splits)
  ultimately show ?thesis using True by (auto simp: observed_def attached_at_def split: ru_label.splits)
next
  case False
  with assms show ?thesis by (cases rule: ru_step.cases) (auto simp: observed_attached)
qed

text \<open>What one pass of an attach loop tells the observer, and what its goroutine does then.\<close>

definition phase_id :: "rc_phase \<Rightarrow> string option" where
  "phase_id ph = (case ph of RStream c \<Rightarrow> Some (dc_ID c) | _ \<Rightarrow> None)"

lemma rc_step_tells:
  assumes "rc_step s name l rc rc'" and "rc_own l"
  shows "rc_phase rc \<noteq> RStopped \<and> (\<exists>obs. rc_obs rc' = rc_obs rc @ obs
    \<and> (rc_phase rc' \<noteq> RStopped \<longrightarrow> attach_now (phase_id (rc_phase rc)) obs = phase_id (rc_phase rc'))
    \<and> (\<forall>ob \<in> set obs. about name ob \<or> ob = ObsDockerAvailable)
    \<and> (rc_phase rc' = RStopped \<longrightarrow> obs = []))"
  using assms
  by (cases rule: rc_step.cases)
     (auto simp: rc_discover_def rc_wait_def rc_stream_end_def rc_tell_def Let_def about_def phase_id_def rc_own_def
        split: sum.splits wait_end.splits stream_end.splits)

lemma loop_step_tells:
  assumes "src_step (SrLoop name l) src src'" and "gm_get (sr_loops src) name = Some rc"
  shows "\<exists>rc' obs. gm_get (sr_loops src') name = Some rc' \<and> sr_obs src' = sr_obs src @ obs
    \<and> (\<forall>n. n \<noteq> name \<longrightarrow> gm_get (sr_loops src') n = gm_get (sr_loops src) n) \<and> rc_phase rc \<noteq> RStopped
    \<and> (rc_phase rc' \<noteq> RStopped \<longrightarrow> attach_now (phase_id (rc_phase rc)) obs = phase_id (rc_phase rc'))
    \<and> (\<forall>ob \<in> set obs. about name ob \<or> ob = ObsDockerAvailable) \<and> (rc_phase rc' = RStopped \<longrightarrow> obs = [])"
  using assms(1)
proof (cases rule: src_step.cases)
  case (loop rc0 rc')
  have "rc0 = rc" using loop assms(2) by simp
  with rc_step_tells [OF loop(5,3)] loop(1) show ?thesis
    by (intro exI [of _ rc']) (auto simp: rc_joined_def gm_get_set)
qed

definition view_at :: "string \<Rightarrow> string option \<Rightarrow> rc_state option \<Rightarrow> source_obs list \<Rightarrow> stream_phase \<Rightarrow> bool" where
  "view_at n seen loop calls stream \<longleftrightarrow>
     (\<forall>rc. loop = Some rc \<and> rc_phase rc \<noteq> RStopped \<longrightarrow> attach_now seen calls = phase_id (rc_phase rc))
     \<and> (\<forall>c. stream_container stream = Some c \<longrightarrow> seen = Some (dc_ID c))
     \<and> (\<forall>c rs. stream = SSending c rs \<longrightarrow> (\<forall>r \<in> set rs. rl_ContainerName r = n \<and> rl_ContainerID r = dc_ID c))
     \<and> (\<forall>ob \<in> set calls. about n ob \<or> ob = ObsDockerAvailable)"

definition view_inv :: "'re service \<Rightarrow> bool" where
  "view_inv s \<longleftrightarrow> (\<forall>n. view_at n (observed n (ru_rn (sv_run s))) (gm_get (sr_loops (sv_source s)) n)
       (sv_calls s (GLoop n)) (sv_streams s n))
     \<and> set (sv_calls s GProbe) \<subseteq> {ObsDockerAvailable}"

lemma view_inv_loop:
  assumes "view_inv s" and "sv_calls s (GLoop name) = []" and "loop_ready l (sv_streams s name)"
    and "src_step (SrLoop name l) (sv_source s) src"
  shows "view_inv (set_stream name (stream_after l (sv_streams s name)) (source_moved (GLoop name) src s))"
proof -
  let ?seen = "observed name (ru_rn (sv_run s))" and ?after = "stream_after l (sv_streams s name)"
  obtain rc where rc: "gm_get (sr_loops (sv_source s)) name = Some rc" using assms(4) by (auto elim: src_stepE)
  from loop_step_tells [OF assms(4) rc] obtain rc' obs where t: "gm_get (sr_loops src) name = Some rc'"
    "sr_obs src = sr_obs (sv_source s) @ obs" "\<forall>n. n \<noteq> name \<longrightarrow> gm_get (sr_loops src) n = gm_get (sr_loops (sv_source s)) n"
    "rc_phase rc \<noteq> RStopped" "rc_phase rc' \<noteq> RStopped \<longrightarrow> attach_now (phase_id (rc_phase rc)) obs = phase_id (rc_phase rc')"
    "\<forall>ob \<in> set obs. about name ob \<or> ob = ObsDockerAvailable" by blast
  have old: "view_at name ?seen (Some rc) [] (sv_streams s name)"
    using assms(1,2) rc by (simp add: view_inv_def) (metis rc assms(2))
  have "?after = sv_streams s name \<or> ?after = SIdle"
    by (auto simp: stream_after_def split: rc_label.splits stream_end.splits)
  moreover have "view_at name ?seen (Some rc') obs (sv_streams s name)" "view_at name ?seen (Some rc') obs SIdle"
    using old t(4-6) by (auto simp: view_at_def)
  ultimately have "view_at name ?seen (Some rc') obs ?after" by metis
  with assms(1) t(1-3) show ?thesis by (simp add: view_inv_def source_moved_def)
qed

lemma attach_now_ObsAttached: "attach_now a (ObsAttached n i b # os) = attach_now (if b then Some i else None) os"
  by (cases b) simp_all

lemma view_inv_call:
  assumes "view_inv s" and "sv_calls s g = ob # rest" and "call_ready g s"
    and "\<And>n. observed n (ru_rn r) = (if \<exists>i b. ob = ObsAttached n i b then attach_now None [ob] else observed n (ru_rn (sv_run s)))"
  shows "view_inv (s\<lparr>sv_run := r, sv_calls := (sv_calls s)(g := rest)\<rparr>)"
proof (cases g)
  case GProbe
  then have "ob = ObsDockerAvailable" using assms(1,2) by (simp add: view_inv_def)
  with assms GProbe show ?thesis by (simp add: view_inv_def)
next
  case (GLoop name)
  have old: "view_at name (observed name (ru_rn (sv_run s))) (gm_get (sr_loops (sv_source s)) name) (ob # rest) (sv_streams s name)"
    using assms(1,2) GLoop by (simp add: view_inv_def) (metis assms(2))
  have "view_at name (observed name (ru_rn r)) (gm_get (sr_loops (sv_source s)) name) rest (sv_streams s name)"
    using old assms(3,4) GLoop by (cases ob rule: source_obs.exhaust) (auto simp: view_at_def about_def attach_now_ObsAttached)
  moreover have "observed n (ru_rn r) = observed n (ru_rn (sv_run s))" if "n \<noteq> name" for n
    using old assms(4) [of n] that by (auto simp: view_at_def about_def)
  ultimately show ?thesis using assms(1) GLoop by (simp add: view_inv_def)
qed

lemma view_inv_stream:
  assumes "view_inv s" and "\<And>n. observed n (ru_rn (sv_run s')) = observed n (ru_rn (sv_run s))"
    and "sv_source s' = sv_source s" and "sv_calls s' = sv_calls s" and "sv_streams s' = sv_streams s"
    and "\<And>seen loop calls. view_at name seen loop calls (sv_streams s name) \<Longrightarrow> view_at name seen loop calls ph"
  shows "view_inv (set_stream name ph s')"
  using assms by (simp add: view_inv_def)

interpretation view: step_invariant "sv_step parse L" view_inv for parse L
proof
  fix s l s'
  assume inv: "view_inv s" and step: "sv_step parse L l s s'"
  have own: "observed n (ru_rn r) = observed n (ru_rn (sv_run s))"
    if "ru_step L l (sv_run s) r" "\<forall>io now m i b. l \<noteq> RuAttached io now m i b" for l r n
    using observed_step [OF that(1), of n] that(2) by (auto split: ru_label.splits)
  from step show "view_inv s'"
  proof (cases rule: sv_step.cases)
    case (main l r)
    then have "\<forall>io now m i b. l \<noteq> RuAttached io now m i b" by (auto simp: ru_own_def)
    then show ?thesis using inv main(2) own [OF main(4)] by (simp add: view_inv_def)
  next
    case (log raw rest env r)
    then show ?thesis using inv own [OF log(4)] by (simp add: view_inv_def)
  next
    case (logs_closed r)
    then show ?thesis using inv own [OF logs_closed(5)] by (simp add: view_inv_def)
  next
    case (source_done r)
    then show ?thesis using inv own [OF source_done(4)] by (simp add: view_inv_def)
  next
    case (watch l src)
    then have "sr_loops src = sr_loops (sv_source s)" by (auto simp: watch_own_def elim!: src_stepE)
    then show ?thesis using inv watch by (simp add: view_inv_def)
  next
    case (probe l src)
    then have "sr_loops src = sr_loops (sv_source s)"
      "set (drop (length (sr_obs (sv_source s))) (sr_obs src)) \<subseteq> {ObsDockerAvailable}"
      by (auto simp: probe_own_def probe_once_def elim!: src_stepE split: sum.splits)
    then show ?thesis using inv probe by (simp add: view_inv_def source_moved_def)
  next
    case (loop name l src)
    then show ?thesis using view_inv_loop inv by blast
  next
    case (call g ob rest io now l r)
    have "observed n (ru_rn r) = (if \<exists>i b. ob = ObsAttached n i b then attach_now None [ob] else observed n (ru_rn (sv_run s)))" for n
      using observed_step [OF call(6), of n] call(5) by (cases ob) (auto simp: attach_now_ObsAttached)
    from view_inv_call [OF inv call(3,4) this] call(2) show ?thesis by simp
  next
    case (call_reconnect g ob rest io now)
    then show ?thesis using view_inv_call [OF inv call_reconnect(3,4), of "sv_run s"] by (cases ob) auto
  next
    case (spawn name c)
    then have "view_at name (observed name (ru_rn (sv_run s))) (gm_get (sr_loops (sv_source s)) name) [] SIdle"
      using inv by (simp add: view_inv_def) metis
    then have "view_at name (observed name (ru_rn (sv_run s))) (gm_get (sr_loops (sv_source s)) name) [] (SSpawned c)"
      using spawn(3) by (auto simp: view_at_def loop_streams_def phase_id_def split: option.splits rc_phase.splits)
    then show ?thesis using inv spawn by (simp add: view_inv_def)
  next
    case (replay name c io now r)
    show ?thesis
      unfolding replay(2) by (rule view_inv_stream [OF inv]) (use replay(3) own [OF replay(4)] in \<open>simp_all add: view_at_def\<close>)
  next
    case (opened name c start sf answer)
    show ?thesis
      unfolding opened(2) by (rule view_inv_stream [OF inv])
        (use opened(3) stream_opened_cases [of parse sf answer "sr_source (sv_source s)" name c start] in \<open>auto simp: view_at_def\<close>)
  next
    case (emit name c raw rest)
    show ?thesis unfolding emit(2) by (rule view_inv_stream [OF inv]) (use emit(3) in \<open>simp_all add: view_at_def\<close>)
  next
    case (stream_end name c rest)
    show ?thesis unfolding stream_end(2) by (rule view_inv_stream [OF inv]) (simp_all add: view_at_def)
  qed (use inv in \<open>simp_all add: view_inv_def\<close>)
qed


section \<open>Every record is accounted for\<close>

definition logs_of :: "ru_label list \<Rightarrow> RawLog list" where
  "logs_of rls = List.map_filter (\<lambda>l. case l of RuLog env raw \<Rightarrow> Some raw | _ \<Rightarrow> None) rls"

text \<open>A checkpoint of a container that was in the database at the start or that a processed record left.\<close>

definition known_cp ::
  "'re libs \<Rightarrow> (string \<Rightarrow> ContainerCheckpoint option) \<Rightarrow> RawLog list \<Rightarrow> string \<Rightarrow> ContainerCheckpoint \<Rightarrow> bool" where
  "known_cp L base items n cp \<longleftrightarrow> base n = Some cp
     \<or> (\<exists>r \<in> set items. rl_ContainerName r = n \<and> cp = checkpoint_of (lb_hash L) r)"

text \<open>A record that a replay gate may take for one that was processed before.\<close>

definition replayed :: "'re libs \<Rightarrow> (string \<Rightarrow> ContainerCheckpoint option) \<Rightarrow> RawLog list \<Rightarrow> RawLog \<Rightarrow> bool" where
  "replayed L base items raw \<longleftrightarrow> (\<exists>cp. known_cp L base items (rl_ContainerName raw) cp
     \<and> cpt_ContainerID cp = rl_ContainerID raw \<and> rl_Timestamp raw \<le> cpt_LastTimestamp cp)"

definition gates_ok :: "'re libs \<Rightarrow> (string \<Rightarrow> ContainerCheckpoint option) \<Rightarrow> RawLog list \<Rightarrow> RawLog list
    \<Rightarrow> (string, ReplayGate) gomap \<Rightarrow> bool" where
  "gates_ok L base items rcvd gates \<longleftrightarrow> (\<forall>n g. gm_get gates n = Some g \<longrightarrow>
     known_cp L base items n (rg_checkpoint g) \<and> set (rg_buffered g) \<subseteq> set rcvd)"

definition ledger :: "'re libs \<Rightarrow> (string \<Rightarrow> ContainerCheckpoint option) \<Rightarrow> 're run_state \<Rightarrow> proc_label list
    \<Rightarrow> RawLog list \<Rightarrow> bool" where
  "ledger L base st ls rcvd \<longleftrightarrow> gates_ok L base (processed ls) rcvd (rn_gates (ru_rn st))
     \<and> set (processed ls) \<subseteq> set rcvd
     \<and> (ru_err st = [] \<longrightarrow> (\<forall>raw \<in> set rcvd. raw \<in> set (processed ls) \<or> replayed L base (processed ls) raw))"

lemma known_cp_more: "known_cp L base items n cp \<Longrightarrow> known_cp L base (items @ items') n cp"
  by (auto simp: known_cp_def)

lemma replayed_more: "replayed L base items raw \<Longrightarrow> replayed L base (items @ items') raw"
  by (auto simp: replayed_def dest: known_cp_more)

lemma gates_ok_more: "gates_ok L base items rcvd gates \<Longrightarrow> gates_ok L base (items @ items') (rcvd @ rcvd') gates"
  by (simp add: gates_ok_def known_cp_more le_supI1)

lemma gates_ok_set:
  assumes "gates_ok L base items rcvd gates" and "known_cp L base items n (rg_checkpoint g)" and "set (rg_buffered g) \<subseteq> set rcvd"
  shows "gates_ok L base items rcvd (gm_set n g gates)"
  using assms by (auto simp: gates_ok_def gm_get_set)

lemma saves_known: "saves L items base n = Some cp \<Longrightarrow> known_cp L base items n cp"
  by (induction items rule: rev_induct) (auto simp: saves_snoc saves_def [of L "[]"] known_cp_def split: if_splits)

lemma gate_Accept_items:
  assumes "gate_Accept hash g raw = (g', items)"
  shows "rg_checkpoint g' = rg_checkpoint g" and "set (rg_buffered g') \<subseteq> insert raw (set (rg_buffered g))"
    and "set items \<subseteq> insert raw (set (rg_buffered g))"
    and "raw \<in> set items \<or> cpt_ContainerID (rg_checkpoint g) = rl_ContainerID raw
      \<and> rl_Timestamp raw \<le> cpt_LastTimestamp (rg_checkpoint g)"
  using assms by (auto simp: gate_Accept_def split: if_splits)

lemma Load_known:
  assumes "in_step L base items s" and "ckpt_Load (lb_codec L) io s n = Inr (cp, True)"
  shows "known_cp L base items n cp"
proof -
  have "ckpt_Load (lb_codec L) None s n = Inr (cp, True)"
    using assms(2) by (auto simp: ckpt_Load_def split: option.splits if_splits)
  then have "visible (lb_codec L) s n = Some cp"
    using assms(1) ckpt_Load_visible [of "lb_codec L" s n] by (auto simp: in_step_def split: option.splits)
  then show ?thesis using assms(1) by (simp add: in_step_def saves_known)
qed

lemma gates_frame:
  assumes "ru_step L l st st'" and "\<forall>env raw. l \<noteq> RuLog env raw" and "\<forall>io now name i b. l \<noteq> RuAttached io now name i b"
  shows "rn_gates (ru_rn st') = rn_gates (ru_rn st)"
  using assms
  by (cases rule: ru_step.cases)
     (auto simp: flush_status_def DockerAvailable_def replayStart_def store_flushed_def store_closed_def Let_def
        split: prod.splits sum.splits option.splits)

lemma ledger_quiet:
  assumes "ledger L base st ls rcvd" and "processed pls = []" and "ru_err st' = [] \<longrightarrow> ru_err st = []"
    and "gates_ok L base (processed ls) rcvd (rn_gates (ru_rn st'))"
  shows "ledger L base st' (ls @ pls) rcvd"
  using assms by (simp add: ledger_def)

lemma ledger_log:
  assumes "ledger L base st ls rcvd" and "ru_err st' = [] \<longrightarrow> ru_err st = []" and "given L (RuLog env raw) st st' pls"
  shows "ledger L base st' (ls @ pls) (rcvd @ [raw])"
proof -
  let ?n = "rl_ContainerName raw" and ?gates = "rn_gates (ru_rn st)"
  obtain items where items: "gates_stream (lb_hash L) ?gates [raw] = (rn_gates (ru_rn st'), items)"
    "prefix (processed pls) items" "ru_err st' = [] \<longrightarrow> processed pls = items"
    using assms(3) by (auto simp: given_def)
  note old = assms(1) [unfolded ledger_def]
  note more = gates_ok_more [of L base "processed ls" rcvd _ "processed pls" "[raw]"]
  have "gates_ok L base (processed ls @ processed pls) (rcvd @ [raw]) (rn_gates (ru_rn st'))
    \<and> set items \<subseteq> set (rcvd @ [raw]) \<and> (raw \<in> set items \<or> replayed L base (processed ls) raw)"
  proof (cases "gm_get ?gates ?n")
    case None
    then show ?thesis using items(1) old more by auto
  next
    case (Some g)
    then obtain g' where acc: "gate_Accept (lb_hash L) g raw = (g', items)" and gates': "rn_gates (ru_rn st') = gm_set ?n g' ?gates"
      using items(1) by (auto split: prod.splits)
    note acc = gate_Accept_items [OF acc]
    have g: "known_cp L base (processed ls) ?n (rg_checkpoint g)" "set (rg_buffered g) \<subseteq> set rcvd"
      using old Some by (auto simp: gates_ok_def)
    have "gates_ok L base (processed ls @ processed pls) (rcvd @ [raw]) (gm_set ?n g' ?gates)"
      using g acc(1,2) more old by (intro gates_ok_set) (auto intro: known_cp_more)
    moreover have "raw \<in> set items \<or> replayed L base (processed ls) raw" using acc(4) g(1) by (auto simp: replayed_def)
    ultimately show ?thesis using acc(3) g(2) gates' by auto
  qed
  moreover have "set (processed pls) \<subseteq> set items" using items(2) set_mono_prefix by blast
  ultimately show ?thesis
    unfolding ledger_def using old items(3) assms(2) by (auto dest: replayed_more)
qed

lemma ledger_step:
  assumes "books L base p0 st ls saved" and "ledger L base st ls rcvd" and "ru_step L l st st'" and "given L l st st' pls"
  shows "ledger L base st' (ls @ pls) (rcvd @ logs_of [l])"
proof -
  note err = phase_step(4) [OF assms(3)]
  consider env raw where "l = RuLog env raw" | io now name i b where "l = RuAttached io now name i b"
    | "\<forall>env raw. l \<noteq> RuLog env raw" "\<forall>io now name i b. l \<noteq> RuAttached io now name i b" by blast
  then show ?thesis
  proof cases
    case 1
    then show ?thesis using ledger_log [OF assms(2)] err assms(4) by (simp add: logs_of_def map_filter_simps)
  next
    case 2
    have known: "known_cp L base (processed ls) name cp"
      if "ckpt_Load (lb_codec L) io (rn_store (ru_rn st)) name = Inr (cp, True)" for cp
    proof -
      have "in_step L base saved (rn_store (ru_rn st))" "subseq saved (processed ls)"
        using assms(1,3) 2 by (auto simp: books_def elim!: ru_stepE)
      with Load_known [OF this(1) that] show ?thesis by (auto simp: known_cp_def dest: list_emb_set)
    qed
    have st': "ru_rn st' = ContainerAttached (lb_codec L) io now name i b (ru_rn st)"
      using assms(3) 2 by (auto elim!: ru_stepE)
    have gates: "gates_ok L base (processed ls) rcvd (rn_gates (ru_rn st))" using assms(2) by (simp add: ledger_def)
    have "gates_ok L base (processed ls) rcvd (rn_gates (ru_rn st'))"
    proof (cases "ckpt_Load (lb_codec L) io (rn_store (ru_rn st)) name")
      case (Inr x)
      then obtain cp ok where x: "ckpt_Load (lb_codec L) io (rn_store (ru_rn st)) name = Inr (cp, ok)" by (cases x) simp
      have "gates_ok L base (processed ls) rcvd (gm_del name (rn_gates (ru_rn st)))"
        using gates by (auto simp: gates_ok_def gm_get_del)
      moreover have "gates_ok L base (processed ls) rcvd (gm_set name (NewReplayGate cp) (rn_gates (ru_rn st)))" if ok
        using known [of cp] x that gates by (intro gates_ok_set) (simp_all add: NewReplayGate_def)
      ultimately show ?thesis using gates x by (simp add: st' ContainerAttached_def Let_def)
    qed (use gates in \<open>simp add: st' ContainerAttached_def Let_def\<close>)
    with ledger_quiet [OF assms(2)] err assms(4) 2 have "ledger L base st' (ls @ pls) rcvd" by (simp add: given_def)
    then show ?thesis using 2 by (simp add: logs_of_def map_filter_simps)
  next
    case 3
    have "processed pls = []" using assms(4) 3(1) by (auto simp: given_def split: ru_label.splits)
    then have "ledger L base st' (ls @ pls) rcvd"
      using ledger_quiet [OF assms(2)] err gates_frame [OF assms(3) 3] assms(2) by (simp add: ledger_def)
    moreover have "logs_of [l] = []" using 3(1) by (cases l) (auto simp: logs_of_def map_filter_simps)
    ultimately show ?thesis by simp
  qed
qed


section \<open>Runs from the start\<close>

text \<open>The records that were sent to the channel and those that the main loop took from it.\<close>

definition sent :: "sv_label list \<Rightarrow> RawLog list" where
  "sent ls = List.map_filter (\<lambda>l. case l of SvEmit name raw \<Rightarrow> Some raw | _ \<Rightarrow> None) ls"

definition taken :: "sv_label list \<Rightarrow> RawLog list" where
  "taken ls = List.map_filter (\<lambda>l. case l of SvLog env raw \<Rightarrow> Some raw | _ \<Rightarrow> None) ls"

lemma channel_run:
  assumes "run (sv_step parse L) (sv_start st source capacity) ls s"
  shows "sent ls = taken ls @ sv_logs s \<and> sv_capacity s = capacity"
  using assms
proof (induction rule: run.induct)
  case run_start
  then show ?case by (simp add: sent_def taken_def sv_start_def map_filter_simps)
next
  case (run_step ls s l s')
  from run_step.hyps(2) show ?case
    by (cases rule: sv_step.cases) (use run_step.IH in \<open>auto simp: sent_def taken_def map_filter_def\<close>)
qed

lemma callback_no_log [simp]: "callback io now ob \<noteq> Some (RuLog env raw)"
  by (cases ob) auto

lemma taken_logs:
  assumes "run (sv_step parse L) s0 ls s"
  shows "logs_of (concat (map main_labels ls)) = taken ls"
  using assms
proof (induction rule: run.induct)
  case (run_step ls s l s')
  have "logs_of (main_labels l) = taken [l]"
    using run_step.hyps(2) by (cases rule: sv_step.cases)
      (auto simp: logs_of_def taken_def map_filter_simps ru_own_def split: ru_label.splits option.splits)
  then show ?case using run_step.IH by (simp add: logs_of_def taken_def map_filter_def)
qed (simp add: logs_of_def taken_def map_filter_simps)

lemma ledger_run:
  assumes "run (ru_step L) st0 rls st" and "books L base p0 st0 [] []" and "rn_gates (ru_rn st0) = []"
  shows "\<exists>pls saved. books L base p0 st pls saved \<and> ledger L base st pls (logs_of rls)"
  using assms(1)
proof (induction rule: run.induct)
  case run_start
  then show ?case using assms(2,3) by (intro exI [of _ "[]"]) (simp add: ledger_def gates_ok_def logs_of_def map_filter_simps)
next
  case (run_step rls st l st')
  then obtain pls saved where b: "books L base p0 st pls saved" "ledger L base st pls (logs_of rls)" by blast
  from books_step [OF b(1) run_step.hyps(2)] obtain pls' saved' where
    "books L base p0 st' (pls @ pls') saved'" "given L l st st' pls'" by blast
  with ledger_step [OF b run_step.hyps(2)] show ?case
    by (intro exI [of _ "pls @ pls'"] exI [of _ saved']) (simp add: logs_of_def map_filter_def)
qed

lemma start_source:
  assumes "runtime_start R openErr fmtErr clientErr now db cfg dry = (Inr (st, source), acts)"
  obtains probe where "docker_New True (cf_Containers cfg) True [] 0 0 probe = Inr source"
    and "rn_gates (ru_rn st) = []" and "rn_ids (ru_rn st) = []"
  using assms
  by (auto simp: runtime_start_def Let_def ru_start_def newRuntime_def split: sum.splits option.splits prod.splits if_splits)

lemma service_loops:
  assumes "runtime_start R openErr fmtErr clientErr now db cfg dry = (Inr (st, source), acts)"
    and "run (sv_step parse L) (sv_start st source capacity) ls s"
  shows "fst ` set (sr_loops (sv_source s)) = set (ls_containers source)"
proof -
  obtain probe where new: "docker_New True (cf_Containers cfg) True [] 0 0 probe = Inr source"
    by (rule start_source [OF assms(1)])
  obtain sls where "run src_step (source_Run source) sls (sv_source s)" using service_projects [OF assms(2)] by blast
  from src_inv_run [OF new this] show ?thesis by (simp add: src_inv_def)
qed

lemma service_start:
  assumes "runtime_start R openErr fmtErr clientErr now db cfg dry = (Inr (st, source), acts)"
  shows "flow_inv (sv_start st source capacity)" and "view_inv (sv_start st source capacity)"
proof -
  have running: "ru_phase st = Running" by (rule start_ok(6) [OF assms])
  then show "flow_inv (sv_start st source capacity)"
    by (simp add: flow_inv_def sv_start_def only_loops_def drain_ok_def)
  have "rn_ids (ru_rn st) = []" by (rule start_source [OF assms])
  then have "observed n (ru_rn st) = None" for n by (simp add: observed_def)
  moreover have "phase_id (rc_phase rc) = None" if "gm_get (map (\<lambda>n. (n, rc_start source)) ns) n = Some rc" for n rc and ns :: "string list"
    using that by (auto dest!: map_of_SomeD simp: rc_start_def phase_id_def)
  ultimately show "view_inv (sv_start st source capacity)"
    by (auto simp: view_inv_def view_at_def sv_start_def source_Run_def)
qed

end
