(* ===== verification/Service_Drain.thy ===== *)
theory Service_Drain
  imports Whole_Service
begin

text \<open>
  The shutdown of the connected service: once the main loop has cancelled the context of the source,
  every goroutine of the source can end, the source returns and closes the channel, the main loop takes
  what is left of it, and \<open>Run\<close> returns, all before the drain timeout.
\<close>

section \<open>Goroutines that have ended\<close>

text \<open>An attach loop with its stream and its callbacks, the probe and the watcher; none starts again.\<close>

definition loop_over :: "string \<Rightarrow> 're service \<Rightarrow> bool" where
  "loop_over name s \<longleftrightarrow> rc_stopped name (sv_source s) \<and> sv_calls s (GLoop name) = []
     \<and> stream_container (sv_streams s name) = None"

definition probe_over :: "'re service \<Rightarrow> bool" where
  "probe_over s \<longleftrightarrow> sr_probe (sv_source s) = PStopped \<and> sv_calls s GProbe = []"

definition watch_over :: "'re service \<Rightarrow> bool" where
  "watch_over s \<longleftrightarrow> sr_watch (sv_source s) = WStopped"

lemma source_overI:
  assumes "gm_wf (sr_loops (sv_source s))" and "\<forall>name \<in> fst ` set (sr_loops (sv_source s)). loop_over name s"
    and "probe_over s" and "watch_over s"
  shows "source_over s"
proof -
  have "rc_phase rc = RStopped" if "(n, rc) \<in> set (sr_loops (sv_source s))" for n rc
  proof -
    have "rc_stopped n (sv_source s)" using assms(2) that by (force simp: loop_over_def)
    then show ?thesis using map_of_is_SomeI [OF assms(1) that] by (auto simp: rc_stopped_def)
  qed
  then show ?thesis
    using assms(2-4) by (fastforce simp: source_over_def sr_done_def loop_over_def probe_over_def watch_over_def)
qed

lemma own_running: "rc_step s name l rc rc' \<Longrightarrow> rc_own l \<Longrightarrow> rc_phase rc \<noteq> RStopped"
  using rc_step_tells by blast

lemma rc_stopped_step: "src_step l src src' \<Longrightarrow> rc_stopped name src \<Longrightarrow> rc_stopped name src'"
proof (cases rule: src_step.cases)
  fix n rc l' rc'
  assume "rc_stopped name src" "src' = rc_joined n rc rc' src" "gm_get (sr_loops src) n = Some rc" "rc_own l'"
    "rc_step (sr_source src) n l' (rc\<lparr>rc_token := sr_token n src\<rparr>) rc'"
  moreover from this have "rc_phase rc \<noteq> RStopped" using own_running by fastforce
  ultimately show ?thesis by (auto simp: rc_stopped_def rc_joined_def gm_get_set)
qed (auto simp: rc_stopped_def probe_once_def split: sum.splits)

lemma stopped_loop: "src_step (SrLoop name l) src src' \<Longrightarrow> \<not> rc_stopped name src"
  by (auto simp: rc_stopped_def elim!: src_stepE dest!: own_running)

interpretation loop_ends: step_invariant "sv_step parse L" "loop_over name" for parse L name
proof
  fix s l s'
  assume over: "loop_over name s" and step: "sv_step parse L l s s'"
  have none: "loop_streams name (sv_source s) = None"
    using over by (auto simp: loop_over_def rc_stopped_def loop_streams_def)
  from step show "loop_over name s'"
  proof (cases rule: sv_step.cases)
    case (watch l src)
    then show ?thesis using over rc_stopped_step by (auto simp: loop_over_def)
  next
    case (probe l src)
    then show ?thesis using over rc_stopped_step by (auto simp: loop_over_def source_moved_def)
  next
    case (loop n l src)
    then show ?thesis using over rc_stopped_step stopped_loop by (auto simp: loop_over_def source_moved_def)
  qed (use over none in \<open>auto simp: loop_over_def main_moved_def rc_stopped_def\<close>)
qed

interpretation probe_ends: step_invariant "sv_step parse L" probe_over for parse L
proof
  fix s l s'
  assume over: "probe_over s" and step: "sv_step parse L l s s'"
  from step show "probe_over s'"
  proof (cases rule: sv_step.cases)
    case (watch l src)
    then show ?thesis using over by (auto simp: probe_over_def watch_own_def elim!: src_stepE)
  next
    case (probe l src)
    then show ?thesis using over by (auto simp: probe_over_def probe_own_def elim!: src_stepE)
  next
    case (loop n l src)
    then show ?thesis using over by (auto simp: probe_over_def source_moved_def rc_joined_def elim!: src_stepE)
  qed (use over in \<open>auto simp: probe_over_def main_moved_def\<close>)
qed

interpretation watch_ends: step_invariant "sv_step parse L" watch_over for parse L
proof
  fix s l s'
  assume over: "watch_over s" and step: "sv_step parse L l s s'"
  from step show "watch_over s'"
    by (cases rule: sv_step.cases) (use over watch_stopped in \<open>auto simp: watch_over_def main_moved_def\<close>)
qed


section \<open>Ending the goroutines of the source\<close>

text \<open>
  A state that is reached without the main loop, in which the context of the source stays cancelled.
  The steps that lead there are those of the source, and none of them sends a record.
\<close>

definition alive :: "'re service \<Rightarrow> bool" where
  "alive s \<longleftrightarrow> sr_canceled (sv_source s) \<and> ru_phase (sv_run s) \<noteq> Returned"

fun main_free :: "sv_label \<Rightarrow> bool" where
  "main_free (SvMain _) = False" | "main_free (SvLog _ _) = False" | "main_free SvLogsClosed = False"
| "main_free SvSourceDone = False" | "main_free (SvEmit _ _) = False" | "main_free _ = True"

definition settles :: "(string \<Rightarrow> gotime option) \<Rightarrow> 're libs \<Rightarrow> 're service \<Rightarrow> 're service \<Rightarrow> bool" where
  "settles parse L s s' \<longleftrightarrow> (\<exists>ls. run (sv_step parse L) s ls s' \<and> list_all main_free ls)"

lemma settles_refl [simp]: "settles parse L s s"
  unfolding settles_def by (intro exI [of _ "[]"]) (simp add: run_start)

lemma settles_trans: "settles parse L s s' \<Longrightarrow> settles parse L s' s'' \<Longrightarrow> settles parse L s s''"
  unfolding settles_def using run_trans [where step = "sv_step parse L"] by (metis list_all_append)

lemma settles_step: "sv_step parse L l s s' \<Longrightarrow> main_free l \<Longrightarrow> settles parse L s s'"
  unfolding settles_def using run_one [where step = "sv_step parse L"] by (intro exI [of _ "[l]"]) simp

lemma free_alive:
  assumes "sv_step parse L l s s'" and "main_free l"
  shows "ru_phase (sv_run s') = ru_phase (sv_run s)" and "sr_canceled (sv_source s) \<Longrightarrow> sr_canceled (sv_source s')"
proof -
  show "ru_phase (sv_run s') = ru_phase (sv_run s)"
    using assms(1)
  proof (cases rule: sv_step.cases)
    case (call g ob rest io now l r)
    then show ?thesis using phase_step(1) [OF call(6)] by (cases ob) auto
  next
    case (replay name c io now r)
    then show ?thesis using phase_step(1) [OF replay(4)] by simp
  qed (use assms(2) in auto)
  show "sr_canceled (sv_source s) \<Longrightarrow> sr_canceled (sv_source s')"
    using assms by (cases rule: sv_step.cases) (auto simp: source_canceled)
qed

lemma settles_alive:
  assumes "settles parse L s s'"
  shows "ru_phase (sv_run s') = ru_phase (sv_run s)" and "alive s \<Longrightarrow> alive s'"
proof -
  from assms obtain ls where "run (sv_step parse L) s ls s'" "list_all main_free ls" by (auto simp: settles_def)
  then have "ru_phase (sv_run s') = ru_phase (sv_run s) \<and> (sr_canceled (sv_source s) \<longrightarrow> sr_canceled (sv_source s'))"
    by (induction rule: run.induct) (auto simp: free_alive)
  then show "ru_phase (sv_run s') = ru_phase (sv_run s)" "alive s \<Longrightarrow> alive s'" by (auto simp: alive_def)
qed

lemma settles_over:
  assumes "settles parse L s s'"
  shows "loop_over name s \<Longrightarrow> loop_over name s'" and "probe_over s \<Longrightarrow> probe_over s'"
  using assms loop_ends.run_keeps probe_ends.run_keeps by (auto simp: settles_def)

text \<open>A stream ends once its context is cancelled.\<close>

lemma stream_can_end:
  assumes "alive s"
  shows "\<exists>s'. settles parse L s s' \<and> stream_container (sv_streams s' name) = None \<and> sv_calls s' = sv_calls s
    \<and> sv_source s' = sv_source s"
proof -
  have answered: "\<exists>s'. settles parse L t s' \<and> stream_container (sv_streams s' name) = None \<and> sv_calls s' = sv_calls t
      \<and> sv_source s' = sv_source t" if "sv_streams t name = SOpening c start" for t :: "'a service" and c start
  proof -
    let ?t = "set_stream name (stream_opened parse False (Inl []) (sr_source (sv_source t)) name c start) t"
    have "settles parse L t ?t" by (rule settles_step [OF sv_step.opened [OF that]]) simp
    moreover have "sv_streams ?t name = SEnded" by (simp add: stream_opened_def docker_stream_def)
    ultimately show ?thesis by (intro exI [of _ ?t]) simp
  qed
  show ?thesis
  proof (cases "sv_streams s name")
    case (SSpawned c)
    obtain r where "ru_step L (RuReplay None 0 name) (sv_run s) r"
      using ru_step.replay [of "sv_run s" L] assms by (auto simp: alive_def)
    from settles_step [OF sv_step.replay [OF SSpawned this, where parse = parse]]
    have to: "settles parse L s (set_stream name (SOpening c (snd (replayStart (lb_codec L) None 0 name (ru_rn (sv_run s)))))
        (s\<lparr>sv_run := r\<rparr>))" (is "settles _ _ _ ?t") by simp
    have "sv_streams ?t name = SOpening c (snd (replayStart (lb_codec L) None 0 name (ru_rn (sv_run s))))" by simp
    from answered [OF this] obtain s' where "settles parse L ?t s'" "stream_container (sv_streams s' name) = None"
      "sv_calls s' = sv_calls ?t" "sv_source s' = sv_source ?t" by blast
    with settles_trans [OF to this(1)] show ?thesis by (intro exI [of _ s']) simp
  next
    case (SOpening c start)
    then show ?thesis by (rule answered)
  next
    case (SSending c rest)
    have "stream_canceled name s" using assms by (simp add: alive_def stream_canceled_def)
    with sv_step.stream_end [OF SSending] have "settles parse L s (set_stream name SEnded s)"
      by (intro settles_step [of parse L "SvStreamEnd name"]) simp_all
    then show ?thesis by (intro exI [of _ "set_stream name SEnded s"]) simp
  qed (auto intro: exI [of _ s])
qed

text \<open>The callbacks of a goroutine end.\<close>

lemma calls_can_end:
  assumes "ru_phase (sv_run s) \<noteq> Returned" and "call_ready g s"
  shows "\<exists>s'. settles parse L s s' \<and> sv_calls s' g = [] \<and> sv_streams s' = sv_streams s \<and> sv_source s' = sv_source s
    \<and> sv_logs s' = sv_logs s \<and> sv_capacity s' = sv_capacity s"
  using assms
proof (induction "sv_calls s g" arbitrary: s)
  case Nil
  then show ?case by (intro exI [of _ s]) simp
next
  case (Cons ob rest)
  have "\<exists>r. sv_step parse L (SvCall g ob None 0) s (s\<lparr>sv_run := r, sv_calls := (sv_calls s)(g := rest)\<rparr>)"
  proof (cases "callback None 0 ob")
    case None
    from sv_step.call_reconnect [OF Cons.hyps(2) [symmetric] Cons.prems(2) None, of parse L] show ?thesis
      by (intro exI [of _ "sv_run s"]) simp
  next
    case (Some l)
    then have "\<exists>r. ru_step L l (sv_run s) r"
      using Cons.prems(1) ru_step.docker [of "sv_run s" L] ru_step.attached [of "sv_run s" L]
      by (cases ob) (auto simp: alive_def, blast)
    then show ?thesis using sv_step.call [OF Cons.hyps(2) [symmetric] Cons.prems(2) Some] by blast
  qed
  then obtain r where step: "sv_step parse L (SvCall g ob None 0) s (s\<lparr>sv_run := r, sv_calls := (sv_calls s)(g := rest)\<rparr>)"
    (is "sv_step _ _ _ _ ?t") by blast
  have to: "settles parse L s ?t" by (rule settles_step [OF step]) simp
  have "call_ready g ?t" using Cons.prems(2) by (cases g) simp_all
  with Cons.hyps(1) [of ?t] settles_alive(1) [OF to] Cons.prems(1) obtain s' where
    "settles parse L ?t s'" "sv_calls s' g = []" "sv_streams s' = sv_streams ?t" "sv_source s' = sv_source ?t"
    "sv_logs s' = sv_logs ?t" "sv_capacity s' = sv_capacity ?t" by auto
  with settles_trans [OF to this(1)] show ?case by (intro exI [of _ s']) simp
qed

text \<open>An attach loop ends: its stream and its callbacks first, then the loop, then a stream that it still had.\<close>

lemma loop_can_end:
  assumes "alive s" and "name \<in> fst ` set (sr_loops (sv_source s))"
  shows "\<exists>s'. settles parse L s s' \<and> loop_over name s'"
proof -
  obtain s1 where s1: "settles parse L s s1" "stream_container (sv_streams s1 name) = None" "sv_source s1 = sv_source s"
    using stream_can_end [OF assms(1)] by blast
  then obtain s2 where s2: "settles parse L s1 s2" "sv_calls s2 (GLoop name) = []" "sv_streams s2 = sv_streams s1"
    "sv_source s2 = sv_source s1"
    using calls_can_end [of s1 "GLoop name"] settles_alive(2) [OF s1(1) assms(1)] by (auto simp: alive_def)
  note to2 = settles_trans [OF s1(1) s2(1)]
  have canceled: "sr_canceled (sv_source s2)" using settles_alive(2) [OF to2 assms(1)] by (simp add: alive_def)
  obtain rc where rc: "gm_get (sr_loops (sv_source s2)) name = Some rc"
    using assms(2) s1(3) s2(4) gm_get_None [of "sr_loops (sv_source s2)" name] by auto
  show ?thesis
  proof (cases "rc_phase rc = RStopped")
    case True
    then have "loop_over name s2" using rc s1(2) s2(2,3) by (simp add: loop_over_def rc_stopped_def)
    with to2 show ?thesis by blast
  next
    case False
    obtain s3 where s3: "settles parse L s2 s3" "sv_calls s3 = sv_calls s2" "sv_source s3 = sv_source s2"
      "loop_ready (stop_label (rc_phase rc)) (sv_streams s3 name)"
    proof (cases "\<exists>c. rc_phase rc = RStream c \<and> sv_streams s2 name = SIdle")
      case True
      then obtain c where c: "rc_phase rc = RStream c" "sv_streams s2 name = SIdle" by blast
      then have "loop_streams name (sv_source s2) = Some c" using rc by (simp add: loop_streams_def)
      from settles_step [OF sv_step.spawn [OF this s2(2) c(2)]] c show ?thesis
        by (intro that [of "set_stream name (SSpawned c) s2"]) (simp_all add: loop_ready_def)
    next
      case False
      then have "loop_ready (stop_label (rc_phase rc)) (sv_streams s2 name)"
        using s1(2) s2(3) by (cases "rc_phase rc") (auto simp: loop_ready_def)
      then show ?thesis by (intro that [of s2]) simp_all
    qed
    obtain rc' where stop: "src_step (SrLoop name (stop_label (rc_phase rc))) (sv_source s3) (rc_joined name rc rc' (sv_source s3))"
      "rc_phase rc' = RStopped" "rc_obs rc' = rc_obs rc"
      using loop_can_stop [of "sv_source s3" name rc] canceled rc False s3(3) by auto
    let ?s = "set_stream name (stream_after (stop_label (rc_phase rc)) (sv_streams s3 name))
        (source_moved (GLoop name) (rc_joined name rc rc' (sv_source s3)) s3)"
    have "settles parse L s3 ?s"
      by (rule settles_step [OF sv_step.loop [OF _ s3(4) stop(1)]]) (use s2(2) s3(2) in simp_all)
    note to4 = settles_trans [OF settles_trans [OF to2 s3(1)] this]
    have stopped: "rc_stopped name (sv_source ?s)" "sv_calls ?s (GLoop name) = []"
      using stop by (simp_all add: rc_stopped_def rc_joined_def gm_get_set source_moved_def)
    obtain s5 where "settles parse L ?s s5" "stream_container (sv_streams s5 name) = None" "sv_calls s5 = sv_calls ?s"
      "sv_source s5 = sv_source ?s" using stream_can_end [OF settles_alive(2) [OF to4 assms(1)]] by blast
    with settles_trans [OF to4 this(1)] stopped show ?thesis by (intro exI [of _ s5]) (simp add: loop_over_def)
  qed
qed

lemma settles_loops:
  assumes "settles parse L s s'"
  shows "fst ` set (sr_loops (sv_source s')) = fst ` set (sr_loops (sv_source s))"
    and "gm_wf (sr_loops (sv_source s)) \<Longrightarrow> gm_wf (sr_loops (sv_source s'))"
proof -
  have "fst ` set (sr_loops src') = fst ` set (sr_loops src) \<and> (gm_wf (sr_loops src) \<longrightarrow> gm_wf (sr_loops src'))"
    if "run src_step src sls src'" for src sls src'
    using that by (induction rule: run.induct) (simp_all add: loop_names(1,2))
  note source = this
  from assms obtain ls where "run (sv_step parse L) s ls s'" by (auto simp: settles_def)
  then have "fst ` set (sr_loops (sv_source s')) = fst ` set (sr_loops (sv_source s))
      \<and> (gm_wf (sr_loops (sv_source s)) \<longrightarrow> gm_wf (sr_loops (sv_source s')))"
  proof (induction rule: run.induct)
    case (run_step ls s1 l s2)
    from source_projects [OF run_step.hyps(2)] obtain sls where "run src_step (sv_source s1) sls (sv_source s2)" by blast
    from source [OF this] run_step.IH show ?case by simp
  qed simp
  then show "fst ` set (sr_loops (sv_source s')) = fst ` set (sr_loops (sv_source s))"
    "gm_wf (sr_loops (sv_source s)) \<Longrightarrow> gm_wf (sr_loops (sv_source s'))" by auto
qed

lemma loops_can_end:
  assumes "alive s" and "set names \<subseteq> fst ` set (sr_loops (sv_source s))"
  shows "\<exists>s'. settles parse L s s' \<and> (\<forall>name \<in> set names. loop_over name s')"
  using assms
proof (induction names arbitrary: s)
  case Nil
  then show ?case by (intro exI [of _ s]) simp
next
  case (Cons name names)
  then obtain s1 where s1: "settles parse L s s1" "loop_over name s1" using loop_can_end [OF Cons.prems(1), of name parse L] by auto
  then obtain s2 where s2: "settles parse L s1 s2" "\<forall>name \<in> set names. loop_over name s2"
    using Cons.IH [OF settles_alive(2) [OF s1(1) Cons.prems(1)]] settles_loops(1) [OF s1(1)] Cons.prems(2) by auto
  with settles_trans [OF s1(1) s2(1)] settles_over(1) [OF s2(1) s1(2)] show ?case by (intro exI [of _ s2]) simp
qed

lemma probe_can_stop:
  assumes "sr_canceled (sv_source s)" and "sv_calls s GProbe = []" and "sr_probe (sv_source s) = PTicking"
  shows "settles parse L s (source_moved GProbe ((sv_source s)\<lparr>sr_probe := PStopped\<rparr>) s)"
    and "probe_over (source_moved GProbe ((sv_source s)\<lparr>sr_probe := PStopped\<rparr>) s)"
proof -
  have "src_step SrProbeStop (sv_source s) ((sv_source s)\<lparr>sr_probe := PStopped\<rparr>)" by (rule src_step.probe_stop [OF assms(1,3)])
  then show "settles parse L s (source_moved GProbe ((sv_source s)\<lparr>sr_probe := PStopped\<rparr>) s)"
    by (intro settles_step [OF sv_step.probe [OF _ assms(2)]]) (simp_all add: probe_own_def)
  show "probe_over (source_moved GProbe ((sv_source s)\<lparr>sr_probe := PStopped\<rparr>) s)"
    by (simp add: probe_over_def source_moved_def)
qed

lemma probe_can_end:
  assumes "alive s"
  shows "\<exists>s'. settles parse L s s' \<and> probe_over s'"
proof -
  obtain s1 where s1: "settles parse L s s1" "sv_calls s1 GProbe = []" using calls_can_end [of s GProbe] assms by (auto simp: alive_def)
  have canceled: "sr_canceled (sv_source s1)" using settles_alive(2) [OF s1(1) assms] by (simp add: alive_def)
  show ?thesis
  proof (cases "sr_probe (sv_source s1)")
    case PFirst
    let ?src = "(probe_once (Inl []) (sv_source s1))\<lparr>sr_probe := PTicking\<rparr>"
    have "src_step (SrProbe (Inl [])) (sv_source s1) ?src" by (rule src_step.probed) (simp add: PFirst)
    then have to: "settles parse L s1 (source_moved GProbe ?src s1)"
      by (intro settles_step [OF sv_step.probe [OF _ s1(2)]]) (simp_all add: probe_own_def)
    have ticking: "sr_canceled (sv_source (source_moved GProbe ?src s1))" "sv_calls (source_moved GProbe ?src s1) GProbe = []"
      "sr_probe (sv_source (source_moved GProbe ?src s1)) = PTicking"
      using canceled by (simp_all add: source_moved_def probe_once_def)
    from settles_trans [OF settles_trans [OF s1(1) to] probe_can_stop(1) [OF ticking]] probe_can_stop(2) [OF ticking]
    show ?thesis by blast
  next
    case PTicking
    from settles_trans [OF s1(1) probe_can_stop(1) [OF canceled s1(2) this]] probe_can_stop(2) [OF canceled s1(2) this]
    show ?thesis by blast
  next
    case PStopped
    then show ?thesis using s1 by (intro exI [of _ s1]) (simp add: probe_over_def)
  qed
qed

lemma watch_can_end:
  assumes "alive s"
  shows "\<exists>s'. settles parse L s s' \<and> watch_over s'"
proof (cases "watch_over s")
  case False
  let ?src = "(sv_source s)\<lparr>sr_watch := WStopped\<rparr>"
  have "src_step SrWatchStop (sv_source s) ?src"
    using assms False by (intro src_step.watch_stop) (simp_all add: alive_def watch_over_def)
  then have "settles parse L s (s\<lparr>sv_source := ?src\<rparr>)"
    by (intro settles_step [OF sv_step.watch]) (simp_all add: watch_own_def)
  then show ?thesis by (intro exI [of _ "s\<lparr>sv_source := ?src\<rparr>"]) (simp add: watch_over_def)
next
  case True
  then show ?thesis by (intro exI [of _ s]) simp
qed

text \<open>So the source returns and closes the channel.\<close>

lemma source_can_end:
  assumes "alive s" and "gm_wf (sr_loops (sv_source s))"
  shows "\<exists>s'. settles parse L s s' \<and> sv_returned s' \<and> sv_closed s'"
proof -
  define names where "names = map fst (sr_loops (sv_source s))"
  have names: "set names = fst ` set (sr_loops (sv_source s))" by (simp add: names_def)
  obtain s1 where s1: "settles parse L s s1" "\<forall>name \<in> set names. loop_over name s1"
    using loops_can_end [OF assms(1), of names parse L] names by auto
  note a1 = settles_alive(2) [OF s1(1) assms(1)]
  obtain s2 where s2: "settles parse L s1 s2" "probe_over s2" using probe_can_end [OF a1] by blast
  obtain s3 where s3: "settles parse L s2 s3" "watch_over s3" using watch_can_end [OF settles_alive(2) [OF s2(1) a1]] by blast
  note to3 = settles_trans [OF settles_trans [OF s1(1) s2(1)] s3(1)]
  have "source_over s3"
  proof (rule source_overI)
    show "gm_wf (sr_loops (sv_source s3))" by (rule settles_loops(2) [OF to3 assms(2)])
    show "\<forall>name \<in> fst ` set (sr_loops (sv_source s3)). loop_over name s3"
      using settles_loops(1) [OF to3] s1(2) names settles_over(1) [OF settles_trans [OF s2(1) s3(1)]] by simp
    show "probe_over s3" by (rule settles_over(2) [OF s3(1) s2(2)])
  qed (rule s3(2))
  note settles_step [OF sv_step.source_returned [OF this]]
  then have "settles parse L s3 (s3\<lparr>sv_returned := True\<rparr>)" by simp
  moreover have "settles parse L (s3\<lparr>sv_returned := True\<rparr>) (s3\<lparr>sv_returned := True, sv_closed := True\<rparr>)"
    using sv_step.close_logs [of "s3\<lparr>sv_returned := True\<rparr>" parse L] by (intro settles_step [where l = SvClose]) simp_all
  ultimately have "settles parse L s (s3\<lparr>sv_returned := True, sv_closed := True\<rparr>)" using to3 settles_trans by blast
  then show ?thesis by (intro exI [of _ "s3\<lparr>sv_returned := True, sv_closed := True\<rparr>"]) simp
qed


section \<open>The main loop takes the rest\<close>

lemma taken_one:
  assumes "sv_logs s = raw # rest" and "ru_phase (sv_run s) = Draining True running"
  shows "\<exists>s'. sv_step parse L (SvLog example_env raw) s s' \<and> sv_logs s' = rest \<and> ru_phase (sv_run s') = Draining True running
    \<and> sv_returned s' = sv_returned s \<and> sv_closed s' = sv_closed s"
proof -
  obtain rn' e where "processRaw L example_env raw (ru_rn (sv_run s)) = (rn', e)" by fastforce
  note step = ru_step.log [OF disjI2 [OF assms(2)] this]
  from sv_step.log [OF assms(1) step, of parse] assms(2) show ?thesis
    by (intro exI) (auto simp: log_phase_def)
qed

text \<open>Labels of an orderly shutdown: the main loop takes no timeout and meets no failure, and the source returns.\<close>

definition ru_calm :: "ru_label \<Rightarrow> bool" where
  "ru_calm l \<longleftrightarrow> ru_smooth l \<or> (case l of RuDocker _ \<Rightarrow> True | RuAttached _ _ _ _ _ \<Rightarrow> True | RuReplay _ _ _ \<Rightarrow> True
     | RuLog _ _ \<Rightarrow> True | RuLogsClosed \<Rightarrow> True | RuSourceDone e \<Rightarrow> e = None | _ \<Rightarrow> False)"

definition sv_calm :: "sv_label \<Rightarrow> bool" where
  "sv_calm l \<longleftrightarrow> list_all ru_calm (main_labels l) \<and> (\<forall>name raw. l \<noteq> SvEmit name raw)"

definition calm :: "sv_label list \<Rightarrow> bool" where
  "calm ls \<longleftrightarrow> list_all sv_calm ls"

lemma calm_simps [simp]:
  "calm []" "calm (l # ls) \<longleftrightarrow> sv_calm l \<and> calm ls" "calm (ls @ ls') \<longleftrightarrow> calm ls \<and> calm ls'"
  "calm (map SvMain rls) \<longleftrightarrow> list_all ru_calm rls"
  by (auto simp: calm_def sv_calm_def list_all_iff)

lemma calm_labels: "calm ls \<Longrightarrow> list_all ru_calm (concat (map main_labels ls))"
  by (auto simp: calm_def sv_calm_def list_all_iff)

lemma calm_expiry: "calm ls \<Longrightarrow> SvMain RuDrainExpired \<notin> set ls"
  by (force simp: calm_def sv_calm_def ru_calm_def list_all_iff)

lemma calm_sent: "calm ls \<Longrightarrow> sent ls = []"
  by (auto simp: calm_def sv_calm_def list_all_iff sent_def map_filter_def filter_empty_conv split: sv_label.splits)

lemma calm_free: "list_all main_free ls \<Longrightarrow> calm ls"
proof -
  have "sv_calm l" if "main_free l" for l
    using that by (cases l) (auto simp: sv_calm_def ru_calm_def split: option.splits elim!: callback.elims)
  then show "list_all main_free ls \<Longrightarrow> calm ls" by (auto simp: calm_def list_all_iff)
qed

text \<open>The service returns from here in order.\<close>

definition finishes :: "(string \<Rightarrow> gotime option) \<Rightarrow> 're libs \<Rightarrow> 're service \<Rightarrow> bool" where
  "finishes parse L s \<longleftrightarrow> (\<exists>ls s'. run (sv_step parse L) s ls s' \<and> ru_phase (sv_run s') = Returned \<and> calm ls)"

lemma finishes_run:
  assumes "run (sv_step parse L) s ls s'" and "calm ls" and "finishes parse L s'"
  shows "finishes parse L s"
proof -
  obtain ls' s'' where "run (sv_step parse L) s' ls' s''" "ru_phase (sv_run s'') = Returned" "calm ls'"
    using assms(3) by (auto simp: finishes_def)
  with run_trans [OF this(1) assms(1)] assms(2) show ?thesis
    unfolding finishes_def by (intro exI [of _ "ls @ ls'"] exI [of _ s'']) simp
qed

lemma finishes_step:
  "sv_step parse L l s s' \<Longrightarrow> sv_calm l \<Longrightarrow> finishes parse L s' \<Longrightarrow> finishes parse L s"
  by (rule finishes_run [OF run_one [where step = "sv_step parse L"]]) auto

lemma main_lift:
  assumes "run (ru_step L) st rls st'" and "\<forall>l \<in> set rls. ru_own l" and "sv_run s = st"
  shows "\<exists>s'. run (sv_step parse L) s (map SvMain rls) s' \<and> sv_run s' = st'"
  using assms
proof (induction rule: run.induct)
  case run_start
  then show ?case by (intro exI [of _ s]) (simp add: run.run_start)
next
  case (run_step rls st1 l st2)
  then obtain s1 where s1: "run (sv_step parse L) s (map SvMain rls) s1" "sv_run s1 = st1" by auto
  have "sv_step parse L (SvMain l) s1 (main_moved st2 s1)"
    using run_step.hyps(2) run_step.prems(1) s1(2) by (intro sv_step.main) simp_all
  from run.run_step [OF s1(1) this] show ?case by (intro exI [of _ "main_moved st2 s1"]) simp
qed

text \<open>The invariants of the main side, from which the shutdown sequence can be taken.\<close>

definition sound :: "'re service \<Rightarrow> bool" where
  "sound s \<longleftrightarrow> order_inv (sv_run s) \<and> (\<exists>n. balance_ok n (rn_processor (ru_rn (sv_run s))))"

lemma finishes_closing:
  assumes "ru_phase (sv_run s) = Draining False False \<or> closing (ru_phase (sv_run s))" and "sound s"
  shows "finishes parse L s"
proof -
  have "returns L (sv_run s)" using returns_closing assms by (auto simp: sound_def)
  then obtain rls st' where r: "run (ru_step L) (sv_run s) rls st'" "ru_phase st' = Returned" "\<forall>l \<in> set rls. ru_smooth l"
    by (auto simp: returns_def)
  have "calm (map SvMain rls)" using r(3) by (simp add: list_all_iff ru_calm_def)
  with main_lift [OF r(1) _ refl, of parse] r(2,3) smooth_own show ?thesis unfolding finishes_def by blast
qed

text \<open>With the channel closed and the result of the source at hand, the drain ends by itself.\<close>

lemma finishes_source_done:
  assumes "ru_phase (sv_run s) = Draining False running" and "sv_returned s"
    and "\<And>ls s'. run (sv_step parse L) s ls s' \<Longrightarrow> sound s'"
  shows "finishes parse L s"
proof (cases running)
  case True
  have "ru_phase (sv_run s) = Draining False True" using assms(1) True by simp
  note main = ru_step.source_done [OF this, of L None]
  note step = sv_step.source_done [OF assms(2) main, of parse]
  show ?thesis
    by (rule finishes_step [OF step _ finishes_closing])
       (use assms(3) [OF run_one [where step = "sv_step parse L", OF step]] in \<open>simp_all add: sv_calm_def ru_calm_def\<close>)
next
  case False
  then show ?thesis using assms(1) assms(3) [OF run_start] by (intro finishes_closing) simp_all
qed

lemma finishes_draining:
  assumes "ru_phase (sv_run s) = Draining logs running" and "sv_returned s" and "sv_closed s"
    and "\<And>ls s'. run (sv_step parse L) s ls s' \<Longrightarrow> sound s'"
  shows "finishes parse L s"
proof (cases logs)
  case True
  have "ru_phase (sv_run s) = Draining True running" using assms(1) True by simp
  from this assms(2-4) show ?thesis
  proof (induction "sv_logs s" arbitrary: s)
    case Nil
    note main = ru_step.logs_closed_draining [OF Nil.prems(1), of L]
    note step = sv_step.logs_closed [OF Nil.prems(3) Nil.hyps(1) [symmetric] main, of parse]
    show ?case
    proof (rule finishes_step [OF step])
      show "finishes parse L (main_moved ((sv_run s)\<lparr>ru_phase := Draining False running\<rparr>) s)"
        by (rule finishes_source_done [of _ running])
           (use Nil.prems(2) Nil.prems(4) [OF run_Cons [where step = "sv_step parse L", OF step]] in simp_all)
    qed (simp add: sv_calm_def ru_calm_def)
  next
    case (Cons raw rest)
    from taken_one [OF Cons.hyps(2) [symmetric] Cons.prems(1)] obtain s' where
      step: "sv_step parse L (SvLog example_env raw) s s'" and s': "sv_logs s' = rest"
      "ru_phase (sv_run s') = Draining True running" "sv_returned s' = sv_returned s" "sv_closed s' = sv_closed s" by blast
    show ?case
    proof (rule finishes_step [OF step])
      show "finishes parse L s'"
        by (rule Cons.hyps(1))
           (use s' Cons.prems(2,3) Cons.prems(4) [OF run_Cons [where step = "sv_step parse L", OF step]] in simp_all)
    qed (simp add: sv_calm_def ru_calm_def)
  qed
next
  case False
  then have "ru_phase (sv_run s) = Draining False running" using assms(1) by simp
  then show ?thesis by (rule finishes_source_done [OF _ assms(2,4)])
qed

lemma finishes_canceled:
  assumes "alive s" and "ru_phase (sv_run s) \<noteq> Running" and "gm_wf (sr_loops (sv_source s))"
    and "\<And>ls s'. run (sv_step parse L) s ls s' \<Longrightarrow> sound s'"
  shows "finishes parse L s"
proof (cases "closing (ru_phase (sv_run s))")
  case True
  then show ?thesis using finishes_closing assms(4) [OF run_start] by blast
next
  case False
  then obtain logs running where phase: "ru_phase (sv_run s) = Draining logs running"
    using assms(2) by (cases "ru_phase (sv_run s)") auto
  obtain s' where s': "settles parse L s s'" "sv_returned s'" "sv_closed s'" using source_can_end [OF assms(1,3)] by blast
  then obtain ls where ls: "run (sv_step parse L) s ls s'" "list_all main_free ls" by (auto simp: settles_def)
  have "finishes parse L s'"
    by (rule finishes_draining [of _ logs running])
       (use phase settles_alive(1) [OF s'(1)] s'(2,3) assms(4) [OF run_trans [OF _ ls(1)]] in simp_all)
  with calm_free [OF ls(2)] show ?thesis by (rule finishes_run [OF ls(1)])
qed

lemma finishes_any:
  assumes "ru_phase (sv_run s) \<noteq> Returned" and "flow_inv s" and "gm_wf (sr_loops (sv_source s))"
    and "\<And>ls s'. run (sv_step parse L) s ls s' \<Longrightarrow> sound s'"
  shows "finishes parse L s"
proof (cases "ru_phase (sv_run s) = Running")
  case True
  note step = sv_step.main [OF _ ru_step.canceled [OF True], of parse L, simplified]
  show ?thesis
  proof (rule finishes_step [OF step])
    show "finishes parse L (main_moved ((sv_run s)\<lparr>ru_phase := Draining True True\<rparr>) s)"
      by (rule finishes_canceled)
         (use assms(3) assms(4) [OF run_Cons [where step = "sv_step parse L", OF step]] in \<open>simp_all add: alive_def\<close>)
  qed (simp add: sv_calm_def ru_calm_def)
next
  case False
  with assms(1,2) have "alive s" by (simp add: flow_inv_def alive_def)
  then show ?thesis by (rule finishes_canceled [OF _ False assms(3,4)])
qed


section \<open>Properties\<close>

text \<open>
  C2. The connected service loses no record. At any time the records that the streams sent are
  those that the main loop took and those that wait in the channel, in order, and the channel
  holds no more than its capacity. When \<open>Run\<close> returns without an error, every goroutine of the source
  has ended, the main loop took every record that was sent, the processor was given nothing else, and
  every record was processed, unless it is not newer than a checkpoint of the same container that was
  in the database at the start or was saved for a processed record; and the
  database holds the checkpoints of all processed records, except those without a name, an identifier,
  a time or a hash, for which \<open>Save\<close> refuses a checkpoint.
\<close>

theorem Service_lossless:
  assumes "codec_ok (lb_codec L)" and "db_ok (lb_codec L) db"
    and "runtime_start R openErr fmtErr clientErr now db cfg dry = (Inr (st0, source), acts)"
    and "run (sv_step parse L) (sv_start st0 source capacity) ls s"
  shows "sent ls = taken ls @ sv_logs s \<and> length (sv_logs s) \<le> capacity
    \<and> (ru_phase (sv_run s) = Returned \<and> ru_err (sv_run s) = [] \<longrightarrow> source_over s \<and> taken ls = sent ls
      \<and> (\<exists>pls. run (proc_step (lb_regex L) (lb_sha L)) (rn_processor (ru_rn st0)) pls (rn_processor (ru_rn (sv_run s)))
          \<and> set (processed pls) \<subseteq> set (sent ls)
          \<and> (\<forall>raw \<in> set (sent ls). raw \<in> set (processed pls) \<or> replayed L (durable (lb_codec L) db) (processed pls) raw)
          \<and> durable (lb_codec L) (st_db (rn_store (ru_rn (sv_run s)))) = saves L (processed pls) (durable (lb_codec L) db)))"
proof -
  note channel = channel_run [OF assms(4)]
  have flow: "flow_inv s" by (rule flow.run_keeps [OF assms(4) service_start(1) [OF assms(3)]])
  have main: "run (ru_step L) st0 (concat (map main_labels ls)) (sv_run s)" using service_projects [OF assms(4)] by blast
  have gates: "rn_gates (ru_rn st0) = []" by (rule start_source [OF assms(3)])
  from ledger_run [OF main start_books [OF assms(3,1,2)] gates] obtain pls saved where
    b: "books L (durable (lb_codec L) db) (rn_processor (ru_rn st0)) (sv_run s) pls saved"
    "ledger L (durable (lb_codec L) db) (sv_run s) pls (taken ls)"
    unfolding taken_logs [OF assms(4)] by blast
  have "length (sv_logs s) \<le> capacity" using flow channel by (simp add: flow_inv_def)
  moreover have "source_over s \<and> sv_logs s = []" if "ru_phase (sv_run s) = Returned" "ru_err (sv_run s) = []"
    using flow that by (simp add: flow_inv_def drain_ok_def)
  ultimately show ?thesis
    using b channel by (auto simp: books_def ledger_def intro!: exI [of _ pls])
qed

text \<open>
  C11. The observer and the source agree. At any time, what the observer knows about a configured
  container whose attach loop has not stopped, brought up to date with the callbacks that are still
  under way, is what the attach loop does: attached under the identifier of the container whose stream it
  reads, or not attached. A record enters the channel only with the name of a configured
  container and while the observer has this container attached under the identifier in the
  record, so that the replay gate was set up before.
\<close>

theorem Service_observes:
  assumes "runtime_start R openErr fmtErr clientErr now db cfg dry = (Inr (st0, source), acts)"
    and "run (sv_step parse L) (sv_start st0 source capacity) ls s"
  shows "(\<forall>name \<in> set (ls_containers source). \<exists>rc. gm_get (sr_loops (sv_source s)) name = Some rc
      \<and> (rc_phase rc \<noteq> RStopped \<longrightarrow>
          attach_now (observed name (ru_rn (sv_run s))) (sv_calls s (GLoop name)) = phase_id (rc_phase rc)))
    \<and> (\<forall>name raw s'. sv_step parse L (SvEmit name raw) s s' \<longrightarrow> name \<in> set (ls_containers source)
        \<and> rl_ContainerName raw = name \<and> observed name (ru_rn (sv_run s)) = Some (rl_ContainerID raw))"
proof -
  have flow: "flow_inv s" by (rule flow.run_keeps [OF assms(2) service_start(1) [OF assms(1)]])
  have view: "view_inv s" by (rule view.run_keeps [OF assms(2) service_start(2) [OF assms(1)]])
  have keys: "fst ` set (sr_loops (sv_source s)) = set (ls_containers source)" by (rule service_loops [OF assms])
  have "\<exists>rc. gm_get (sr_loops (sv_source s)) name = Some rc
      \<and> (rc_phase rc \<noteq> RStopped \<longrightarrow>
          attach_now (observed name (ru_rn (sv_run s))) (sv_calls s (GLoop name)) = phase_id (rc_phase rc))"
    if name: "name \<in> set (ls_containers source)" for name
  proof -
    obtain rc where "gm_get (sr_loops (sv_source s)) name = Some rc"
      using name keys gm_get_None [of "sr_loops (sv_source s)" name] by auto
    then show ?thesis using view by (auto simp: view_inv_def view_at_def)
  qed
  moreover have "name \<in> set (ls_containers source) \<and> rl_ContainerName raw = name
      \<and> observed name (ru_rn (sv_run s)) = Some (rl_ContainerID raw)"
    if "sv_step parse L (SvEmit name raw) s s'" for name raw s'
  proof -
    from that obtain c rest where c: "sv_streams s name = SSending c (raw # rest)" by (auto elim: sv_stepE)
    moreover have "name \<in> fst ` set (sr_loops (sv_source s))" using flow c by (auto simp: flow_inv_def only_loops_def)
    moreover have "view_at name (observed name (ru_rn (sv_run s))) (gm_get (sr_loops (sv_source s)) name)
        (sv_calls s (GLoop name)) (sv_streams s name)" using view by (simp add: view_inv_def)
    ultimately show ?thesis using keys by (simp add: view_at_def)
  qed
  ultimately show ?thesis by blast
qed

lemma service_sound:
  assumes "runtime_start R openErr fmtErr clientErr now db cfg dry = (Inr (st0, source), acts)"
    and "run (sv_step parse L) (sv_start st0 source capacity) ls s"
  shows "sound s"
proof -
  note inv = start_invariants [OF assms(1)]
  have main: "run (ru_step L) st0 (concat (map main_labels ls)) (sv_run s)" using service_projects [OF assms(2)] by blast
  obtain pls where "run (proc_step (lb_regex L) (lb_sha L)) (rn_processor (ru_rn st0)) pls (rn_processor (ru_rn (sv_run s)))"
    using processor_run [OF main] by blast
  from balance_run [OF this inv(3)] order.run_keeps [OF main inv(1)] show ?thesis by (auto simp: sound_def)
qed

lemma service_wf:
  assumes "runtime_start R openErr fmtErr clientErr now db cfg dry = (Inr (st, source), acts)"
    and "run (sv_step parse L) (sv_start st source capacity) ls s"
  shows "gm_wf (sr_loops (sv_source s))"
proof -
  obtain probe where new: "docker_New True (cf_Containers cfg) True [] 0 0 probe = Inr source"
    by (rule start_source [OF assms(1)])
  obtain sls where "run src_step (source_Run source) sls (sv_source s)" using service_projects [OF assms(2)] by blast
  from src_inv_run [OF new this] show ?thesis by (simp add: src_inv_def)
qed

lemma no_expiry:
  assumes "ru_step L l st st'" and "l \<noteq> RuDrainExpired" and "RunDrainExpired \<notin> set (ru_err st)"
  shows "RunDrainExpired \<notin> set (ru_err st')"
  using assms
  by (cases rule: ru_step.cases)
     (auto simp: ru_frames first_err_def proc_err_def ckpt_err_def split: option.splits sum.splits if_splits)

lemma no_expiry_run:
  assumes "run (sv_step parse L) s ls s'" and "SvMain RuDrainExpired \<notin> set ls" and "RunDrainExpired \<notin> set (ru_err (sv_run s))"
  shows "RunDrainExpired \<notin> set (ru_err (sv_run s'))"
  using assms
proof (induction rule: run.induct)
  case (run_step ls s1 l s2)
  then have "RunDrainExpired \<notin> set (ru_err (sv_run s1))" "l \<noteq> SvMain RuDrainExpired" by auto
  with run_step.hyps(2) show ?case
    by (cases rule: sv_step.cases) (auto dest: no_expiry, metis callback.elims no_expiry option.discI option.inject ru_label.distinct)
qed simp

lemma service_finishes:
  assumes "runtime_start R openErr fmtErr clientErr now db cfg dry = (Inr (st0, source), acts)"
    and "run (sv_step parse L) (sv_start st0 source capacity) ls s"
  shows "finishes parse L s"
proof (cases "ru_phase (sv_run s) = Returned")
  case True
  then show ?thesis unfolding finishes_def by (intro exI [of _ "[]"] exI [of _ s]) (simp add: run_start)
next
  case False
  show ?thesis
    by (rule finishes_any [OF False flow.run_keeps [OF assms(2) service_start(1) [OF assms(1)]] service_wf [OF assms]])
       (rule service_sound [OF assms(1) run_trans [OF _ assms(2)]])
qed

lemma drained_taken:
  assumes "runtime_start R openErr fmtErr clientErr now db cfg dry = (Inr (st0, source), acts)"
    and "run (sv_step parse L) (sv_start st0 source capacity) ls s" and "run (sv_step parse L) s ls' s'"
    and "ru_phase (sv_run s') = Returned" and "SvMain RuDrainExpired \<notin> set ls'"
    and "RunDrainExpired \<notin> set (ru_err (sv_run s))"
  shows "taken (ls @ ls') = sent (ls @ ls') \<and> source_over s'"
proof -
  note all = run_trans [OF assms(3,2)]
  have "flow_inv s'" by (rule flow.run_keeps [OF all service_start(1) [OF assms(1)]])
  with channel_run [OF all] no_expiry_run [OF assms(3,5,6)] assms(4) show ?thesis
    by (auto simp: flow_inv_def drain_ok_def)
qed

text \<open>
  C15. The service can always end in order. From every reachable state, with goroutines of the
  source in any phase, callbacks under way and records in the channel, \<open>Run\<close> can still return
  without its drain timeout: the streams, the attach loops, the probe and the watcher end, the
  source returns and closes the channel, and the main loop takes the records that were sent
  before. Unless the timeout was over already, it has then taken every record.
\<close>

theorem Service_can_drain:
  assumes "runtime_start R openErr fmtErr clientErr now db cfg dry = (Inr (st0, source), acts)"
    and "run (sv_step parse L) (sv_start st0 source capacity) ls s"
  shows "\<exists>ls' s'. run (sv_step parse L) s ls' s' \<and> ru_phase (sv_run s') = Returned \<and> SvMain RuDrainExpired \<notin> set ls'
    \<and> (RunDrainExpired \<notin> set (ru_err (sv_run s)) \<longrightarrow> taken (ls @ ls') = sent (ls @ ls') \<and> source_over s')"
proof -
  obtain ls' s' where r: "run (sv_step parse L) s ls' s'" "ru_phase (sv_run s') = Returned" "SvMain RuDrainExpired \<notin> set ls'"
    using service_finishes [OF assms] by (auto simp: finishes_def dest: calm_expiry)
  with drained_taken [OF assms r] show ?thesis by blast
qed

text \<open>
  C20. When \<open>Run\<close> has returned, its shutdown calls were made once each and in order (the processor closed, the
  store flushed, the worker closed, the server shut down and the store closed), and they have had their effect: the
  processor is closed and no alert waits in it, the worker is closed and holds or sends none, the store
  refuses further work, the context of the source is cancelled, and no goroutine of the processor, the worker or
  the flush loop makes another step. Unless the drain timeout had expired, the goroutines of the source have
  all ended, with their streams and callbacks, and the closed channel is empty.
\<close>

theorem Service_releases:
  assumes "runtime_start R openErr fmtErr clientErr now db cfg dry = (Inr (st0, source), acts)"
    and "run (sv_step parse L) (sv_start st0 source capacity) ls s" and "ru_phase (sv_run s) = Returned"
  shows "(\<exists>io serverErr io' closeIO. filter shutdown_call (concat (map main_labels ls))
        = [RuCloseProcessor, RuFlush io, RuWorkerDone, RuEnd serverErr io' closeIO])
    \<and> p_closed (rn_processor (ru_rn (sv_run s))) \<and> p_heap (rn_processor (ru_rn (sv_run s))) = []
    \<and> (\<forall>w. ru_worker (sv_run s) = Some w \<longrightarrow> w_closed w \<and> worker_done w)
    \<and> st_closed (rn_store (ru_rn (sv_run s))) \<and> sr_canceled (sv_source s)
    \<and> (\<forall>l st'. \<not> ru_step L l (sv_run s) st')
    \<and> (RunDrainExpired \<notin> set (ru_err (sv_run s)) \<longrightarrow>
        source_over s \<and> sv_returned s \<and> sv_closed s \<and> sv_logs s = [])"
proof -
  have main: "run (ru_step L) st0 (concat (map main_labels ls)) (sv_run s)" using service_projects [OF assms(2)] by blast
  have "flow_inv s" by (rule flow.run_keeps [OF assms(2) service_start(1) [OF assms(1)]])
  then have "sr_canceled (sv_source s)"
    "RunDrainExpired \<notin> set (ru_err (sv_run s)) \<longrightarrow> source_over s \<and> sv_returned s \<and> sv_closed s \<and> sv_logs s = []"
    using assms(3) by (auto simp: flow_inv_def drain_ok_def)
  moreover have "\<exists>io serverErr io' closeIO. filter shutdown_call (concat (map main_labels ls))
      = [RuCloseProcessor, RuFlush io, RuWorkerDone, RuEnd serverErr io' closeIO]"
    using shutdown_order [OF main start_ok(6) [OF assms(1)]] assms(3) by simp
  ultimately show ?thesis using returned_released [OF assms(1) main assms(3)] by blast
qed


subsection \<open>Examples\<close>

text \<open>A run of the example service in which a container is attached and its first line is sent.\<close>

definition watched :: Container where
  "watched = \<lparr>dc_ID = ''c1'', dc_Names = [''/index-node-0''], dc_Running = True, dc_TTY = True\<rparr>"

definition hello :: RawLog where
  "hello = \<lparr>rl_ContainerID = ''c1'', rl_ContainerName = ''index-node-0'', rl_Timestamp = zero_time,
     rl_Stream = ''stdout'', rl_Raw = ''hello''\<rparr>"

lemma hello_stream:
  "stream_opened (\<lambda>_. None) False (Inr \<lparr>br_bytes = ''hello'' @ [CHR 0x0A], br_end = None\<rparr>) source ''index-node-0'' watched start
     = SSending watched [hello]"
proof -
  have "decodePlain (\<lambda>_. None) ''index-node-0'' ''c1'' \<lparr>lo_sent = [], lo_budget = None\<rparr>
      \<lparr>br_bytes = ''hello'' @ [CHR 0x0A], br_end = None\<rparr> = (\<lparr>lo_sent = [hello], lo_budget = None\<rparr>, None)"
    by code_simp
  then show ?thesis by (simp add: stream_opened_def docker_stream_def watched_def)
qed

lemma example_attach:
  assumes "docker_New True [''index-node-0''] True [] 0 0 probe = Inr source" and "ru_phase st0 = Running"
  shows "\<exists>ls s. run (sv_step (\<lambda>_. None) L) (sv_start st0 source 1) ls s \<and> loop_streams ''index-node-0'' (sv_source s) = Some watched
    \<and> sv_calls s (GLoop ''index-node-0'') = [] \<and> sv_streams s ''index-node-0'' = SIdle \<and> sv_logs s = [] \<and> sv_capacity s = 1
    \<and> ru_phase (sv_run s) = Running \<and> list_all main_free ls"
proof -
  let ?n = "''index-node-0''" and ?s0 = "sv_start st0 source 1 :: 'a service" and ?src = "source_Run source" and ?rc = "rc_start source"
  let ?rc' = "rc_discover source ?n (Inr [watched]) (\<lambda>_. Inr watched) ?rc"
  have "normalizedNames [?n] = [?n]" by code_simp
  then have names: "ls_containers source = [?n]" using docker_New_ok(3) [OF assms(1)] by simp
  have has: "hasName (dc_Names watched) ?n" by code_simp
  have rc: "gm_get (sr_loops ?src) ?n = Some ?rc" by (simp add: source_Run_def names)
  have token: "?rc\<lparr>rc_token := sr_token ?n ?src\<rparr> = ?rc"
    using docker_New_ok(6) [OF assms(1), of ?n] by (simp add: sr_token_def source_Run_def names rc_start_def)
  have "src_step (SrLoop ?n (RcDiscover (Inr [watched]) (\<lambda>_. Inr watched))) ?src (rc_joined ?n ?rc ?rc' ?src)"
  proof (rule src_step.loop [OF rc])
    show "rc_step (sr_source ?src) ?n (RcDiscover (Inr [watched]) (\<lambda>_. Inr watched)) (?rc\<lparr>rc_token := sr_token ?n ?src\<rparr>) ?rc'"
      unfolding token by (simp add: source_Run_def) (rule rc_step.discovered, simp add: rc_start_def)
  qed (simp_all add: rc_own_def rc_cancels_def)
  then have src: "src_step (SrLoop ?n (RcDiscover (Inr [watched]) (\<lambda>_. Inr watched))) (sv_source ?s0) (rc_joined ?n ?rc ?rc' ?src)"
    by (simp add: sv_start_def)
  let ?s1 = "set_stream ?n SIdle (source_moved (GLoop ?n) (rc_joined ?n ?rc ?rc' ?src) ?s0)"
  have step: "sv_step (\<lambda>_. None) L (SvLoop ?n (RcDiscover (Inr [watched]) (\<lambda>_. Inr watched))) ?s0 ?s1"
    using sv_step.loop [OF _ _ src, of "\<lambda>_. None" L] by (simp add: sv_start_def loop_ready_def stream_after_def)
  have loop: "loop_streams ?n (sv_source ?s1) = Some watched"
    using has by (simp add: loop_streams_def rc_joined_def gm_get_set rc_discover_def discover_def rc_tell_def Let_def)
      (simp add: watched_def)
  have "ru_phase (sv_run ?s1) \<noteq> Returned" "call_ready (GLoop ?n) ?s1" using assms(2) by (simp_all add: sv_start_def)
  from calls_can_end [OF this, of "\<lambda>_. None" L] obtain s where s: "settles (\<lambda>_. None) L ?s1 s"
    "sv_calls s (GLoop ?n) = []" "sv_streams s = sv_streams ?s1" "sv_source s = sv_source ?s1"
    "sv_logs s = sv_logs ?s1" "sv_capacity s = sv_capacity ?s1" by blast
  obtain ls where ls: "run (sv_step (\<lambda>_. None) L) ?s1 ls s" "list_all main_free ls" using s(1) by (auto simp: settles_def)
  have "list_all main_free (SvLoop ?n (RcDiscover (Inr [watched]) (\<lambda>_. Inr watched)) # ls)" using ls(2) by simp
  moreover have "ru_phase (sv_run s) = Running" using settles_alive(1) [OF s(1)] assms(2) by (simp add: sv_start_def)
  moreover have "sv_streams s ?n = SIdle" "sv_logs s = []" "sv_capacity s = 1" using s(3,5,6) by (simp_all add: sv_start_def)
  ultimately show ?thesis
    using run_Cons [where step = "sv_step (\<lambda>_. None) L", OF step ls(1)] s(2,4) loop by metis
qed

lemma example_emit:
  assumes "docker_New True [''index-node-0''] True [] 0 0 probe = Inr source" and "ru_phase st0 = Running"
  shows "\<exists>ls s s'. run (sv_step (\<lambda>_. None) L) (sv_start st0 source 1) ls s \<and> sv_step (\<lambda>_. None) L (SvEmit ''index-node-0'' hello) s s'
    \<and> list_all main_free ls \<and> ru_phase (sv_run s') = Running"
proof -
  let ?n = "''index-node-0''" and ?parse = "\<lambda>_. None :: gotime option"
  obtain ls s1 where s1: "run (sv_step ?parse L) (sv_start st0 source 1) ls s1" "loop_streams ?n (sv_source s1) = Some watched"
    "sv_calls s1 (GLoop ?n) = []" "sv_streams s1 ?n = SIdle" "sv_logs s1 = []" "sv_capacity s1 = 1" "ru_phase (sv_run s1) = Running"
    "list_all main_free ls"
    using example_attach [OF assms] by blast
  let ?s2 = "set_stream ?n (SSpawned watched) s1"
  note spawn = sv_step.spawn [OF s1(2-4), of ?parse L]
  obtain r where r: "ru_step L (RuReplay None 0 ?n) (sv_run ?s2) r"
    using ru_step.replay [of "sv_run ?s2" L None 0 ?n] s1(7) by auto
  define start where "start = snd (replayStart (lb_codec L) None 0 ?n (ru_rn (sv_run ?s2)))"
  define s3 where "s3 = set_stream ?n (SOpening watched start) (?s2\<lparr>sv_run := r\<rparr>)"
  have s3: "sv_step ?parse L (SvReplay ?n None 0) ?s2 s3" "sv_streams s3 ?n = SOpening watched start"
    "sv_logs s3 = []" "sv_capacity s3 = 1"
    using sv_step.replay [OF _ r, where parse = ?parse and c = watched] s1(5,6) by (simp_all add: s3_def start_def)
  let ?s4 = "set_stream ?n (SSending watched [hello]) s3"
  have opened: "sv_step ?parse L (SvOpen ?n False (Inr \<lparr>br_bytes = ''hello'' @ [CHR 0x0A], br_end = None\<rparr>)) s3 ?s4"
    using sv_step.opened [OF s3(2), of ?parse L False "Inr \<lparr>br_bytes = ''hello'' @ [CHR 0x0A], br_end = None\<rparr>"]
    unfolding hello_stream .
  obtain s' where emit: "sv_step ?parse L (SvEmit ?n hello) ?s4 s'"
    using sv_step.emit [of ?s4 ?n watched hello "[]" ?parse L] s3(3,4) by auto
  note reached = run.run_step [where step = "sv_step ?parse L", OF run.run_step [where step = "sv_step ?parse L",
        OF run.run_step [where step = "sv_step ?parse L", OF s1(1) spawn] s3(1)] opened]
  have running: "ru_phase (sv_run s') = Running"
    using emit free_alive(1) [OF opened] free_alive(1) [OF s3(1)] s1(7) by (auto elim!: sv_stepE)
  show ?thesis by (rule exI, rule exI, rule exI, rule conjI [OF reached conjI [OF emit]]) (use s1(8) running in simp)
qed

lemma example_connected:
  "\<exists>st0 source acts ls s s'. runtime_start literal_lib None None None 0 []
       (applyRuleDefaults (example_config DefaultConfig)) False = (Inr (st0, source), acts)
     \<and> run (sv_step (\<lambda>_. None) L) (sv_start st0 source 1) ls s
     \<and> sv_step (\<lambda>_. None) L (SvEmit ''index-node-0'' hello) s s' \<and> RunDrainExpired \<notin> set (ru_err (sv_run s'))
     \<and> ru_phase (sv_run s') = Running \<and> list_all main_free ls"
proof -
  obtain st0 source acts where start: "runtime_start literal_lib None None None 0 []
      (applyRuleDefaults (example_config DefaultConfig)) False = (Inr (st0, source), acts)"
    using validated_start [OF example_config_valid, of 0 "[]" False] example_names by auto
  have "cf_Containers (applyRuleDefaults (example_config DefaultConfig)) = [''index-node-0'']" by code_simp
  then obtain probe where "docker_New True [''index-node-0''] True [] 0 0 probe = Inr source"
    using start_source [OF start] by metis
  from example_emit [OF this start_ok(6) [OF start], of L] obtain ls s s' where
    ex: "run (sv_step (\<lambda>_. None) L) (sv_start st0 source 1) ls s"
    "sv_step (\<lambda>_. None) L (SvEmit ''index-node-0'' hello) s s'" "list_all main_free ls"
    "ru_phase (sv_run s') = Running" by blast
  have "RunDrainExpired \<notin> set (ru_err (sv_run s'))"
    by (rule no_expiry_run [OF run.run_step [where step = "sv_step (\<lambda>_. None) L", OF ex(1,2)]])
       (use ex(3) start_ok(7) [OF start] in \<open>auto simp: sv_start_def list_all_iff\<close>)
  with start ex(1-4) show ?thesis by blast
qed

theorem Service_lossless_witness:
  "\<exists>st0 source ls s. run (sv_step (\<lambda>_. None) example_libs) (sv_start st0 source 1) ls s
     \<and> SvEmit ''index-node-0'' hello \<in> set ls \<and> sent ls = taken ls @ sv_logs s \<and> length (sv_logs s) \<le> 1"
proof -
  obtain st0 source acts ls s s' where ex: "runtime_start literal_lib None None None 0 []
      (applyRuleDefaults (example_config DefaultConfig)) False = (Inr (st0, source), acts)"
    "run (sv_step (\<lambda>_. None) example_libs) (sv_start st0 source 1) ls s"
    "sv_step (\<lambda>_. None) example_libs (SvEmit ''index-node-0'' hello) s s'" using example_connected [of example_libs] by blast
  note r = run.run_step [where step = "sv_step (\<lambda>_. None) example_libs", OF ex(2,3)]
  from Service_lossless [OF example_libs_ok ex(1) r] r show ?thesis
    by (intro exI [of _ st0] exI [of _ source] exI [of _ "ls @ [SvEmit ''index-node-0'' hello]"] exI [of _ s']) simp
qed

theorem Service_observes_witness:
  "\<exists>(s :: (bool \<times> string) service) s'. sv_step (\<lambda>_. None) example_libs (SvEmit ''index-node-0'' hello) s s'
     \<and> observed ''index-node-0'' (ru_rn (sv_run s)) = Some ''c1''"
proof -
  obtain st0 source acts ls s s' where ex: "runtime_start literal_lib None None None 0 []
      (applyRuleDefaults (example_config DefaultConfig)) False = (Inr (st0, source), acts)"
    "run (sv_step (\<lambda>_. None) example_libs) (sv_start st0 source 1) ls s"
    "sv_step (\<lambda>_. None) example_libs (SvEmit ''index-node-0'' hello) s s'" using example_connected [of example_libs] by blast
  from Service_observes [OF ex(1,2)] ex(3) have "observed ''index-node-0'' (ru_rn (sv_run s)) = Some (rl_ContainerID hello)" by blast
  with ex(3) show ?thesis by (intro exI [of _ s] exI [of _ s']) (simp add: hello_def)
qed

theorem Service_can_drain_witness:
  "\<exists>st0 source ls s. run (sv_step (\<lambda>_. None) example_libs) (sv_start st0 source 1) ls s
     \<and> SvEmit ''index-node-0'' hello \<in> set ls \<and> ru_phase (sv_run s) = Returned \<and> hello \<in> set (taken ls)"
proof -
  obtain st0 source acts ls s s' where ex: "runtime_start literal_lib None None None 0 []
      (applyRuleDefaults (example_config DefaultConfig)) False = (Inr (st0, source), acts)"
    "run (sv_step (\<lambda>_. None) example_libs) (sv_start st0 source 1) ls s"
    "sv_step (\<lambda>_. None) example_libs (SvEmit ''index-node-0'' hello) s s'" "RunDrainExpired \<notin> set (ru_err (sv_run s'))"
    using example_connected [of example_libs] by blast
  let ?ls = "ls @ [SvEmit ''index-node-0'' hello]"
  note r = run.run_step [where step = "sv_step (\<lambda>_. None) example_libs", OF ex(2,3)]
  from Service_can_drain [OF ex(1) r] ex(4) obtain ls' s'' where
    final: "run (sv_step (\<lambda>_. None) example_libs) s' ls' s''" "ru_phase (sv_run s'') = Returned"
    "taken (?ls @ ls') = sent (?ls @ ls')" by blast
  moreover have "hello \<in> set (sent (?ls @ ls'))" by (simp add: sent_def map_filter_def)
  ultimately show ?thesis
    using run_trans [OF final(1) r] by (intro exI [of _ st0] exI [of _ source] exI [of _ "?ls @ ls'"] exI [of _ s'']) simp
qed

theorem Service_releases_witness:
  "\<exists>st0 source ls s. run (sv_step (\<lambda>_. None) example_libs) (sv_start st0 source 1) ls s
     \<and> SvEmit ''index-node-0'' hello \<in> set ls \<and> st_closed (rn_store (ru_rn (sv_run s))) \<and> source_over s"
proof -
  obtain st0 source acts ls s s' where ex: "runtime_start literal_lib None None None 0 []
      (applyRuleDefaults (example_config DefaultConfig)) False = (Inr (st0, source), acts)"
    "run (sv_step (\<lambda>_. None) example_libs) (sv_start st0 source 1) ls s"
    "sv_step (\<lambda>_. None) example_libs (SvEmit ''index-node-0'' hello) s s'" "RunDrainExpired \<notin> set (ru_err (sv_run s'))"
    using example_connected [of example_libs] by blast
  note r = run.run_step [where step = "sv_step (\<lambda>_. None) example_libs", OF ex(2,3)]
  obtain ls' s'' where fin: "run (sv_step (\<lambda>_. None) example_libs) s' ls' s''" "ru_phase (sv_run s'') = Returned" "calm ls'"
    using service_finishes [OF ex(1) r] by (auto simp: finishes_def)
  have "RunDrainExpired \<notin> set (ru_err (sv_run s''))" by (rule no_expiry_run [OF fin(1) calm_expiry [OF fin(3)] ex(4)])
  with Service_releases [OF ex(1) run_trans [OF fin(1) r] fin(2)] run_trans [OF fin(1) r] show ?thesis
    by (intro exI [of _ st0] exI [of _ source] exI [of _ "(ls @ [SvEmit ''index-node-0'' hello]) @ ls'"] exI [of _ s'']) simp
qed

end
