(* ===== verification/Json_Text.thy ===== *)
theory Json_Text
  imports Time_Format
begin

text \<open>
  The part of package \<open>encoding/json\<close> that the checkpoint store uses: the quoting of strings by
  \<open>Marshal\<close>, with the characters of HTML escaped, and the reading of a JSON text by \<open>Unmarshal\<close>: strings
  with their escapes, the tokens, and the check of the whole text before anything is decoded. Strings
  are bytes; what is not UTF-8 becomes the replacement character in both directions.
\<close>

section \<open>UTF-8\<close>

abbreviation byte :: "char \<Rightarrow> nat" where
  "byte c \<equiv> of_char c"

definition between :: "nat \<Rightarrow> nat \<Rightarrow> char \<Rightarrow> bool" where
  "between lo hi c \<longleftrightarrow> lo \<le> byte c \<and> byte c \<le> hi"

text \<open>The number of bytes that \<open>utf8.DecodeRune\<close> takes from the front of a text, zero for an invalid encoding.\<close>

definition rune_width :: "string \<Rightarrow> nat" where
  "rune_width s = (case s of
     [] \<Rightarrow> 0
   | a # r \<Rightarrow>
       if between 0 0x7F a then 1
       else if between 0xC2 0xDF a then
         (case r of b # _ \<Rightarrow> if between 0x80 0xBF b then 2 else 0 | _ \<Rightarrow> 0)
       else if between 0xE0 0xEF a then
         (case r of
            b # c # _ \<Rightarrow>
              if between (if byte a = 0xE0 then 0xA0 else 0x80) (if byte a = 0xED then 0x9F else 0xBF) b
                 \<and> between 0x80 0xBF c then 3 else 0
          | _ \<Rightarrow> 0)
       else if between 0xF0 0xF4 a then
         (case r of
            b # c # d # _ \<Rightarrow>
              if between (if byte a = 0xF0 then 0x90 else 0x80) (if byte a = 0xF4 then 0x8F else 0xBF) b
                 \<and> between 0x80 0xBF c \<and> between 0x80 0xBF d then 4 else 0
          | _ \<Rightarrow> 0)
       else 0)"

lemma rune_width_append:
  assumes "0 < rune_width s"
  shows "rune_width (take (rune_width s) s @ t) = rune_width s" and "rune_width s \<le> length s"
  using assms
  by (cases s; cases "tl s"; cases "tl (tl s)"; cases "tl (tl (tl s))"; simp add: rune_width_def split: if_splits)+

function utf8 :: "string \<Rightarrow> bool" where
  "utf8 s = (if s = [] then True else if rune_width s = 0 then False else utf8 (drop (rune_width s) s))"
  by pat_completeness auto
termination
  by (relation "measure length") auto

declare utf8.simps [simp del]

text \<open>\<open>utf8.AppendRune\<close>, for a code point that is not a surrogate.\<close>

definition utf8_encode :: "nat \<Rightarrow> string" where
  "utf8_encode u =
     (if u < 0x80 then [char_of u]
      else if u < 0x800 then [char_of (0xC0 + u div 0x40), char_of (0x80 + u mod 0x40)]
      else if u < 0x10000 then
        [char_of (0xE0 + u div 0x1000), char_of (0x80 + u div 0x40 mod 0x40), char_of (0x80 + u mod 0x40)]
      else [char_of (0xF0 + u div 0x40000), char_of (0x80 + u div 0x1000 mod 0x40),
            char_of (0x80 + u div 0x40 mod 0x40), char_of (0x80 + u mod 0x40)])"


section \<open>Writing strings\<close>

definition json_hex :: "nat \<Rightarrow> char" where
  "json_hex n = ''0123456789abcdef'' ! n"

definition escape_byte :: "char \<Rightarrow> string" where
  "escape_byte c =
     (if c = CHR 0x22 \<or> c = CHR 0x5C then [CHR 0x5C, c]
      else if c = CHR 0x08 then [CHR 0x5C, CHR ''b'']
      else if c = CHR 0x0C then [CHR 0x5C, CHR ''f'']
      else if c = CHR 0x0A then [CHR 0x5C, CHR ''n'']
      else if c = CHR 0x0D then [CHR 0x5C, CHR ''r'']
      else if c = CHR 0x09 then [CHR 0x5C, CHR ''t'']
      else if byte c < 0x20 \<or> c \<in> set ''<>&''
        then [CHR 0x5C, CHR ''u'', CHR ''0'', CHR ''0'', json_hex (byte c div 16), json_hex (byte c mod 16)]
      else [c])"

function json_escape :: "string \<Rightarrow> string" where
  "json_escape [] = []"
| "json_escape (c # r) =
     (let n = rune_width (c # r) in
      if byte c < 0x80 then escape_byte c @ json_escape r
      else if n = 0 then CHR 0x5C # ''ufffd'' @ json_escape r
      else if take 3 (c # r) = [CHR 0xE2, CHR 0x80, CHR 0xA8] then CHR 0x5C # ''u2028'' @ json_escape (drop 3 (c # r))
      else if take 3 (c # r) = [CHR 0xE2, CHR 0x80, CHR 0xA9] then CHR 0x5C # ''u2029'' @ json_escape (drop 3 (c # r))
      else take n (c # r) @ json_escape (drop n (c # r)))"
  by pat_completeness auto
termination
  by (relation "measure length") auto

declare json_escape.simps(2) [simp del]

definition json_quote :: "string \<Rightarrow> string" where
  "json_quote s = CHR 0x22 # json_escape s @ [CHR 0x22]"


section \<open>Reading strings\<close>

definition hex_value :: "char \<Rightarrow> nat option" where
  "hex_value c =
     (if between 0x30 0x39 c then Some (byte c - 0x30)
      else if between 0x61 0x66 c then Some (byte c - 0x57)
      else if between 0x41 0x46 c then Some (byte c - 0x37)
      else None)"

text \<open>The four digits after \<open>\u\<close>.\<close>

definition getu4 :: "string \<Rightarrow> nat option" where
  "getu4 s = (case s of
     a # b # c # d # _ \<Rightarrow>
       (case (hex_value a, hex_value b, hex_value c, hex_value d) of
          (Some w, Some x, Some y, Some z) \<Rightarrow> Some (((w * 16 + x) * 16 + y) * 16 + z)
        | _ \<Rightarrow> None)
   | _ \<Rightarrow> None)"

text \<open>\<open>utf16.DecodeRune\<close>: a high surrogate and a low one in the escape that follows.\<close>

definition surrogate_pair :: "nat \<Rightarrow> string \<Rightarrow> nat option" where
  "surrogate_pair u s =
     (if 0xD800 \<le> u \<and> u < 0xDC00 \<and> take 2 s = [CHR 0x5C, CHR ''u'']
      then (case getu4 (drop 2 s) of
              Some v \<Rightarrow> if 0xDC00 \<le> v \<and> v < 0xE000 then Some (0x10000 + (u - 0xD800) * 0x400 + (v - 0xDC00)) else None
            | None \<Rightarrow> None)
      else None)"

definition simple_escape :: "char \<Rightarrow> char option" where
  "simple_escape e =
     (if e \<in> {CHR 0x22, CHR 0x5C, CHR ''/''} then Some e
      else if e = CHR ''b'' then Some (CHR 0x08)
      else if e = CHR ''f'' then Some (CHR 0x0C)
      else if e = CHR ''n'' then Some (CHR 0x0A)
      else if e = CHR ''r'' then Some (CHR 0x0D)
      else if e = CHR ''t'' then Some (CHR 0x09)
      else None)"

definition string_part :: "string \<Rightarrow> string \<Rightarrow> (string \<times> string \<times> string) option \<Rightarrow> (string \<times> string \<times> string) option" where
  "string_part raw s = map_option (\<lambda>(raws, ss, rest). (raw @ raws, s @ ss, rest))"

text \<open>A string after its opening quote: its bytes up to the closing quote, the text they stand for, and the rest.\<close>

function json_string :: "string \<Rightarrow> (string \<times> string \<times> string) option" where
  "json_string [] = None"
| "json_string (c # r) =
     (if c = CHR 0x22 then Some ([], [], r)
      else if c = CHR 0x5C then
        (case r of
           [] \<Rightarrow> None
         | e # t \<Rightarrow>
             if e = CHR ''u'' then
               (case getu4 t of
                  None \<Rightarrow> None
                | Some u \<Rightarrow>
                    (case surrogate_pair u (drop 4 t) of
                       Some v \<Rightarrow> string_part (c # e # take 10 t) (utf8_encode v) (json_string (drop 10 t))
                     | None \<Rightarrow>
                         string_part (c # e # take 4 t) (utf8_encode (if 0xD800 \<le> u \<and> u < 0xE000 then 0xFFFD else u))
                           (json_string (drop 4 t))))
             else (case simple_escape e of None \<Rightarrow> None | Some d \<Rightarrow> string_part [c, e] [d] (json_string t)))
      else if byte c < 0x20 then None
      else if byte c < 0x80 then string_part [c] [c] (json_string r)
      else let n = rune_width (c # r) in
        if n = 0 then string_part [c] (utf8_encode 0xFFFD) (json_string r)
        else string_part (take n (c # r)) (take n (c # r)) (json_string (drop n (c # r))))"
  by pat_completeness auto
termination
  by (relation "measure length") auto

declare json_string.simps(2) [simp del]

lemma json_string_shorter: "json_string s = Some (raw, t, rest) \<Longrightarrow> length rest < length s"
proof (induction "length s" arbitrary: s raw t rest rule: less_induct)
  case less
  show ?case
  proof (cases s)
    case (Cons c r)
    have IH: "length rest' < length s" if "json_string y = Some (a, b, rest')" "length y \<le> length r" for y a b rest'
      using less.hyps [of y] that Cons by fastforce
    from less.prems show ?thesis
      unfolding Cons json_string.simps(2)
      by (auto simp: string_part_def Let_def Cons split: if_splits list.splits option.splits dest!: IH)
  qed (use less.prems in simp)
qed


section \<open>Tokens\<close>

text \<open>A string carries its bytes and the text they stand for; numbers, \<open>true\<close> and \<open>false\<close> are only told apart from \<open>null\<close>.\<close>

datatype json_token = TPunct char | TStr string string | TNull | TLit

definition json_space :: "char \<Rightarrow> bool" where
  "json_space c \<longleftrightarrow> c \<in> {CHR '' '', CHR 0x09, CHR 0x0A, CHR 0x0D}"

text \<open>The parts of a number at the front of a text: digits, and a fraction or exponent that may be missing.\<close>

definition digits_at :: "string \<Rightarrow> nat option" where
  "digits_at s = (let n = length (takeWhile dec_digit s) in if n = 0 then None else Some n)"

definition number_int :: "string \<Rightarrow> nat option" where
  "number_int s =
     (let m = (if take 1 s = ''-'' then 1 else 0); r = drop m s
      in if take 1 r = ''0'' then Some (m + 1) else map_option (\<lambda>n. m + n) (digits_at r))"

definition number_frac :: "string \<Rightarrow> nat option" where
  "number_frac s = (if take 1 s = ''.'' then map_option Suc (digits_at (tl s)) else Some 0)"

definition number_exp :: "string \<Rightarrow> nat option" where
  "number_exp s =
     (if take 1 s = ''e'' \<or> take 1 s = ''E''
      then let m = (if take 1 (tl s) = ''+'' \<or> take 1 (tl s) = ''-'' then 2 else 1)
           in map_option (\<lambda>n. m + n) (digits_at (drop m s))
      else Some 0)"

definition json_number :: "string \<Rightarrow> nat option" where
  "json_number s =
     (case number_int s of
        None \<Rightarrow> None
      | Some i \<Rightarrow>
          (case number_frac (drop i s) of
             None \<Rightarrow> None
           | Some f \<Rightarrow> map_option (\<lambda>e. i + f + e) (number_exp (drop (i + f) s))))"

definition json_literal :: "string \<Rightarrow> (json_token \<times> nat) option" where
  "json_literal s =
     (if has_prefix ''null'' s then Some (TNull, 4)
      else if has_prefix ''true'' s then Some (TLit, 4)
      else if has_prefix ''false'' s then Some (TLit, 5)
      else map_option (\<lambda>n. (TLit, n)) (json_number s))"

lemma json_literal_pos: "json_literal s = Some (t, n) \<Longrightarrow> 0 < n"
  by (auto simp: json_literal_def json_number_def number_int_def digits_at_def Let_def split: if_splits option.splits)

function json_tokens :: "string \<Rightarrow> json_token list option" where
  "json_tokens [] = Some []"
| "json_tokens (c # r) =
     (if json_space c then json_tokens r
      else if c \<in> set ''{}[],:'' then map_option ((#) (TPunct c)) (json_tokens r)
      else if c = CHR 0x22 then
        (case json_string r of
           None \<Rightarrow> None
         | Some (raw, s, rest) \<Rightarrow> map_option ((#) (TStr raw s)) (json_tokens rest))
      else (case json_literal (c # r) of
              None \<Rightarrow> None
            | Some (t, n) \<Rightarrow> map_option ((#) t) (json_tokens (drop n (c # r)))))"
  by pat_completeness auto
termination
  by (relation "measure length") (auto dest: json_string_shorter json_literal_pos)

declare json_tokens.simps(2) [simp del]

text \<open>
  The check of the whole text: what may come next, and for every open object (\<open>True\<close>) or array an
  entry of the stack, of which there are at most 10000.
\<close>

datatype json_want = WantValue | WantElem | WantKey bool | WantColon | WantNext | WantNone

definition value_done :: "bool list \<Rightarrow> json_want \<times> bool list" where
  "value_done stack = (if stack = [] then WantNone else WantNext, stack)"

definition json_value :: "json_token \<Rightarrow> bool list \<Rightarrow> (json_want \<times> bool list) option" where
  "json_value t stack = (case t of
     TPunct c \<Rightarrow>
       if c = CHR ''{'' \<and> length stack < 10000 then Some (WantKey True, True # stack)
       else if c = CHR ''['' \<and> length stack < 10000 then Some (WantElem, False # stack)
       else None
   | _ \<Rightarrow> Some (value_done stack))"

fun json_next :: "json_token \<Rightarrow> json_want \<times> bool list \<Rightarrow> (json_want \<times> bool list) option" where
  "json_next t (WantValue, stack) = json_value t stack"
| "json_next t (WantElem, stack) = (if t = TPunct (CHR '']'') then Some (value_done (tl stack)) else json_value t stack)"
| "json_next t (WantKey first, stack) =
     (case t of
        TStr _ _ \<Rightarrow> Some (WantColon, stack)
      | TPunct c \<Rightarrow> if first \<and> c = CHR ''}'' then Some (value_done (tl stack)) else None
      | _ \<Rightarrow> None)"
| "json_next t (WantColon, stack) = (if t = TPunct (CHR '':'') then Some (WantValue, stack) else None)"
| "json_next t (WantNext, stack) =
     (if stack = [] then None
      else if t = TPunct (CHR '','') then Some (if hd stack then WantKey False else WantValue, stack)
      else if t = TPunct (if hd stack then CHR ''}'' else CHR '']'') then Some (value_done (tl stack))
      else None)"
| "json_next t (WantNone, stack) = None"

fun json_check :: "json_token list \<Rightarrow> json_want \<times> bool list \<Rightarrow> bool" where
  "json_check [] (want, stack) \<longleftrightarrow> want = WantNone"
| "json_check (t # ts) state = (case json_next t state of None \<Rightarrow> False | Some state \<Rightarrow> json_check ts state)"

definition checkValid :: "json_token list \<Rightarrow> bool" where
  "checkValid ts = json_check ts (WantValue, [])"

text \<open>The keys of the object whose opening brace was read, each with the first token of its value.\<close>

function (sequential) json_members :: "nat \<Rightarrow> bool \<Rightarrow> json_token list \<Rightarrow> (string \<times> json_token) list" where
  "json_members depth True (TStr raw key # colon # v # ts) = (key, v) # json_members depth False (v # ts)"
| "json_members depth False (t # ts) =
     (if t = TPunct (CHR ''{'') \<or> t = TPunct (CHR ''['') then json_members (Suc depth) False ts
      else if t = TPunct (CHR ''}'') \<or> t = TPunct (CHR '']'') then
        (if depth = 0 then [] else json_members (depth - 1) False ts)
      else json_members depth (depth = 0 \<and> t = TPunct (CHR '','')) ts)"
| "json_members depth _ _ = []"
  by pat_completeness auto
termination
  by (relation "measure (\<lambda>(_, _, ts). length ts)") auto


section \<open>What was quoted is read back\<close>

lemma string_part_Some [simp]: "string_part a b (Some (r, s, t)) = Some (a @ r, b @ s, t)"
  by (simp add: string_part_def)

lemma json_hex_value: "n < 16 \<Longrightarrow> hex_value (json_hex n) = Some n"
proof -
  have "list_all (\<lambda>n. hex_value (json_hex n) = Some n) [0..<16]" by code_simp
  then show "n < 16 \<Longrightarrow> hex_value (json_hex n) = Some n" by (auto simp: list_all_iff)
qed

lemma string_plain:
  "byte c < 0x80 \<Longrightarrow> 0x20 \<le> byte c \<Longrightarrow> c \<noteq> CHR 0x22 \<Longrightarrow> c \<noteq> CHR 0x5C \<Longrightarrow> json_string (c # r) = string_part [c] [c] (json_string r)"
  by (simp add: json_string.simps(2))

lemma string_simple:
  "simple_escape e = Some d \<Longrightarrow> json_string (CHR 0x5C # e # r) = string_part [CHR 0x5C, e] [d] (json_string r)"
  by (auto simp: json_string.simps(2) simple_escape_def)

lemma string_unicode:
  assumes "getu4 (a # b # c # d # r) = Some u" and "u < 0xD800"
  shows "json_string (CHR 0x5C # CHR ''u'' # a # b # c # d # r)
    = string_part [CHR 0x5C, CHR ''u'', a, b, c, d] (utf8_encode u) (json_string r)"
  using assms by (simp add: json_string.simps(2) surrogate_pair_def)

lemma escape_byte_read:
  assumes "byte c < 0x80"
  shows "json_string (escape_byte c @ r) = string_part (escape_byte c) [c] (json_string r)"
proof (cases "byte c < 0x20 \<or> c \<in> set ''<>&''")
  case False
  then show ?thesis
    using assms by (auto simp: escape_byte_def string_simple string_plain simple_escape_def)
next
  case True
  have "hex_value (CHR ''0'') = Some 0" by code_simp
  moreover have "byte c div 16 < 16" "byte c mod 16 < 16" using assms by simp_all
  ultimately have u: "getu4 (CHR ''0'' # CHR ''0'' # json_hex (byte c div 16) # json_hex (byte c mod 16) # r) = Some (byte c)"
    by (simp add: getu4_def json_hex_value)
  have "utf8_encode (byte c) = [c]" using assms by (simp add: utf8_encode_def)
  then show ?thesis
    using assms True string_unicode [OF u] by (auto simp: escape_byte_def string_simple simple_escape_def)
qed

lemma string_wide:
  assumes "\<not> byte c < 0x80" and "0 < rune_width (c # r)"
  shows "json_string (take (rune_width (c # r)) (c # r) @ t)
    = string_part (take (rune_width (c # r)) (c # r)) (take (rune_width (c # r)) (c # r)) (json_string t)"
proof -
  let ?n = "rune_width (c # r)"
  note w = rune_width_append [OF assms(2)]
  obtain n where n: "?n = Suc n" using assms(2) by (cases ?n) simp_all
  have "c \<noteq> CHR 0x22" "c \<noteq> CHR 0x5C" using assms(1) by auto
  with assms w(1) [of t] w(2) show ?thesis
    by (simp add: n json_string.simps(2) Let_def)
qed

lemma string_line_separator:
  "json_string (CHR 0x5C # ''u2028'' @ r) = string_part (CHR 0x5C # ''u2028'') [CHR 0xE2, CHR 0x80, CHR 0xA8] (json_string r)"
  "json_string (CHR 0x5C # ''u2029'' @ r) = string_part (CHR 0x5C # ''u2029'') [CHR 0xE2, CHR 0x80, CHR 0xA9] (json_string r)"
proof -
  have u: "getu4 (''2028'' @ r) = Some 0x2028" "getu4 (''2029'' @ r) = Some 0x2029"
    by (simp_all add: getu4_def hex_value_def between_def)
  have e: "utf8_encode 0x2028 = [CHR 0xE2, CHR 0x80, CHR 0xA8]" "utf8_encode 0x2029 = [CHR 0xE2, CHR 0x80, CHR 0xA9]"
    using char_of_char [where 'a = nat, of "CHR 0xE2"] char_of_char [where 'a = nat, of "CHR 0x80"]
      char_of_char [where 'a = nat, of "CHR 0xA8"] char_of_char [where 'a = nat, of "CHR 0xA9"]
    by (simp_all add: utf8_encode_def)
  from u e show "json_string (CHR 0x5C # ''u2028'' @ r) = string_part (CHR 0x5C # ''u2028'') [CHR 0xE2, CHR 0x80, CHR 0xA8] (json_string r)"
    "json_string (CHR 0x5C # ''u2029'' @ r) = string_part (CHR 0x5C # ''u2029'') [CHR 0xE2, CHR 0x80, CHR 0xA9] (json_string r)"
    using string_unicode [of "CHR ''2''" "CHR ''0''" "CHR ''2''" _ r] by simp_all
qed

lemma separators_width:
  "rune_width (CHR 0xE2 # CHR 0x80 # CHR 0xA8 # t) = 3" "rune_width (CHR 0xE2 # CHR 0x80 # CHR 0xA9 # t) = 3"
  by (simp_all add: rune_width_def between_def)

lemma separators_escape:
  "json_escape (CHR 0xE2 # CHR 0x80 # CHR 0xA8 # t) = CHR 0x5C # ''u2028'' @ json_escape t"
  "json_escape (CHR 0xE2 # CHR 0x80 # CHR 0xA9 # t) = CHR 0x5C # ''u2029'' @ json_escape t"
  by (simp_all add: json_escape.simps(2) separators_width)

lemma separators_read:
  assumes "json_string (json_escape t @ CHR 0x22 # rest) = Some (json_escape t, t, rest)"
    and "c = CHR 0xA8 \<or> c = CHR 0xA9"
  shows "json_string (json_escape (CHR 0xE2 # CHR 0x80 # c # t) @ CHR 0x22 # rest)
    = Some (json_escape (CHR 0xE2 # CHR 0x80 # c # t), CHR 0xE2 # CHR 0x80 # c # t, rest)"
  using assms string_line_separator [of "json_escape t @ CHR 0x22 # rest"] by (auto simp: separators_escape)

lemma json_escape_read:
  "utf8 s \<Longrightarrow> json_string (json_escape s @ CHR 0x22 # rest) = Some (json_escape s, s, rest)"
proof (induction s rule: json_escape.induct)
  case 1
  show ?case by (simp add: json_string.simps)
next
  case (2 c r)
  let ?n = "rune_width (c # r)" and ?s = "c # r"
  have n: "0 < ?n" "utf8 (drop ?n ?s)" using "2.prems" utf8.simps [of ?s] by (simp_all split: if_splits)
  show ?case
  proof (cases "byte c < 0x80")
    case True
    then have "?n = 1" by (simp add: rune_width_def between_def)
    with n(2) "2.IH"(1) [OF refl True] show ?thesis
      by (simp add: json_escape.simps(2) [of c r] Let_def True escape_byte_read)
  next
    case wide: False
    show ?thesis
    proof (cases "take 3 ?s = [CHR 0xE2, CHR 0x80, CHR 0xA8] \<or> take 3 ?s = [CHR 0xE2, CHR 0x80, CHR 0xA9]")
      case True
      have n0: "?n \<noteq> 0" using n(1) by simp
      have sep: "?s = CHR 0xE2 # CHR 0x80 # CHR 0xA8 # drop 3 ?s \<or> ?s = CHR 0xE2 # CHR 0x80 # CHR 0xA9 # drop 3 ?s"
        using True append_take_drop_id [of 3 ?s] by (metis append_Cons append_Nil)
      then have "?n = 3" using separators_width by metis
      with n(2) have d: "utf8 (drop 3 ?s)" by simp
      have "json_string (json_escape (drop 3 ?s) @ CHR 0x22 # rest) = Some (json_escape (drop 3 ?s), drop 3 ?s, rest)"
      proof (cases "take 3 ?s = [CHR 0xE2, CHR 0x80, CHR 0xA8]")
        case A8: True
        show ?thesis by (rule "2.IH"(3) [OF refl wide n0 A8 d])
      next
        case A9: False
        with True have "take 3 ?s = [CHR 0xE2, CHR 0x80, CHR 0xA9]" by blast
        then show ?thesis by (rule "2.IH"(4) [OF refl wide n0 A9 _ d])
      qed
      then show ?thesis using sep separators_read [of "drop 3 ?s" rest] by metis
    next
      case False
      then have "json_escape ?s = take ?n ?s @ json_escape (drop ?n ?s)"
        using n(1) wide by (auto simp: json_escape.simps(2) [of c r] Let_def)
      moreover have "json_string (json_escape (drop ?n ?s) @ CHR 0x22 # rest) = Some (json_escape (drop ?n ?s), drop ?n ?s, rest)"
        using "2.IH"(5) [OF refl wide] n False by simp
      ultimately show ?thesis
        using string_wide [OF wide n(1), of "json_escape (drop ?n ?s) @ CHR 0x22 # rest"] by simp
    qed
  qed
qed

text \<open>A quoted string at the front of a text is one token.\<close>

lemma quote_token:
  "utf8 s \<Longrightarrow> json_tokens (json_quote s @ rest) = map_option ((#) (TStr (json_escape s) s)) (json_tokens rest)"
  by (simp add: json_quote_def json_tokens.simps(2) json_space_def json_escape_read)

lemma punct_token:
  "c \<in> set ''{}[],:'' \<Longrightarrow> json_tokens (c # rest) = map_option ((#) (TPunct c)) (json_tokens rest)"
  by (auto simp: json_tokens.simps(2) json_space_def)

text \<open>Plain text is written as it is.\<close>

definition plain :: "char \<Rightarrow> bool" where
  "plain c \<longleftrightarrow> 0x20 \<le> byte c \<and> byte c < 0x80 \<and> c \<notin> {CHR 0x22, CHR 0x5C} \<and> c \<notin> set ''<>&''"

lemma plain_escape: "plain c \<Longrightarrow> escape_byte c = [c]"
proof -
  assume c: "plain c"
  have "0x20 \<le> byte c" using c unfolding plain_def by (rule conjunct1)
  then have "c \<noteq> CHR 0x08" "c \<noteq> CHR 0x0C" "c \<noteq> CHR 0x0A" "c \<noteq> CHR 0x0D" "c \<noteq> CHR 0x09"
    by (rule contrapos_pn, simp)+
  with c show "escape_byte c = [c]" by (simp add: plain_def escape_byte_def)
qed

lemma plain_text:
  assumes "list_all plain s"
  shows "json_escape s = s" and "utf8 s"
proof -
  have "json_escape s = s \<and> utf8 s" using assms
  proof (induction s)
    case (Cons c s)
    then have c: "plain c" by simp
    then have "rune_width (c # s) = 1" "byte c < 0x80" by (simp_all add: plain_def rune_width_def between_def)
    with plain_escape [OF c] Cons json_escape.simps(2) [of c s] utf8.simps [of "c # s"] show ?case by simp
  qed (simp add: utf8.simps)
  then show "json_escape s = s" "utf8 s" by simp_all
qed

end
