(* ===== verification/Checkpoint_Json.thy ===== *)
theory Checkpoint_Json
  imports Checkpoint_Store Json_Text
begin

text \<open>
  The JSON form of a checkpoint in the database, as \<open>json.Marshal\<close> writes the struct and \<open>json.Unmarshal\<close>
  reads it in \<open>internal/checkpoint/store.go\<close>, with \<open>MarshalJSON\<close> and \<open>UnmarshalJSON\<close> of \<open>time.Time\<close>. It is
  the codec of the store; for texts in UTF-8 and years of four digits it has the law \<open>codec_ok\<close>. A
  \<open>gotime\<close> is an instant, so a time is written in UTC, as the timestamps of Docker are. Errors carry a
  text that names their kind.
\<close>

section \<open>Writing\<close>

definition json_time :: "gotime \<Rightarrow> string" where
  "json_time t = CHR 0x22 # time_Format t @ [CHR 0x22]"

definition json_Marshal :: "ContainerCheckpoint \<Rightarrow> string + string" where
  "json_Marshal cp =
     (if time_year (cpt_LastTimestamp cp) < 0 \<or> 9999 < time_year (cpt_LastTimestamp cp)
      then Inl ''Time.MarshalJSON: year outside of range [0,9999]''
      else Inr (''{'' @ json_quote ''ContainerName'' @ '':'' @ json_quote (cpt_ContainerName cp)
        @ '','' @ json_quote ''ContainerID'' @ '':'' @ json_quote (cpt_ContainerID cp)
        @ '','' @ json_quote ''LastTimestamp'' @ '':'' @ json_time (cpt_LastTimestamp cp)
        @ '','' @ json_quote ''LastEventHash'' @ '':'' @ json_quote (cpt_LastEventHash cp) @ ''}''))"


section \<open>Reading\<close>

text \<open>Keys are compared without case; the long s and the Kelvin sign belong to ASCII letters.\<close>

definition fold_byte :: "char \<Rightarrow> char" where
  "fold_byte c = (if between 0x61 0x7A c then char_of (byte c - 0x20) else c)"

function foldName :: "string \<Rightarrow> string" where
  "foldName [] = []"
| "foldName (c # s) =
     (if c = CHR 0xC5 \<and> take 1 s = [CHR 0xBF] then CHR ''S'' # foldName (drop 1 s)
      else if c = CHR 0xE2 \<and> take 2 s = [CHR 0x84, CHR 0xAA] then CHR ''K'' # foldName (drop 2 s)
      else fold_byte c # foldName s)"
  by pat_completeness auto
termination
  by (relation "measure length") auto

declare foldName.simps(2) [simp del]

text \<open>A value for a field: \<open>null\<close> leaves it as it is, a wrong type is an error.\<close>

definition string_field :: "json_token \<Rightarrow> string \<Rightarrow> string option" where
  "string_field t old = (case t of TStr _ s \<Rightarrow> Some s | TNull \<Rightarrow> Some old | _ \<Rightarrow> None)"

definition time_field :: "(string \<Rightarrow> gotime option) \<Rightarrow> json_token \<Rightarrow> gotime \<Rightarrow> gotime option" where
  "time_field general t old = (case t of TStr raw _ \<Rightarrow> time_Parse general raw | TNull \<Rightarrow> Some old | _ \<Rightarrow> None)"

definition decode_field ::
  "(string \<Rightarrow> gotime option) \<Rightarrow> string \<times> json_token \<Rightarrow> ContainerCheckpoint option \<Rightarrow> ContainerCheckpoint option" where
  "decode_field general kt res =
     (case (kt, res) of
        (_, None) \<Rightarrow> None
      | ((key, t), Some cp) \<Rightarrow>
          if foldName key = foldName ''ContainerName'' then
            map_option (\<lambda>v. cp\<lparr>cpt_ContainerName := v\<rparr>) (string_field t (cpt_ContainerName cp))
          else if foldName key = foldName ''ContainerID'' then
            map_option (\<lambda>v. cp\<lparr>cpt_ContainerID := v\<rparr>) (string_field t (cpt_ContainerID cp))
          else if foldName key = foldName ''LastTimestamp'' then
            map_option (\<lambda>v. cp\<lparr>cpt_LastTimestamp := v\<rparr>) (time_field general t (cpt_LastTimestamp cp))
          else if foldName key = foldName ''LastEventHash'' then
            map_option (\<lambda>v. cp\<lparr>cpt_LastEventHash := v\<rparr>) (string_field t (cpt_LastEventHash cp))
          else Some cp)"

definition json_Unmarshal :: "(string \<Rightarrow> gotime option) \<Rightarrow> string \<Rightarrow> string + ContainerCheckpoint" where
  "json_Unmarshal general value =
     (case json_tokens value of
        None \<Rightarrow> Inl ''syntax error''
      | Some ts \<Rightarrow>
          if \<not> checkValid ts then Inl ''syntax error''
          else if hd ts = TNull then Inr zero_checkpoint
          else if hd ts = TPunct (CHR ''{'') then
            (case fold (decode_field general) (json_members 0 True (tl ts)) (Some zero_checkpoint) of
               None \<Rightarrow> Inl ''cannot unmarshal''
             | Some cp \<Rightarrow> Inr cp)
          else Inl ''cannot unmarshal'')"

definition json_codec :: "(string \<Rightarrow> gotime option) \<Rightarrow> ckpt_codec" where
  "json_codec general = \<lparr>cd_marshal = json_Marshal, cd_unmarshal = json_Unmarshal general\<rparr>"


section \<open>Round trip\<close>

text \<open>The checkpoints that the form keeps.\<close>

definition storable :: "ContainerCheckpoint \<Rightarrow> bool" where
  "storable cp \<longleftrightarrow> utf8 (cpt_ContainerName cp) \<and> utf8 (cpt_ContainerID cp) \<and> utf8 (cpt_LastEventHash cp)
     \<and> 0 \<le> time_year (cpt_LastTimestamp cp) \<and> time_year (cpt_LastTimestamp cp) \<le> 9999"

lemma dec_digit_plain: "dec_digit c \<Longrightarrow> plain c"
proof -
  assume "dec_digit c"
  then have "48 \<le> byte c" "byte c \<le> 57" by (simp_all add: dec_digit_def)
  moreover have "c \<noteq> d" if "byte d < 48 \<or> 57 < byte d" for d using that calculation by auto
  ultimately show "plain c" by (simp add: plain_def)
qed

lemma time_plain: "list_all plain (time_Format t)"
proof -
  have "list_all plain ''-T:.Z''" by code_simp
  then show ?thesis using time_Format_chars [of t] dec_digit_plain by (force simp: list_all_iff)
qed

lemma json_time_quote: "json_time t = json_quote (time_Format t)"
  using plain_text(1) [OF time_plain] by (simp add: json_time_def json_quote_def)

lemma names_plain:
  "utf8 ''ContainerName''" "utf8 ''ContainerID''" "utf8 ''LastTimestamp''" "utf8 ''LastEventHash''"
  by (rule plain_text(2), code_simp)+

definition json_fields :: "ContainerCheckpoint \<Rightarrow> (string \<times> json_token) list" where
  "json_fields cp =
     (let text_field = (\<lambda>s. TStr (json_escape s) s) in
      [(''ContainerName'', text_field (cpt_ContainerName cp)), (''ContainerID'', text_field (cpt_ContainerID cp)),
       (''LastTimestamp'', text_field (time_Format (cpt_LastTimestamp cp))), (''LastEventHash'', text_field (cpt_LastEventHash cp))])"

lemma json_Marshal_tokens:
  assumes "storable cp" and "json_Marshal cp = Inr v"
  shows "\<exists>ts. json_tokens v = Some ts \<and> checkValid ts \<and> hd ts = TPunct (CHR ''{'') \<and> json_members 0 True (tl ts) = json_fields cp"
proof -
  have v: "v = CHR ''{'' # json_quote ''ContainerName'' @ CHR '':'' # json_quote (cpt_ContainerName cp)
      @ CHR '','' # json_quote ''ContainerID'' @ CHR '':'' # json_quote (cpt_ContainerID cp)
      @ CHR '','' # json_quote ''LastTimestamp'' @ CHR '':'' # json_quote (time_Format (cpt_LastTimestamp cp))
      @ CHR '','' # json_quote ''LastEventHash'' @ CHR '':'' # json_quote (cpt_LastEventHash cp) @ [CHR ''}'']"
    using assms(2) by (simp add: json_Marshal_def json_time_quote split: if_splits)
  have u: "utf8 (cpt_ContainerName cp)" "utf8 (cpt_ContainerID cp)" "utf8 (cpt_LastEventHash cp)"
    "utf8 (time_Format (cpt_LastTimestamp cp))"
    using assms(1) plain_text(2) [OF time_plain] by (simp_all add: storable_def)
  show ?thesis unfolding v
    by (simp add: quote_token punct_token u names_plain checkValid_def json_value_def value_done_def json_fields_def)
qed

lemma fold_names:
  "foldName ''ContainerName'' = ''CONTAINERNAME''" "foldName ''ContainerID'' = ''CONTAINERID''"
  "foldName ''LastTimestamp'' = ''LASTTIMESTAMP''" "foldName ''LastEventHash'' = ''LASTEVENTHASH''"
  by code_simp+

lemma decode_fields:
  "decode_field general (''ContainerName'', TStr raw s) (Some cp) = Some (cp\<lparr>cpt_ContainerName := s\<rparr>)"
  "decode_field general (''ContainerID'', TStr raw s) (Some cp) = Some (cp\<lparr>cpt_ContainerID := s\<rparr>)"
  "time_Parse general raw = Some t \<Longrightarrow>
    decode_field general (''LastTimestamp'', TStr raw s) (Some cp) = Some (cp\<lparr>cpt_LastTimestamp := t\<rparr>)"
  "decode_field general (''LastEventHash'', TStr raw s) (Some cp) = Some (cp\<lparr>cpt_LastEventHash := s\<rparr>)"
  by (simp_all add: decode_field_def fold_names string_field_def time_field_def)

lemma json_roundtrip:
  assumes "storable cp"
  shows "\<exists>v. json_Marshal cp = Inr v \<and> json_Unmarshal general v = Inr cp"
proof -
  obtain v where v: "json_Marshal cp = Inr v" using assms by (auto simp: storable_def json_Marshal_def)
  have t: "time_Parse general (time_Format (cpt_LastTimestamp cp)) = Some (cpt_LastTimestamp cp)"
    using assms by (intro time_roundtrip) (simp_all add: storable_def)
  have "fold (decode_field general) (json_fields cp) (Some zero_checkpoint) = Some cp"
    by (simp add: json_fields_def decode_fields decode_fields(3) [OF t] plain_text(1) [OF time_plain] Let_def)
  with json_Marshal_tokens [OF assms v] v show ?thesis by (auto simp: json_Unmarshal_def)
qed


section \<open>The store with this codec\<close>

text \<open>The codec restricted to the checkpoints that it keeps has the law that the lemmas on the store ask for.\<close>

definition checked :: "ckpt_codec \<Rightarrow> ckpt_codec" where
  "checked codec = codec\<lparr>cd_marshal := (\<lambda>cp. if storable cp then cd_marshal codec cp else Inl ''refused'')\<rparr>"

lemma checked_simps [simp]: "cd_unmarshal (checked codec) = cd_unmarshal codec"
  by (simp add: checked_def)

lemma checked_ok: "codec_ok (checked (json_codec general))"
proof -
  have "json_Unmarshal general v = Inr cp" if "storable cp" "json_Marshal cp = Inr v" for cp v
    using json_roundtrip [OF that(1), of general] that(2) by auto
  then show ?thesis by (auto simp: codec_ok_def checked_def json_codec_def split: if_splits)
qed

definition pending_ok :: "ckpt_Store \<Rightarrow> bool" where
  "pending_ok s \<longleftrightarrow> list_all (storable \<circ> snd) (st_pending s)"

lemma put_all_checked: "list_all (storable \<circ> snd) ps \<Longrightarrow> put_all (checked codec) ps db = put_all codec ps db"
proof (induction ps arbitrary: db)
  case (Cons p ps)
  then show ?case by (cases p) (auto simp: checked_def split: sum.split)
qed simp

lemma flushLocked_checked:
  assumes "pending_ok s"
  shows "flushLocked (checked codec) io s = flushLocked codec io s" and "pending_ok (fst (flushLocked codec io s))"
proof -
  show "flushLocked (checked codec) io s = flushLocked codec io s"
    using put_all_checked [of "st_pending s" codec] assms by (simp add: flushLocked_def pending_ok_def split: option.split)
  show "pending_ok (fst (flushLocked codec io s))"
    using assms by (auto simp: flushLocked_def pending_ok_def split: sum.split)
qed

lemma gm_set_in: "x \<in> set (gm_set k v m) \<Longrightarrow> x = (k, v) \<or> x \<in> set m"
  by (induction m) (auto split: if_splits)

lemma pending_ok_save: "pending_ok s \<Longrightarrow> storable cp \<Longrightarrow> pending_ok (s\<lparr>st_pending := gm_set n cp (st_pending s), st_dirty := d\<rparr>)"
  unfolding pending_ok_def list_all_iff by (auto dest!: gm_set_in)

lemma ckpt_Load_checked [simp]: "ckpt_Load (checked codec) = ckpt_Load codec"
  by (intro ext) (simp add: ckpt_Load_def split: option.split)

lemma ckpt_checked:
  assumes "pending_ok s"
  shows "ckpt_Flush (checked codec) io s = ckpt_Flush codec io s" "pending_ok (fst (ckpt_Flush codec io s))"
    and "flush_tick (checked codec) io s = flush_tick codec io s" "pending_ok (fst (flush_tick codec io s))"
    and "ckpt_Close (checked codec) io closeErr s = ckpt_Close codec io closeErr s" "pending_ok (fst (ckpt_Close codec io closeErr s))"
proof -
  note flush = flushLocked_checked [of _ codec]
  show f: "ckpt_Flush (checked codec) io s = ckpt_Flush codec io s" "pending_ok (fst (ckpt_Flush codec io s))"
    using flush [OF assms] assms by (simp_all add: ckpt_Flush_def)
  then show "flush_tick (checked codec) io s = flush_tick codec io s" "pending_ok (fst (flush_tick codec io s))"
    by (auto simp: flush_tick_def split: prod.split sum.split)
  have "pending_ok (s\<lparr>st_closing := True\<rparr>)" using assms by (simp add: pending_ok_def)
  note closing = flush [OF this]
  then show "ckpt_Close (checked codec) io closeErr s = ckpt_Close codec io closeErr s"
    by (simp add: ckpt_Close_def close_begin_def close_end_def)
  show "pending_ok (fst (ckpt_Close codec io closeErr s))"
    using closing(2) [of io] assms
    by (auto simp: ckpt_Close_def close_begin_def close_end_def pending_ok_def Let_def split: prod.splits sum.splits option.splits)
qed

lemma ckpt_Save_checked:
  assumes "pending_ok s" and "storable cp"
  shows "ckpt_Save (checked codec) io cp s = ckpt_Save codec io cp s" and "pending_ok (fst (ckpt_Save codec io cp s))"
proof -
  note saved = pending_ok_save [OF assms]
  show "ckpt_Save (checked codec) io cp s = ckpt_Save codec io cp s"
    by (simp add: ckpt_Save_def flushLocked_checked(1) [OF saved] Let_def split: option.split)
  show "pending_ok (fst (ckpt_Save codec io cp s))"
    using assms flushLocked_checked(2) [OF saved] saved
    by (simp add: ckpt_Save_def Let_def split: option.split)
qed

end
