(* ===== verification/Json_Service.thy ===== *)
theory Json_Service
  imports Service_Drain Checkpoint_Json
begin

text \<open>
  The connected service with the JSON codec of its store. As long as the records that the main loop
  takes can be stored as JSON, the service makes exactly the steps that it makes with a codec that
  satisfies \<open>codec_ok\<close>, so that what was proved under this hypothesis holds for it.
\<close>

section \<open>Agreement of the two codecs\<close>

definition checked_libs :: "'re libs \<Rightarrow> 're libs" where
  "checked_libs L = L\<lparr>lb_codec := checked (lb_codec L)\<rparr>"

lemma checked_libs_simps [simp]:
  "lb_regex (checked_libs L) = lb_regex L" "lb_sha (checked_libs L) = lb_sha L" "lb_hash (checked_libs L) = lb_hash L"
  "lb_codec (checked_libs L) = checked (lb_codec L)"
  by (simp_all add: checked_libs_def)

definition record_ok :: "'re libs \<Rightarrow> RawLog \<Rightarrow> bool" where
  "record_ok L raw \<longleftrightarrow> storable (checkpoint_of (lb_hash L) raw)"

text \<open>The checkpoints and records that a state still holds.\<close>

definition held_ok :: "'re libs \<Rightarrow> 're Runtime \<Rightarrow> bool" where
  "held_ok L rn \<longleftrightarrow> pending_ok (rn_store rn) \<and> (\<forall>(name, g) \<in> set (rn_gates rn). list_all (record_ok L) (rg_buffered g))"

lemma gate_items:
  assumes "gate_Accept hash g raw = (g', items)" and "list_all P (rg_buffered g)" and "P raw"
  shows "list_all P (rg_buffered g')" and "list_all P items"
  using assms by (auto simp: gate_Accept_def split: if_splits)

lemma filter_items:
  assumes "observer_filter (lb_hash L) raw rn = (rn', items)" and "held_ok L rn" and "record_ok L raw"
  shows "held_ok L rn'" and "list_all (record_ok L) items"
proof -
  have "held_ok L rn' \<and> list_all (record_ok L) items"
  proof (cases "gm_get (rn_gates rn) (rl_ContainerName raw)")
    case None
    then show ?thesis using assms by (auto simp: observer_filter_def)
  next
    case (Some g)
    obtain g' where g': "gate_Accept (lb_hash L) g raw = (g', items)"
      "rn' = rn\<lparr>rn_gates := gm_set (rl_ContainerName raw) g' (rn_gates rn)\<rparr>"
      using assms(1) Some by (auto simp: observer_filter_def split: prod.splits)
    have "list_all (record_ok L) (rg_buffered g)" using map_of_SomeD [OF Some] assms(2) by (auto simp: held_ok_def)
    from gate_items [OF g'(1) this assms(3)] show ?thesis
      using assms(2) g'(2) by (auto simp: held_ok_def dest!: gm_set_in)
  qed
  then show "held_ok L rn'" "list_all (record_ok L) items" by simp_all
qed

lemma save_item_checked:
  assumes "held_ok L rn" and "record_ok L item"
  shows "save_item (checked_libs L) io item rn = save_item L io item rn" and "held_ok L (save_item L io item rn)"
proof -
  note save = ckpt_Save_checked [OF _ assms(2) [unfolded record_ok_def]]
  have p: "pending_ok (rn_store rn)" using assms(1) by (simp add: held_ok_def)
  show "save_item (checked_libs L) io item rn = save_item L io item rn" by (simp add: save_item_def save(1) [OF p])
  show "held_ok L (save_item L io item rn)"
    using assms(1) save(2) [OF p, of "lb_codec L" io] by (auto simp: save_item_def held_ok_def split: prod.splits sum.splits)
qed

lemma held_processor [simp]: "held_ok L (rn\<lparr>rn_processor := p\<rparr>) = held_ok L rn" "held_ok L (rn\<lparr>rn_health := h\<rparr>) = held_ok L rn"
  "held_ok L (rn\<lparr>rn_initialStarts := i\<rparr>) = held_ok L rn" "held_ok L (rn\<lparr>rn_ids := j\<rparr>) = held_ok L rn"
  by (simp_all add: held_ok_def)

lemma process_items_checked:
  assumes "held_ok L rn" and "list_all (record_ok L) items"
  shows "process_items (checked_libs L) env i items rn = process_items L env i items rn
    \<and> held_ok L (fst (process_items L env i items rn))"
  using assms
proof (induction items arbitrary: i rn)
  case (Cons item items)
  have item: "record_ok L item" "list_all (record_ok L) items" using Cons.prems(2) by simp_all
  have next_ok: "save_item (checked_libs L) io item (rn\<lparr>rn_processor := p\<rparr>) = save_item L io item (rn\<lparr>rn_processor := p\<rparr>)"
    "held_ok L (save_item L io item (rn\<lparr>rn_processor := p\<rparr>))" for io p
    using save_item_checked [of L "rn\<lparr>rn_processor := p\<rparr>"] Cons.prems(1) item(1) by simp_all
  from Cons.IH [OF next_ok(2) item(2)] show ?case
    using Cons.prems(1) by (simp add: next_ok(1) split: prod.split option.split)
qed simp

lemma processRaw_checked:
  assumes "held_ok L rn" and "record_ok L raw"
  shows "processRaw (checked_libs L) env raw rn = processRaw L env raw rn" and "held_ok L (fst (processRaw L env raw rn))"
proof -
  obtain rn1 items where f: "observer_filter (lb_hash L) raw rn = (rn1, items)" by fastforce
  from process_items_checked [OF filter_items [OF f assms], of env 0] f
  show "processRaw (checked_libs L) env raw rn = processRaw L env raw rn" "held_ok L (fst (processRaw L env raw rn))"
    by (simp_all add: processRaw_def)
qed

lemma flush_checked:
  assumes "held_ok L (ru_rn st)"
  shows "flush_status (checked_libs L) io (ru_rn st) = flush_status L io (ru_rn st)" "held_ok L (flush_status L io (ru_rn st))"
    and "store_flushed (checked_libs L) io st = store_flushed L io st" "held_ok L (ru_rn (store_flushed L io st))"
    and "store_closed (checked_libs L) se io cio st = store_closed L se io cio st" "held_ok L (ru_rn (store_closed L se io cio st))"
proof -
  have "pending_ok (rn_store (ru_rn st))" using assms by (simp add: held_ok_def)
  note c = ckpt_checked [OF this, of "lb_codec L"]
  show "flush_status (checked_libs L) io (ru_rn st) = flush_status L io (ru_rn st)"
    "store_flushed (checked_libs L) io st = store_flushed L io st"
    "store_closed (checked_libs L) se io cio st = store_closed L se io cio st"
    by (simp_all add: flush_status_def store_flushed_def store_closed_def c)
  show "held_ok L (flush_status L io (ru_rn st))"
    using assms c(4) [of io] by (auto simp: flush_status_def held_ok_def split: prod.split)
  show "held_ok L (ru_rn (store_flushed L io st))"
    using assms c(2) [of io] by (auto simp: store_flushed_def held_ok_def Let_def split: prod.split)
  show "held_ok L (ru_rn (store_closed L se io cio st))"
    using assms c(6) [of io cio] by (auto simp: store_closed_def held_ok_def split: prod.split)
qed

lemma gm_del_in: "x \<in> set (gm_del k m) \<Longrightarrow> x \<in> set m"
  by (induction m) (auto split: if_splits)

lemma observer_checked:
  "ContainerAttached (checked codec) io now name cid b rn = ContainerAttached codec io now name cid b rn"
  "replayStart (checked codec) io now name rn = replayStart codec io now name rn"
  "held_ok L rn \<Longrightarrow> held_ok L (ContainerAttached codec io now name cid b rn)"
  "held_ok L rn \<Longrightarrow> held_ok L (fst (replayStart codec io now name rn))"
  by (auto simp: ContainerAttached_def replayStart_def Let_def held_ok_def NewReplayGate_def
      dest!: gm_set_in gm_del_in split: sum.split prod.split option.split)


section \<open>The same steps\<close>

definition label_ok :: "'re libs \<Rightarrow> ru_label \<Rightarrow> bool" where
  "label_ok L l = (case l of RuLog _ raw \<Rightarrow> record_ok L raw | _ \<Rightarrow> True)"

lemma step_agrees:
  assumes "ru_step L l st st'" and "label_ok L0 l"
    and "lb_regex L' = lb_regex L" "lb_sha L' = lb_sha L"
    and "\<And>io. flush_status L' io (ru_rn st) = flush_status L io (ru_rn st)"
    and "\<And>io. store_flushed L' io st = store_flushed L io st"
    and "\<And>se io cio. store_closed L' se io cio st = store_closed L se io cio st"
    and "\<And>io now name cid b. ContainerAttached (lb_codec L') io now name cid b (ru_rn st)
        = ContainerAttached (lb_codec L) io now name cid b (ru_rn st)"
    and "\<And>io now name. replayStart (lb_codec L') io now name (ru_rn st) = replayStart (lb_codec L) io now name (ru_rn st)"
    and "\<And>env raw. record_ok L0 raw \<Longrightarrow> processRaw L' env raw (ru_rn st) = processRaw L env raw (ru_rn st)"
  shows "ru_step L' l st st'"
  using assms(1)
proof (cases rule: ru_step.cases)
  case (worker_done expired)
  then show ?thesis using ru_step.worker_done [of st expired L'] by simp
next
  case (log running env raw rn' e)
  then have "processRaw L' env raw (ru_rn st) = (rn', e)" using assms(2,10) by (simp add: label_ok_def)
  from ru_step.log [OF log(3) this] show ?thesis using log(1,2) by simp
next
  case (proc l p')
  then show ?thesis using ru_step.proc [of st l L' p'] assms(3,4) by simp
next
  case (tick io)
  then show ?thesis using ru_step.tick [of st L' io] assms(5) by simp
next
  case (attached io now name cid b)
  then show ?thesis using ru_step.attached [of st L' io now name cid b] assms(8) by simp
next
  case (replay io now name)
  then show ?thesis using ru_step.replay [of st L' io now name] assms(9) by simp
next
  case (flush io)
  then show ?thesis using ru_step.flush [of st L' io] assms(6) by simp
next
  case (finish serverErr io closeIO)
  then show ?thesis using ru_step.finish [of st L' serverErr io closeIO] assms(7) by simp
qed (auto intro: ru_step.intros)

lemma step_checked:
  assumes "held_ok L (ru_rn st)" and "label_ok L l"
  shows "ru_step (checked_libs L) l st st' \<longleftrightarrow> ru_step L l st st'"
    and "ru_step L l st st' \<Longrightarrow> held_ok L (ru_rn st')"
proof -
  note same = flush_checked [OF assms(1)] observer_checked
  note raw = processRaw_checked [OF assms(1)]
  show "ru_step (checked_libs L) l st st' \<longleftrightarrow> ru_step L l st st'"
    by (rule iffI; erule step_agrees [OF _ assms(2)]) (simp_all add: same raw)
  assume "ru_step L l st st'"
  then show "held_ok L (ru_rn st')"
  proof (cases rule: ru_step.cases)
    case (log running env raw rn' e)
    then show ?thesis using raw(2) [of raw env] assms(2) by (simp add: label_ok_def)
  qed (use assms(1) same in \<open>simp_all add: DockerAvailable_def\<close>)
qed

lemma run_checked:
  assumes "run (sv_step parse L) s0 ls s" and "held_ok L (ru_rn (sv_run s0))" and "list_all (record_ok L) (taken ls)"
  shows "run (sv_step parse (checked_libs L)) s0 ls s \<and> held_ok L (ru_rn (sv_run s))"
  using assms
proof (induction rule: run.induct)
  case (run_step ls s1 l s2)
  then have IH: "run (sv_step parse (checked_libs L)) s0 ls s1" "held_ok L (ru_rn (sv_run s1))"
    by (simp_all add: taken_def map_filter_def)
  note main = step_checked [OF IH(2)]
  have label: "list_all (label_ok L) (main_labels l)"
    using run_step.hyps(2)
    by (cases rule: sv_step.cases)
       (use run_step.prems(2) in \<open>auto simp: taken_def map_filter_def label_ok_def ru_own_def
          split: ru_label.splits option.splits elim!: callback.elims\<close>)
  have "held_ok L (ru_rn (sv_run s2))"
    using run_step.hyps(2) IH(2) label main(2) by (cases rule: sv_step.cases) auto
  moreover have "sv_step parse (checked_libs L) l s1 s2"
    using run_step.hyps(2)
  proof (cases rule: sv_step.cases)
    case (replay name c io now r)
    have "ru_step (checked_libs L) (RuReplay io now name) (sv_run s1) r" using replay label main(1) by simp
    from sv_step.replay [OF replay(3) this, of parse] replay show ?thesis by (simp add: observer_checked)
  qed (use label main(1) in \<open>auto intro: sv_step.intros\<close>)
  ultimately show ?case using run.run_step [where step = "sv_step parse (checked_libs L)", OF IH(1)] by blast
qed (simp add: run_start)


section \<open>Properties\<close>

lemma checked_views [simp]:
  "durable (checked codec) = durable codec" "visible (checked codec) = visible codec"
  "db_ok (checked codec) db = db_ok codec db" "saves (checked_libs L) items base = saves L items base"
proof -
  show d: "durable (checked codec) = durable codec"
    by (intro ext) (simp add: durable_def split: option.split)
  show "visible (checked codec) = visible codec"
    by (intro ext) (simp add: visible_def d split: option.split)
  show "saves (checked_libs L) items base = saves L items base"
    unfolding saves_def checked_libs_simps ..
qed (simp add: db_ok_def)

lemma start_held:
  assumes "runtime_start R openErr fmtErr clientErr now db cfg dry = (Inr (st, source), acts)"
  shows "held_ok L (ru_rn st)"
proof -
  have "st_pending (rn_store (ru_rn st)) = []" using start_ok(1) [OF assms] ckpt_Open_fresh(1) by blast
  moreover have "rn_gates (ru_rn st) = []" by (rule start_source [OF assms])
  ultimately show ?thesis by (simp add: held_ok_def pending_ok_def)
qed

text \<open>
  C5. The database with its JSON values. In every run of the connected service whose records have
  names, identifiers and hashes in UTF-8 and times in years of four digits, and whatever writes fail: what
  a reader of the store sees are the checkpoints of the records that were processed and saved, in order;
  the values in the database, read back as JSON, are those of an initial part of them at any moment; and
  after a return without an error they are those of all processed records. Records for which \<open>Save\<close>
  refuses a checkpoint (without a name, an identifier, a time or a hash) are left out in each case.
\<close>

theorem Service_json:
  assumes "lb_codec L = json_codec general" and "db_ok (json_codec general) db"
    and "runtime_start R openErr fmtErr clientErr now db cfg dry = (Inr (st0, source), acts)"
    and "run (sv_step parse L) (sv_start st0 source capacity) ls s"
    and "\<forall>raw \<in> set (taken ls). storable (checkpoint_of (lb_hash L) raw)"
  shows "\<exists>pls saved. run (proc_step (lb_regex L) (lb_sha L)) (rn_processor (ru_rn st0)) pls (rn_processor (ru_rn (sv_run s)))
    \<and> subseq saved (processed pls) \<and> (ru_err (sv_run s) = [] \<longrightarrow> saved = processed pls)
    \<and> (ru_phase (sv_run s) \<noteq> Returned \<longrightarrow>
        visible (json_codec general) (rn_store (ru_rn (sv_run s))) = saves L saved (durable (json_codec general) db)
        \<and> (\<exists>k \<le> length saved. durable (json_codec general) (st_db (rn_store (ru_rn (sv_run s))))
              = saves L (take k saved) (durable (json_codec general) db)))
    \<and> (ru_phase (sv_run s) = Returned \<and> ru_err (sv_run s) = [] \<longrightarrow>
        durable (json_codec general) (st_db (rn_store (ru_rn (sv_run s)))) = saves L (processed pls) (durable (json_codec general) db))"
proof -
  let ?L = "checked_libs L"
  have ok: "codec_ok (lb_codec ?L)" "db_ok (lb_codec ?L) db" using assms(1,2) checked_ok by simp_all
  have "run (sv_step parse ?L) (sv_start st0 source capacity) ls s"
    using run_checked [OF assms(4)] start_held [OF assms(3)] assms(5) by (simp add: sv_start_def list_all_iff record_ok_def)
  then have "run (ru_step ?L) st0 (concat (map main_labels ls)) (sv_run s)" using service_projects by blast
  then obtain pls saved where "books ?L (durable (json_codec general) db) (rn_processor (ru_rn st0)) (sv_run s) pls saved"
    using checkpoints.run_keeps [of ?L] start_books [OF assms(3) ok] assms(1) by fastforce
  then show ?thesis
    using assms(1) by (intro exI [of _ pls] exI [of _ saved]) (auto simp: books_def in_step_def)
qed


subsection \<open>Examples\<close>

definition json_libs :: "(bool \<times> string) libs" where
  "json_libs = example_libs\<lparr>lb_codec := json_codec (\<lambda>_. None)\<rparr>"

lemma hello_storable: "storable (checkpoint_of (lb_hash json_libs) hello)"
proof -
  have "utf8 ''index-node-0''" "utf8 ''c1''" "utf8 ''#hello''" by (rule plain_text(2), code_simp)+
  moreover have "time_year zero_time = 1" by code_simp
  ultimately show ?thesis
    by (simp add: storable_def checkpoint_of_def json_libs_def example_libs_def example_hash_def hello_def)
qed

theorem Service_json_witness:
  "\<exists>st0 source ls s pls saved. run (sv_step (\<lambda>_. None) json_libs) (sv_start st0 source 1) ls s \<and> taken ls = [hello]
     \<and> run (proc_step (lb_regex json_libs) (lb_sha json_libs)) (rn_processor (ru_rn st0)) pls (rn_processor (ru_rn (sv_run s)))
     \<and> subseq saved (processed pls)"
proof -
  obtain st0 source acts ls s s' where ex: "runtime_start literal_lib None None None 0 []
      (applyRuleDefaults (example_config DefaultConfig)) False = (Inr (st0, source), acts)"
    "run (sv_step (\<lambda>_. None) json_libs) (sv_start st0 source 1) ls s"
    "sv_step (\<lambda>_. None) json_libs (SvEmit ''index-node-0'' hello) s s'" "ru_phase (sv_run s') = Running" "list_all main_free ls"
    using example_connected [of json_libs] by blast
  note r = run.run_step [where step = "sv_step (\<lambda>_. None) json_libs", OF ex(2,3)]
  have free: "taken ls = []" using ex(5)
  proof (induction ls)
    case (Cons l ls)
    then show ?case by (cases l) (simp_all add: taken_def map_filter_simps)
  qed (simp add: taken_def map_filter_simps)
  have "sv_logs s = []" "sv_logs s' = sv_logs s @ [hello]"
    using ex(3) channel_run [OF ex(2)] by (auto elim!: sv_stepE)
  then have logs: "sv_logs s' = hello # []" by simp
  obtain rn' e where "processRaw json_libs example_env hello (ru_rn (sv_run s')) = (rn', e)" by fastforce
  note step = sv_step.log [OF logs ru_step.log [OF disjI1 [OF ex(4)] this], of "\<lambda>_. None"]
  obtain s2 where s2: "sv_step (\<lambda>_. None) json_libs (SvLog example_env hello) s' s2" using step by blast
  note r2 = run.run_step [where step = "sv_step (\<lambda>_. None) json_libs", OF r s2]
  let ?ls = "(ls @ [SvEmit ''index-node-0'' hello]) @ [SvLog example_env hello]"
  have t: "taken ?ls = [hello]" using free by (simp add: taken_def map_filter_simps map_filter_def)
  have "lb_codec json_libs = json_codec (\<lambda>_. None)" "db_ok (json_codec (\<lambda>_. None)) []"
    by (simp_all add: json_libs_def db_ok_def)
  from Service_json [OF this ex(1) r2] t hello_storable obtain pls saved where
    "run (proc_step (lb_regex json_libs) (lb_sha json_libs)) (rn_processor (ru_rn st0)) pls (rn_processor (ru_rn (sv_run s2)))"
    "subseq saved (processed pls)" by auto
  with r2 t show ?thesis by blast
qed

end
