(* ===== verification/Clean_Run.thy ===== *)
theory Clean_Run
  imports Json_Service
begin

text \<open>
  The service of a validated configuration: the checks of \<open>Validate\<close> exclude every error of
  \<open>Process\<close> before the processor is closed, so that no record fails, and an orderly shutdown in which
  the file takes the writes ends without an error, as the records that were sent can be stored as JSON.
\<close>

section \<open>Processing does not fail\<close>

text \<open>The settings that \<open>Record\<close> asks for.\<close>

definition rule_ok :: "'re Rule \<Rightarrow> bool" where
  "rule_ok r \<longleftrightarrow> 0 < r_Threshold r \<and> 0 < r_Window r \<and> 0 \<le> r_Cooldown r"

lemma Compile_rule_ok:
  assumes "Compile R c = Inr r" and "rule_checks R path c = []"
  shows "rule_ok r"
proof -
  have "r_Threshold r = rc_Threshold c" "r_Window r = rc_Window c" "r_Cooldown r = rc_Cooldown c"
    using assms(1) by (auto simp: Compile_def split: sum.splits if_splits)
  moreover have "0 < rc_Threshold c" "0 < rc_Window c" "0 \<le> rc_Cooldown c"
    using assms(2) by (simp_all add: rule_checks_def Let_def)
  ultimately show ?thesis by (simp add: rule_ok_def)
qed

lemma compile_rules_settings:
  assumes "compile_rules R cs = Inr rs" and "list_all (\<lambda>c. \<exists>path. rule_checks R path c = []) cs"
  shows "list_all rule_ok rs"
  using assms by (induction cs arbitrary: rs) (auto split: sum.splits dest: Compile_rule_ok)

lemma validated_settings:
  assumes "Validate R cfg = []" and "compile_rules R (cf_Rules cfg) = Inr rs"
  shows "list_all rule_ok rs"
proof (rule compile_rules_settings [OF assms(2)])
  have "check_rules R 0 [] (cf_Rules cfg) = []"
    using assms(1) by (simp add: Validate_def validateRules_def split: if_splits)
  from check_rules_ok [OF this] show "list_all (\<lambda>c. \<exists>path. rule_checks R path c = []) (cf_Rules cfg)"
    by (auto simp: list_all_iff)
qed

lemma match_loop_rules: "set (match_loop R entry rules) \<subseteq> set rules"
  by (induction rules) auto

lemma matches_ok: "list_all rule_ok (eg_rules (p_rules p)) \<Longrightarrow> list_all rule_ok (matches_of R p entry)"
  using match_loop_rules [of R entry "eg_rules (p_rules p)"]
  by (auto simp: list_all_iff matches_of_def engine_Match_def)

lemma handle_match_accepts:
  assumes "rule_ok matched" and "\<forall>x. sha x \<noteq> []"
  shows "snd (handle_match R sha entry (now, matched) (p, err)) = err"
proof -
  let ?fp = "rule_Fingerprint R sha matched entry" and ?q = "observe (ObsRuleMatched (r_ID matched)) p"
  have "?fp \<noteq> []" using assms(2) by (simp add: rule_Fingerprint_def)
  then obtain a' res where "agg_Record (p_aggregator ?q) now \<lparr>ev_Rule = matched, ev_Fingerprint = ?fp, ev_Entry = entry\<rparr> = (a', Inr res)"
    using agg_Record_accepts [of "\<lparr>ev_Rule = matched, ev_Fingerprint = ?fp, ev_Entry = entry\<rparr>" "p_aggregator ?q" now] assms(1)
    by (auto simp: rule_ok_def)
  then show ?thesis by (simp add: handle_match_def Let_def)
qed

lemma matches_accepted:
  assumes "\<forall>(now, r) \<in> set ms. rule_ok r" and "\<forall>x. sha x \<noteq> []"
  shows "snd (fold (handle_match R sha entry) ms st) = snd st"
  using assms(1)
proof (induction ms arbitrary: st)
  case (Cons m ms)
  then have "snd (handle_match R sha entry m st) = snd st"
    using handle_match_accepts [OF _ assms(2), of "snd m" R entry "fst m" "fst st" "snd st"] by (auto split: prod.splits)
  with Cons show ?case by simp
qed simp

lemma Process_accepts:
  assumes "list_all rule_ok (eg_rules (p_rules p))" and "\<forall>x. sha x \<noteq> []" and "\<not> p_closed p"
  shows "snd (snd (processor_Process R sha clock p raw)) = None"
proof -
  define q where "q = observe (ObsParsed (sanitize R p raw)) p"
  let ?ms = "matches_of R q (sanitize R p raw)"
  have "list_all rule_ok ?ms"
    by (rule matches_ok) (use assms(1) in \<open>simp add: q_def observe_def\<close>)
  then have "\<forall>(now, r) \<in> set (zip (map clock [0..<length ?ms]) ?ms). rule_ok r"
    by (auto simp: list_all_iff dest: set_zip_rightD)
  from matches_accepted [OF this assms(2), of R] assms(3) show ?thesis
    by (simp add: processor_Process_def Let_def q_def split: prod.splits) (metis snd_conv)
qed

text \<open>A processor that accepts every record, until it is closed.\<close>

definition accepting :: "(string \<Rightarrow> string) \<Rightarrow> 're Processor \<Rightarrow> bool" where
  "accepting sha p \<longleftrightarrow> (\<forall>x. sha x \<noteq> []) \<and> list_all rule_ok (eg_rules (p_rules p)) \<and> \<not> p_closed p"

lemma accepting_extends: "extends es ids p q \<Longrightarrow> accepting sha p \<Longrightarrow> accepting sha q"
  by (simp add: accepting_def extends_def settings_def)

lemma accepting_step: "proc_step R sha l p p' \<Longrightarrow> l \<noteq> PClose \<Longrightarrow> accepting sha p \<Longrightarrow> accepting sha p'"
  using accepting_extends extends_step by blast

lemma items_accepted:
  assumes "accepting (lb_sha L) (rn_processor rn)"
  shows "snd (process_items L env i items rn) = None \<and> accepting (lb_sha L) (rn_processor (fst (process_items L env i items rn)))"
  using assms
proof (induction L env i items rn rule: process_items.induct)
  case (2 L env i item items rn)
  obtain p ack e where p: "processor_Process (lb_regex L) (lb_sha L) (fst (env i)) (rn_processor rn) item = (p, ack, e)"
    by (rule prod_cases3)
  have "e = None" using 2(2) Process_accepts [of "rn_processor rn" "lb_sha L"] p unfolding accepting_def by (metis snd_conv)
  moreover have "accepting (lb_sha L) p" using accepting_step [OF proc_Process [OF p]] 2(2) by simp
  ultimately show ?case using 2(1) [OF p [symmetric] refl] p by (simp add: save_item_frame)
qed simp

lemma raw_accepted:
  assumes "accepting (lb_sha L) (rn_processor rn)" and "processRaw L env raw rn = (rn', e)"
  shows "e = None" and "accepting (lb_sha L) (rn_processor rn')"
proof -
  obtain rn1 items where f: "observer_filter (lb_hash L) raw rn = (rn1, items)" by fastforce
  then have "rn_processor rn1 = rn_processor rn" by (auto simp: observer_filter_def split: option.splits prod.splits)
  with items_accepted [of L rn1 env 0 items] assms f show "e = None" "accepting (lb_sha L) (rn_processor rn')"
    by (simp_all add: processRaw_def)
qed

text \<open>As long as the main loop takes records the processor accepts them, and none has failed.\<close>

definition smooth_inv :: "'re libs \<Rightarrow> 're run_state \<Rightarrow> bool" where
  "smooth_inv L st \<longleftrightarrow> (\<not> closing (ru_phase st) \<longrightarrow> accepting (lb_sha L) (rn_processor (ru_rn st)))
     \<and> (\<forall>e. RunProcess e \<notin> set (ru_err st))"

interpretation smooth: step_invariant "ru_step L" "smooth_inv L" for L
proof
  fix st l st'
  assume inv: "smooth_inv L st" and step: "ru_step L l st st'"
  from step show "smooth_inv L st'"
  proof (cases rule: ru_step.cases)
    case (proc l p')
    have "l \<noteq> PClose" using proc(4) by (auto simp: proc_own_def)
    from accepting_step [OF proc(5) this] show ?thesis using inv proc by (simp add: smooth_inv_def)
  next
    case (attached io now name cid b)
    have "accepting (lb_sha L) (RemoveContainer name p)" if "accepting (lb_sha L) p" for p :: "'a Processor"
      by (rule accepting_step [OF proc_Remove _ that]) simp
    with attached_frame(2) [of "lb_codec L" io now name cid b "ru_rn st"] show ?thesis
      using inv attached by (auto simp: smooth_inv_def)
  next
    case (log running env raw rn' e)
    then have "\<not> closing (ru_phase st)" by auto
    then have "accepting (lb_sha L) (rn_processor (ru_rn st))" using inv by (simp add: smooth_inv_def)
    from raw_accepted [OF this log(4)] show ?thesis
      using inv log(2) by (simp add: smooth_inv_def proc_err_def first_err_def)
  qed (use inv in \<open>auto simp: smooth_inv_def ru_frames first_err_def ckpt_err_def split: sum.splits option.splits if_splits\<close>)
qed

lemma start_rules:
  assumes "runtime_start R openErr fmtErr clientErr now db cfg dry = (Inr (st, source), acts)"
  obtains rs where "compile_rules R (cf_Rules cfg) = Inr rs" and "eg_rules (p_rules (rn_processor (ru_rn st))) = rs"
    and "\<not> p_closed (rn_processor (ru_rn st))"
  using assms
  by (cases "buildNotifier fmtErr cfg")
     (auto simp: runtime_start_def buildPipelineParts_def processor_New_def NewEngine_def ru_start_def newRuntime_def Let_def
       intro!: that split: sum.splits option.splits prod.splits if_splits)

lemma start_smooth:
  assumes "Validate R cfg = []" and "\<forall>x. lb_sha L x \<noteq> []"
    and "runtime_start R openErr fmtErr clientErr now db cfg dry = (Inr (st, source), acts)"
  shows "smooth_inv L st"
proof -
  obtain rs where "compile_rules R (cf_Rules cfg) = Inr rs" "eg_rules (p_rules (rn_processor (ru_rn st))) = rs"
    "\<not> p_closed (rn_processor (ru_rn st))" by (rule start_rules [OF assms(3)])
  with validated_settings [OF assms(1)] assms(2) start_ok(7) [OF assms(3)] show ?thesis
    by (simp add: smooth_inv_def accepting_def)
qed


section \<open>An orderly shutdown reports nothing\<close>

text \<open>The JSON codec encodes what a store holds that was given storable checkpoints only.\<close>

lemma put_all_stored: "list_all (storable \<circ> snd) ps \<Longrightarrow> \<exists>db'. put_all (json_codec general) ps db = Inr db'"
proof (induction ps arbitrary: db)
  case (Cons p ps)
  obtain name cp where p: "p = (name, cp)" by (cases p)
  obtain v where "json_Marshal cp = Inr v" using json_roundtrip [of cp] Cons.prems p by auto
  then show ?case using Cons p by (simp add: json_codec_def)
qed simp

lemma flushLocked_stored: "pending_ok s \<Longrightarrow> snd (flushLocked (json_codec general) None s) = Inr ()"
  using put_all_stored [of "st_pending s" general "st_db s"] by (auto simp: flushLocked_def pending_ok_def)

lemma flush_stored: "pending_ok s \<Longrightarrow> \<not> st_closed s \<Longrightarrow> snd (ckpt_Flush (json_codec general) None s) = Inr ()"
  by (simp add: ckpt_Flush_def flushLocked_stored)

lemma close_stored:
  assumes "pending_ok s" and "\<not> st_closed s"
  shows "snd (ckpt_Close (json_codec general) None None s) = Inr ()"
proof (cases "close_begin s")
  case (Some s1)
  then have "pending_ok s1" using assms by (auto simp: close_begin_def pending_ok_def split: if_splits)
  then obtain s2 where "flushLocked (json_codec general) None s1 = (s2, Inr ())"
    using flushLocked_stored [of s1 general] by (metis prod.collapse)
  then show ?thesis using Some by (simp add: ckpt_Close_def close_end_def)
qed (simp add: ckpt_Close_def)

text \<open>What holds in a shutdown that meets no failure: nothing is refused and nothing expires.\<close>

definition orderly :: "'re libs \<Rightarrow> 're run_state \<Rightarrow> bool" where
  "orderly L st \<longleftrightarrow> smooth_inv L st \<and> store_phase st \<and> held_ok L (ru_rn st) \<and> ru_phase st \<noteq> WorkerClosing True"

lemma calm_step:
  assumes "ru_step L l st st'" and "ru_calm l" and "orderly L st" and "lb_codec L = json_codec general"
  shows "ru_err st' = ru_err st \<and> ru_phase st' \<noteq> WorkerClosing True"
  using assms(1)
proof (cases rule: ru_step.cases)
  case (log running env raw rn' e)
  then have "\<not> closing (ru_phase st)" by auto
  then have "accepting (lb_sha L) (rn_processor (ru_rn st))" using assms(3) by (simp add: orderly_def smooth_inv_def)
  from raw_accepted(1) [OF this log(4)] show ?thesis
    using log(2) assms(3) by (simp add: orderly_def proc_err_def first_err_def log_phase_def)
next
  case (flush io)
  then have "io = None" "\<not> st_closed (rn_store (ru_rn st))" "pending_ok (rn_store (ru_rn st))"
    using assms(2,3) by (simp_all add: ru_calm_def orderly_def store_phase_def held_ok_def Let_def)
  with flush_stored [OF this(3,2), of general] flush assms(4) show ?thesis
    by (simp add: store_flushed_def ckpt_err_def Let_def split: prod.splits)
next
  case (finish serverErr io closeIO)
  then have labels: "serverErr = None" "io = None" "closeIO = None" using assms(2) by (simp_all add: ru_calm_def)
  have "\<not> st_closed (rn_store (ru_rn st))" "pending_ok (rn_store (ru_rn st))"
    using finish(3) assms(3) by (simp_all add: orderly_def store_phase_def held_ok_def Let_def)
  from close_stored [OF this(2,1), of general] finish labels assms(4) show ?thesis
    by (simp add: store_closed_def ckpt_err_def split: prod.splits)
qed (use assms(2,3) in \<open>auto simp: orderly_def ru_calm_def first_err_def ru_frames\<close>)

lemma calm_run:
  assumes "run (ru_step L) st rls st'" and "list_all ru_calm rls" and "list_all (label_ok L) rls"
    and "orderly L st" and "lb_codec L = json_codec general"
  shows "ru_err st' = ru_err st \<and> orderly L st'"
  using assms(1-3)
proof (induction rule: run.induct)
  case (run_step ls st1 l st2)
  then have "ru_err st1 = ru_err st" and o: "orderly L st1" and l: "ru_calm l" "label_ok L l" by simp_all
  with calm_step [OF run_step.hyps(2) l(1) o assms(5)] smooth.step_keeps [OF _ run_step.hyps(2)]
    store_ends.step_keeps [OF _ run_step.hyps(2)] step_checked(2) [OF _ l(2) run_step.hyps(2)]
  show ?case by (simp add: orderly_def)
qed (use assms(4) in simp)

lemma labels_ok: "list_all (record_ok L) (logs_of rls) \<Longrightarrow> list_all (label_ok L) rls"
  by (auto simp: logs_of_def map_filter_def list_all_iff label_ok_def split: ru_label.splits)


text \<open>The main loop ends at the first error.\<close>

interpretation quiet: step_invariant "ru_step L" "\<lambda>st. ru_phase st = Running \<longrightarrow> ru_err st = []" for L
proof
  fix st l st'
  assume inv: "ru_phase st = Running \<longrightarrow> ru_err st = []" and step: "ru_step L l st st'"
  from step inv show "ru_phase st' = Running \<longrightarrow> ru_err st' = []"
    by (cases rule: ru_step.cases) (auto simp: ru_frames log_phase_def first_err_def)
qed

section \<open>Properties\<close>

text \<open>
  C16. The service of a validated configuration, with the JSON codec of its store. For a digest that is
  never empty no record ever fails to be processed: the errors that \<open>Run\<close> returns come from the
  listener, the source, the timeouts, the database and the server, never from \<open>Process\<close>. Assume that the
  records that were sent can be stored (names, identifiers and hashes in UTF-8, years of four digits).
  Then, unless the shutdown has already given up on the notification worker, the service can still end in order
  without adding an error to those it has met, and without another record being sent: the file takes the
  last writes, the flush and the close of the store succeed, and \<open>Run\<close> returns; and unless the drain timeout had
  expired before, the main loop has then taken every record that was sent.
\<close>

theorem Service_ends_clean:
  assumes "Validate R cfg = []" and "\<forall>x. lb_sha L x \<noteq> []" and "lb_codec L = json_codec general"
    and "runtime_start R openErr fmtErr clientErr now db cfg dry = (Inr (st0, source), acts)"
    and "run (sv_step parse L) (sv_start st0 source capacity) ls s"
    and "\<forall>raw \<in> set (sent ls). storable (checkpoint_of (lb_hash L) raw)"
  shows "(\<forall>e. RunProcess e \<notin> set (ru_err (sv_run s)))
    \<and> (ru_phase (sv_run s) \<noteq> WorkerClosing True \<longrightarrow>
        (\<exists>ls' s'. run (sv_step parse L) s ls' s' \<and> sent ls' = [] \<and> ru_phase (sv_run s') = Returned
          \<and> ru_err (sv_run s') = ru_err (sv_run s)
          \<and> (RunDrainExpired \<notin> set (ru_err (sv_run s)) \<longrightarrow> taken (ls @ ls') = sent ls)))"
proof (intro conjI impI)
  have main: "run (ru_step L) st0 (concat (map main_labels ls)) (sv_run s)" using service_projects [OF assms(5)] by blast
  have smooth: "smooth_inv L (sv_run s)" by (rule smooth.run_keeps [OF main start_smooth [OF assms(1,2,4)]])
  then show "\<forall>e. RunProcess e \<notin> set (ru_err (sv_run s))" by (simp add: smooth_inv_def)
  assume phase: "ru_phase (sv_run s) \<noteq> WorkerClosing True"
  obtain ls' s' where fin: "run (sv_step parse L) s ls' s'" "ru_phase (sv_run s') = Returned" "calm ls'"
    using service_finishes [OF assms(4,5)] by (auto simp: finishes_def)
  note sent = calm_sent [OF fin(3)]
  have split: "sent (ls @ ls') = sent ls" "taken (ls @ ls') = taken ls @ taken ls'"
    using sent by (simp_all add: sent_def taken_def)
  have "set (taken ls) \<subseteq> set (sent ls)" "set (taken ls') \<subseteq> set (sent ls)"
    using channel_run [OF assms(5)] channel_run [OF run_trans [OF fin(1) assms(5)]] split by auto
  then have ok: "list_all (record_ok L) (taken ls)" "list_all (record_ok L) (taken ls')"
    using assms(6) by (auto simp: list_all_iff record_ok_def)
  have "held_ok L (ru_rn (sv_run s))"
    using run_checked [OF assms(5) _ ok(1)] start_held [OF assms(4)] by (simp add: sv_start_def)
  with smooth phase store_ends.run_keeps [OF main start_open [OF assms(4)]] have "orderly L (sv_run s)"
    by (simp add: orderly_def)
  from calm_run [OF main_run [OF fin(1)] calm_labels [OF fin(3)] labels_ok this assms(3)]
  have "ru_err (sv_run s') = ru_err (sv_run s)" using ok(2) taken_logs [OF fin(1)] by simp
  with fin sent split drained_taken [OF assms(4,5) fin(1,2)] calm_expiry [OF fin(3)]
  show "\<exists>ls' s'. run (sv_step parse L) s ls' s' \<and> sent ls' = [] \<and> ru_phase (sv_run s') = Returned
      \<and> ru_err (sv_run s') = ru_err (sv_run s)
      \<and> (RunDrainExpired \<notin> set (ru_err (sv_run s)) \<longrightarrow> taken (ls @ ls') = sent ls)"
    by metis
qed


subsection \<open>Examples\<close>

definition clean_libs :: "(bool \<times> string) libs" where
  "clean_libs = json_libs\<lparr>lb_sha := (\<lambda>s. CHR ''h'' # s)\<rparr>"

theorem Service_ends_clean_witness:
  "\<exists>st0 source ls s. run (sv_step (\<lambda>_. None) clean_libs) (sv_start st0 source 1) ls s
     \<and> SvEmit ''index-node-0'' hello \<in> set ls \<and> ru_phase (sv_run s) = Returned \<and> ru_err (sv_run s) = [] \<and> taken ls = sent ls"
proof -
  obtain st0 source acts ls s s' where ex: "runtime_start literal_lib None None None 0 []
      (applyRuleDefaults (example_config DefaultConfig)) False = (Inr (st0, source), acts)"
    "run (sv_step (\<lambda>_. None) clean_libs) (sv_start st0 source 1) ls s"
    "sv_step (\<lambda>_. None) clean_libs (SvEmit ''index-node-0'' hello) s s'" "RunDrainExpired \<notin> set (ru_err (sv_run s'))"
    "ru_phase (sv_run s') = Running" "list_all main_free ls"
    using example_connected [of clean_libs] by blast
  let ?ls = "ls @ [SvEmit ''index-node-0'' hello]"
  note r = run.run_step [where step = "sv_step (\<lambda>_. None) clean_libs", OF ex(2,3)]
  have "sent ?ls = [hello]"
    using calm_sent [OF calm_free [OF ex(6)]] by (simp add: sent_def map_filter_simps)
  then have stored: "\<forall>raw \<in> set (sent ?ls). storable (checkpoint_of (lb_hash clean_libs) raw)"
    using hello_storable by (simp add: clean_libs_def)
  have libs: "\<forall>x. lb_sha clean_libs x \<noteq> []" "lb_codec clean_libs = json_codec (\<lambda>_. None)"
    by (simp_all add: clean_libs_def json_libs_def)
  obtain ls' s'' where
    fin: "run (sv_step (\<lambda>_. None) clean_libs) s' ls' s''" "sent ls' = []" "ru_phase (sv_run s'') = Returned"
    "ru_err (sv_run s'') = ru_err (sv_run s')" "taken (?ls @ ls') = sent ?ls"
    using Service_ends_clean [OF example_config_valid libs ex(1) r stored] ex(4,5) by auto
  moreover have "ru_err (sv_run s') = []"
    using quiet.run_keeps [OF conjunct1 [OF service_projects [OF r]]] start_ok(7) [OF ex(1)] ex(5) by simp
  moreover have "sent (?ls @ ls') = sent ?ls" using fin(2) by (simp add: sent_def)
  ultimately show ?thesis
    using run_trans [OF fin(1) r] by (intro exI [of _ st0] exI [of _ source] exI [of _ "?ls @ ls'"] exI [of _ s'']) simp
qed

end
