(* ===== verification/Spec2Isabelle.thy ===== *)
theory Spec2Isabelle
  imports Clean_Run
begin

text \<open>
  \<^bold>\<open>The graph-node log watcher, verified.\<close>

  The program follows the logs of graph-node containers through the Docker API, parses and
  redacts every line, matches it against configured rules, aggregates matches into incidents,
  and sends alerts to DingTalk. It remembers in a small database how far it got with each
  container, so that a restart neither loses a line nor, as far as possible, alerts twice.

  \<^bold>\<open>The parts and how they interact.\<close> \<open>main.go\<close> loads a configuration and calls \<open>runtime.Run\<close>.
  \<open>Run\<close> builds the parts and connects them: the Docker source has one goroutine per container
  that discovers it, reads its log stream from the replay start on and puts raw records into
  one channel; the main loop takes a record, lets the replay gate of its container skip what
  was processed before the checkpoint, gives what passes to the processor and saves a
  checkpoint for it; the processor parses, redacts, routes, matches, aggregates, and hands
  alerts, after waiting for context that follows, to the notification worker, which limits the
  rate, retries and fans out to the channels. A flush loop writes checkpoints to the database, and
  a health endpoint reports what the observer was told.

  \<^bold>\<open>The theories, in the order of their imports, and the code they model.\<close>

  \<^item> \<open>Glw_Prelude\<close>: Go's strings (bytes), times and durations (integers, nanoseconds), maps
    (association lists, \<open>gm_get\<close>, \<open>gm_set\<close>), the functions of \<open>strings\<close>, \<open>sort.Search\<close>;
    labelled runs and the locale \<open>step_invariant\<close>, the contract of a state machine, which every
    step relation below interprets.
  \<^item> \<open>Duration_Text\<close>: \<open>internal/config/duration.go\<close>, with \<open>String\<close> and \<open>ParseDuration\<close> of package
    \<open>time\<close>; \<open>Time_Format\<close>: the calendar, \<open>Format\<close> and \<open>Parse\<close> of \<open>time\<close> for \<open>RFC3339Nano\<close>.
  \<^item> \<open>Log_Entry\<close>: \<open>internal/logentry\<close>, the records and the levels with their text form.
  \<^item> \<open>Fixed_Regex\<close>: package \<open>regexp\<close>, as an executable backtracking matcher for the patterns
    that the source fixes, and as the record \<open>regex_lib\<close> for the configured ones.
  \<^item> \<open>Config\<close>, \<open>Config_Load\<close>: \<open>internal/config\<close>, the records, defaults, all checks of
    \<open>validate.go\<close> with their messages as values, the expansion of environment variables, \<open>Load\<close>.
  \<^item> \<open>Graph_Node_Parser\<close>: \<open>internal/parser\<close>; the interface \<open>Parser\<close> is the locale \<open>log_parser\<close>.
  \<^item> \<open>Redact\<close>: \<open>internal/redact\<close>; the promise of a redactor is the locale \<open>sanitizer\<close>.
  \<^item> \<open>Level_Router\<close>: \<open>internal/router\<close>.
  \<^item> \<open>Rule_Engine\<close>, \<open>Fingerprint\<close>: \<open>internal/rule\<close>, compilation and matching of rules, and the
    identity of an incident.
  \<^item> \<open>Aggregate\<close>: \<open>internal/aggregate\<close>, groups with their window of timestamps, threshold,
    cooldown, samples, expiry and the group limit.
  \<^item> \<open>Context_Buffer\<close>, \<open>Capture\<close>: \<open>internal/context\<close>, the ring buffers (locale \<open>bounded_log\<close>),
    the store of one per container, the byte budget of captured context, and the collector of
    the lines after an alert with its mutex sections and its timer as steps.
  \<^item> \<open>Replay_Gate\<close>, \<open>Checkpoint_Store\<close>: \<open>internal/checkpoint\<close>; the contract of a store that
    answers with the last value saved is the locale \<open>state_store\<close>.
  \<^item> \<open>Json_Text\<close>, \<open>Checkpoint_Json\<close>: the JSON values that the store writes and reads, with the part of package
    \<open>encoding/json\<close> that does it: UTF-8, quoting and its inverse, tokens, the check of a text, and the
    fields of a checkpoint.
  \<^item> \<open>Processor\<close>: \<open>internal/processor\<close>, with pending alerts at addresses of a heap and the
    waiting goroutines as steps of the relation \<open>proc_step\<close>.
  \<^item> \<open>Notify\<close>: \<open>internal/notify\<close>, retries, fan-out, the worker as the relation \<open>worker_step\<close> with
    64-bit counters, and the message.
  \<^item> \<open>Docker_Decode\<close>, \<open>Docker_Source\<close>, \<open>Docker_Run\<close>: \<open>internal/source/docker\<close>, the decoding of
    the plain and of the multiplexed stream format, discovery and the attach loop of one
    container (relation \<open>rc_step\<close>), and all goroutines of \<open>LogSource.Run\<close> together
    (relation \<open>src_step\<close>), with the conversions of \<open>client.go\<close>; \<open>Docker_Stamps\<close>: the log request
    and the decoding of lines with timestamps.
  \<^item> \<open>Health\<close>: the health state of \<open>internal/metrics\<close> and its endpoint.
  \<^item> \<open>Runtime\<close>: \<open>internal/runtime\<close>, building the parts, the observer, \<open>processRaw\<close>, and the main loop
    on the records of the channel (\<open>run_logs\<close>).
  \<^item> \<open>Lifecycle\<close>: \<open>Run\<close> of \<open>internal/runtime\<close>: start with its error paths (\<open>runtime_start\<close>), and
    main loop, drain and shutdown beside every other goroutine (relation \<open>ru_step\<close>).
  \<^item> \<open>Command\<close>: \<open>cmd/graph-log-watcher/main.go\<close>, \<open>internal/service\<close> and
    \<open>internal/processor/dryrun.go\<close>.
  \<^item> \<open>Observer_Metrics\<close>: the collectors of \<open>internal/metrics\<close> and the callbacks of the observer in
    \<open>internal/runtime\<close> that change them.
  \<^item> \<open>End_To_End\<close>: the order and the effect of the shutdown calls, confidentiality, metrics and health of
    the whole service, from the configuration to the alerts that the worker holds.
  \<^item> \<open>Whole_Service\<close>: \<open>Run\<close> of \<open>internal/runtime\<close> connected with \<open>LogSource.Run\<close>: the context that the main
    loop cancels, the callbacks of the goroutines, the stream goroutine of every container, the channel
    of records and its end (relation \<open>sv_step\<close>, which projects to \<open>ru_step\<close> and \<open>src_step\<close>).
  \<^item> \<open>Service_Drain\<close>: the orderly shutdown of the connected service and its properties.
  \<^item> \<open>Json_Service\<close>: the connected service with the JSON codec makes the steps that it makes with a
    codec that satisfies \<open>codec_ok\<close>.
  \<^item> \<open>Clean_Run\<close>: the service of a validated configuration, in which no record fails and which, with the
    JSON codec and records that can be stored, can end without an error.

  \<^bold>\<open>State and operations.\<close> A struct is a record whose fields carry a prefix and the name of the
  source; an operation has the name of the function, with a prefix where a name is used twice
  (\<open>agg_Record\<close>, \<open>ckpt_Save\<close>, \<open>gate_Accept\<close>). Errors are values: a sum type with the error on
  the left, or an option. An operation under a mutex is one step. A slice that the code
  copies before it hands it out is a value, so copying is the identity. Loops that end are
  functions with a termination proof; no definition needs fuel, except the greedy repetition of the
  matcher, where the length of the input is enough (\<open>star_match_fuel\<close>).

  \<^bold>\<open>What the lemmas show.\<close> For each component: its invariant is kept by every operation (of the
  aggregator, the ring buffer, the store, the collector, the processor, the worker, the attach
  loop, the health state), and its functional contract (alert decisions as a function of the
  history of a group; gate output, buffer content, checkpoint answers, health reports and decoded
  lines as functions of what went in; matching as the conditions that the configuration
  spells; fingerprints equal exactly for equal identities; parsing inverse to printing). Over
  interleavings: a collector delivers exactly once, a worker and a processor account for every
  alert, a secret that the redaction rules remove from every string is in no alert, no sample and no line,
  message or field value of a kept entry, the attach
  loops keep their protocol beside each other. For the composition: checkpoints follow
  processing and never precede it, a crash and a restart handle exactly the records after the
  checkpoint, alerts are accounted for from the aggregator to the counters of the worker, the
  service can always return and has then closed its parts and ended its goroutines, no record is lost between a stream and the
  processor, the observer follows the attach loops and has a container attached before its first
  record arrives, the connected service can always drain before its timeout, with a validated
  configuration no record fails to be processed and the orderly end adds no error, the metrics count what was
  processed and notified, and \<open>check-config\<close> predicts \<open>run\<close>.

  \<^bold>\<open>Parameters and hypotheses.\<close> Code outside the repository is an argument: package \<open>regexp\<close> for
  configured patterns (\<open>regex_lib\<close>, with the hypothesis, in the confidentiality theorems, that
  the replacements remove the secret); SHA-256 with hex encoding (where identity is claimed, that
  it does not collide on the inputs at hand, and in \<open>Clean_Run\<close> that it is not empty); a codec
  for checkpoints (\<open>codec_ok\<close>: what was written is read back). The codec of the
  program is \<open>json_codec\<close>, which keeps the checkpoints with texts in UTF-8 and years of four digits: restricted
  to them it satisfies \<open>codec_ok\<close>, and in \<open>Json_Service\<close> and \<open>Clean_Run\<close> the hypothesis is on the records instead;
  the parser of \<open>time.Parse\<close> for general layouts, which is tried after that for
  \<open>RFC3339\<close>; the floating point step of \<open>ParseDuration\<close> (\<open>float_exact\<close>); the YAML decoder; bbolt, a file whose
  transactions happen wholly or fail; the Docker SDK and the HTTP client by their answers; the
  upstream DingTalk channel by its errors. Clock readings, timer firings and failing writes are
  chosen by the environment at every step.

  \<^bold>\<open>Not modelled.\<close> The registration of the collectors with Prometheus and its text format; the
  statistics of the worker and its counters change in one step here, where the code releases the
  mutex between them. The observer calls \<open>Len\<close> of the aggregator for a gauge, which only drops
  groups that the next \<open>Record\<close> would drop (lemma \<open>Len_unseen\<close>), and is the identity here. Log messages. The HTTP
  server, signals, and the file system. The Docker client, which a deferred call closes, is a resource of the start
  only. The memory model below mutexes and channels: a critical section is atomic. Two operations are
  coarser than that: \<open>processRaw\<close> (filter, \<open>Process\<close> and \<open>Save\<close>, one after the other for each record) and
  \<open>ContainerAttached\<close> (identifiers, \<open>RemoveContainer\<close>, \<open>Load\<close> and the gate) are one step each, so that runs in which
  another goroutine moves between their critical sections are not among the interleavings here. The
  counts of a group (\<open>es_TotalCount\<close>, \<open>es_WindowCount\<close>) are integers without the bound of Go's \<open>int\<close>.
  The confidentiality theorems speak of the texts that \<open>Redact\<close> rewrites; the keys of fields, which it
  copies, stay in the kept entries (\<open>Redact_keeps_secret_keys\<close>). Records for which \<open>Save\<close> refuses a
  checkpoint (\<open>saves\<close>) are processed without one.
  Records of a container that are still in the channel when it is attached again are outside the
  hypotheses of the restart theorem; the theorem on lost records in \<open>Service_Drain\<close> covers them, without
  excluding that a record is processed twice. In the connected service what a reader delivers is fixed when its stream is opened,
  and the channel has room for at least one record, which \<open>Validate\<close> asks for.

  \<^bold>\<open>What could follow.\<close> The notification counters as a part of the steps of \<open>Lifecycle\<close>. Everything else that is
  not modelled is third-party code.
\<close>

end
